(* ===== verification/Prelude.thy ===== *)
theory Prelude
  imports Main "HOL-Library.Word"
begin

text \<open>
  Shared vocabulary of the development: the machine types, the faults a C++ operation can end in,
  the sequencing of operations that may fault and what is proved of their outcome, and the memory
  primitives the code uses (\<open>std::copy\<close>, \<open>std::vector::resize\<close>, reading and writing a block), each with the
  lemmas the components share.
\<close>

unbundle bit_operations_syntax

section \<open>Machine types and faults\<close>

type_synonym byte = "8 word"
type_synonym size_t = "64 word"
type_synonym u32 = "32 word"
type_synonym u16 = "16 word"

text \<open>
  The ways an operation can fail to return normally: \<open>exit(-1)\<close> after a fatal log line, a failed
  \<open>assert\<close>, a read or write outside an object, \<open>std::length_error\<close>,
  a call of an empty \<open>std::function\<close>, the use of an object that no longer exists, and a signed
  integer that overflows.
\<close>

datatype fault =
    ExitFailure
  | AssertionFailure
  | OutOfBounds
  | LengthError
  | BadFunctionCall
  | UseAfterFree
  | SignedOverflow

named_theorems size_simps \<open>moving \<open>size_t\<close> arithmetic to the natural numbers\<close>
named_theorems bind_simps \<open>sequencing of operations that may fault\<close>

fun bindE :: "'e + 'a \<Rightarrow> ('a \<Rightarrow> 'e + 'b) \<Rightarrow> 'e + 'b" where
  "bindE (Inl e) f = Inl e"
| "bindE (Inr x) f = f x"

lemma bindE_Inr_iff [bind_simps]:
  "bindE r f = Inr y \<longleftrightarrow> (\<exists>x. r = Inr x \<and> f x = Inr y)"
  by (cases r) auto

lemma bindE_Inl_iff:
  "bindE r f = Inl e \<longleftrightarrow> r = Inl e \<or> (\<exists>x. r = Inr x \<and> f x = Inl e)"
  by (cases r) auto

lemma bindE_assoc: "bindE (bindE r f) g = bindE r (\<lambda>x. bindE (f x) g)"
  by (cases r) auto

lemma bindE_Inr_right [simp]: "bindE r Inr = r"
  by (cases r) auto

lemma if_if_conj: "(if a then if b then x else y else y) = (if a \<and> b then x else y)"
  by simp

lemma bindE_cong [fundef_cong]:
  "r = r' \<Longrightarrow> (\<And>x. r' = Inr x \<Longrightarrow> f x = g x) \<Longrightarrow> bindE r f = bindE r' g"
  by (cases r') auto

text \<open>A run of operations: the first fault ends it, as an exception or an exit would.\<close>

fun runE :: "('t \<Rightarrow> 's \<Rightarrow> 'e + 's) \<Rightarrow> 't list \<Rightarrow> 's \<Rightarrow> 'e + 's" where
  "runE f [] s = Inr s"
| "runE f (x # xs) s = bindE (f x s) (runE f xs)"

lemma runE_append: "runE f (xs @ ys) s = bindE (runE f xs s) (runE f ys)"
proof (induction xs arbitrary: s)
  case Nil
  then show ?case by simp
next
  case (Cons x xs)
  then show ?case by (cases "f x s") simp_all
qed

lemma runE_map: "runE f (map g xs) s = runE (\<lambda>x. f (g x)) xs s"
proof (induction xs arbitrary: s)
  case Nil
  then show ?case by simp
next
  case (Cons x xs)
  then show ?case by (cases "f (g x) s") simp_all
qed

lemma runE_invariant:
  assumes "\<And>x s s'. x \<in> set xs \<Longrightarrow> f x s = Inr s' \<Longrightarrow> P s \<Longrightarrow> P s'"
    and "P s" and "runE f xs s = Inr s'"
  shows "P s'"
  using assms
proof (induction xs arbitrary: s)
  case Nil
  then show ?case by simp
next
  case (Cons x xs)
  from Cons.prems(3) obtain u where u: "f x s = Inr u" "runE f xs u = Inr s'"
    by (auto simp: bind_simps)
  have "P u" using Cons.prems(1) [of x s u] Cons.prems(2) u(1) by simp
  moreover have "\<And>y t t'. y \<in> set xs \<Longrightarrow> f y t = Inr t' \<Longrightarrow> P t \<Longrightarrow> P t'"
    using Cons.prems(1) by (meson list.set_intros(2))
  ultimately show ?case using Cons.IH u(2) by blast
qed

text \<open>
  \<open>outcome E P r\<close>: the operation returns in a state with \<open>P\<close>, or faults in a way that \<open>E\<close> admits. The
  rules push it through sequencing, so that a component proves one fact per operation.
\<close>

definition outcome :: "('e \<Rightarrow> bool) \<Rightarrow> ('a \<Rightarrow> bool) \<Rightarrow> 'e + 'a \<Rightarrow> bool" where
  "outcome E P r = (case r of Inl e \<Rightarrow> E e | Inr x \<Rightarrow> P x)"


lemma outcome_Inr [simp]: "outcome E P (Inr x) = P x"
  by (simp add: outcome_def)

lemma outcome_Inl [simp]: "outcome E P (Inl e) = E e"
  by (simp add: outcome_def)

lemma outcomeD: "outcome E P r \<Longrightarrow> r = Inr x \<Longrightarrow> P x"
  by simp

lemma outcome_bind: "outcome E P r \<Longrightarrow> (\<And>x. r = Inr x \<Longrightarrow> P x \<Longrightarrow> outcome E Q (f x)) \<Longrightarrow> outcome E Q (bindE r f)"
  by (cases r) simp_all

lemma outcome_weaken: "outcome E P r \<Longrightarrow> (\<And>x. P x \<Longrightarrow> Q x) \<Longrightarrow> outcome E Q r"
  by (cases r) simp_all

lemma outcome_runE:
  assumes "\<And>x s. x \<in> set xs \<Longrightarrow> P s \<Longrightarrow> outcome E P (f x s)" and "P s"
  shows "outcome E P (runE f xs s)"
  using assms
proof (induction xs arbitrary: s)
  case Nil
  then show ?case by simp
next
  case (Cons x xs)
  have "outcome E P (f x s)" using Cons.prems by simp
  then have "outcome E P (bindE (f x s) (runE f xs))"
    by (rule outcome_bind) (intro Cons.IH, auto intro: Cons.prems(1))
  then show ?case by simp
qed

section \<open>\<open>size_t\<close> arithmetic\<close>

lemma unat_size_sub [size_simps]: "unat b \<le> unat a \<Longrightarrow> unat (a - b) = unat a - unat b"
  for a b :: size_t
  by (simp add: unat_sub word_le_nat_alt)

lemma unat_size_add [size_simps]:
  "unat a + unat b < 18446744073709551616 \<Longrightarrow> unat (a + b) = unat a + unat b"
  for a b :: size_t
  using unat_add_lem [of a b] by simp

lemma unat_size_of_nat [size_simps]: "n < 18446744073709551616 \<Longrightarrow> unat (of_nat n :: size_t) = n"
  by (simp add: unsigned_of_nat take_bit_nat_eq_self)

lemma size_less_iff [size_simps]: "a < b \<longleftrightarrow> unat a < unat b" for a b :: size_t
  by (simp add: word_less_nat_alt)

lemma size_le_iff [size_simps]: "a \<le> b \<longleftrightarrow> unat a \<le> unat b" for a b :: size_t
  by (simp add: word_le_nat_alt)

lemma size_eq_iff: "a = b \<longleftrightarrow> unat a = unat b" for a b :: size_t
  by (simp add: word_unat_eq_iff)

lemma unat_size_bound: "unat (a :: size_t) < 18446744073709551616"
  using unsigned_less [of a, where 'a = nat] by simp

lemma unat_size_pred: "0 < n \<Longrightarrow> n < 18446744073709551616 \<Longrightarrow> unat (of_nat n - 1 :: size_t) = n - 1"
  by (simp add: unat_size_sub unat_size_of_nat)

lemma unat_size_minus_one: "unat (- 1 :: size_t) = 18446744073709551615"
  by (simp add: unsigned_minus_1_eq_mask mask_eq_exp_minus_1)

section \<open>Blocks of memory\<close>

text \<open>
  \<open>std::copy(first, first + n, out)\<close> inside one array copies element by element from the left;
  source and target may overlap.
\<close>

fun copy_within :: "nat \<Rightarrow> nat \<Rightarrow> nat \<Rightarrow> 'a list \<Rightarrow> 'a list" where
  "copy_within 0 s d xs = xs"
| "copy_within (Suc n) s d xs = copy_within n (Suc s) (Suc d) (xs[d := xs ! s])"

lemma length_copy_within [simp]: "length (copy_within n s d xs) = length xs"
  by (induction n s d xs rule: copy_within.induct) simp_all

text \<open>
  When the target is not to the right of the source the copy moves the block: no element is
  overwritten before it has been read.
\<close>

lemma copy_within_nth:
  assumes "d \<le> s" and "s + n \<le> length xs" and "i < length xs"
  shows "copy_within n s d xs ! i = (if d \<le> i \<and> i < d + n then xs ! (s + (i - d)) else xs ! i)"
  using assms
proof (induction n s d xs rule: copy_within.induct)
  case (1 s d xs)
  then show ?case by auto
next
  case (2 n s d xs)
  from "2.prems" have IH: "copy_within n (Suc s) (Suc d) (xs[d := xs ! s]) ! i =
      (if Suc d \<le> i \<and> i < Suc d + n then xs[d := xs ! s] ! (Suc s + (i - Suc d))
       else xs[d := xs ! s] ! i)"
    by (intro "2.IH") simp_all
  show ?case
  proof (cases "i = d")
    case True
    with IH "2.prems" show ?thesis by simp
  next
    case False
    with IH "2.prems" show ?thesis
      by (cases "d < i") (auto simp: nth_list_update Suc_diff_Suc)
  qed
qed

lemma take_drop_copy_within:
  assumes "d \<le> s" and "s + n \<le> length xs"
  shows "take n (drop d (copy_within n s d xs)) = take n (drop s xs)"
  using assms by (intro nth_equalityI) (auto simp: copy_within_nth)

text \<open>Writing a block of bytes into an array, and reading one out of it.\<close>

definition overwrite :: "nat \<Rightarrow> 'a list \<Rightarrow> 'a list \<Rightarrow> 'a list" where
  "overwrite off ys xs = take off xs @ ys @ drop (off + length ys) xs"

definition write_block :: "nat \<Rightarrow> 'a list \<Rightarrow> 'a list \<Rightarrow> fault + 'a list" where
  "write_block off ys xs =
     (if off + length ys \<le> length xs then Inr (overwrite off ys xs) else Inl OutOfBounds)"

definition read_block :: "int \<Rightarrow> nat \<Rightarrow> 'a list \<Rightarrow> fault + 'a list" where
  "read_block off n xs =
     (if 0 \<le> off \<and> nat off + n \<le> length xs then Inr (take n (drop (nat off) xs))
      else Inl OutOfBounds)"

lemma length_overwrite [simp]: "off + length ys \<le> length xs \<Longrightarrow> length (overwrite off ys xs) = length xs"
  by (simp add: overwrite_def)

lemma take_overwrite: "off \<le> length xs \<Longrightarrow> n \<le> off \<Longrightarrow> take n (overwrite off ys xs) = take n xs"
  by (simp add: overwrite_def min_def)

lemma take_drop_overwrite:
  assumes "r \<le> off" and "off \<le> length xs"
  shows "take (off - r + length ys) (drop r (overwrite off ys xs)) = take (off - r) (drop r xs) @ ys"
proof -
  have "drop r (overwrite off ys xs) = take (off - r) (drop r xs) @ ys @ drop (off + length ys) xs"
    using assms by (simp add: overwrite_def drop_take)
  moreover have "length (take (off - r) (drop r xs)) = off - r"
    using assms by simp
  ultimately show ?thesis by simp
qed

lemma take_split_at: "take n xs = take n (take m xs) @ drop m (take n xs)"
  by (metis append_take_drop_id min.commute take_take)

end
