(* ===== verification/Kernel.thy ===== *)
theory Kernel
  imports Prelude
begin

text \<open>
  The operating system as the library sees it. The system calls are not part of the repository, so
  they are a parameter: a record of functions on an opaque kernel state \<open>'k\<close>. A call returns what the
  C function returns and the next kernel state; \<open>sys_errno\<close> reads the calling thread's \<open>errno\<close>, which
  a successful call may leave at any old value. What the code relies on is stated as named predicates
  that repeat the documented behaviour (\<open>readv(2)\<close>, \<open>write(2)\<close>, \<open>epoll_ctl(2)\<close>, \<open>epoll_wait(2)\<close>);
  the theorems that need one name it as a hypothesis.
\<close>

section \<open>The system calls\<close>

datatype ctl_op = EPOLL_CTL_ADD | EPOLL_CTL_DEL | EPOLL_CTL_MOD

text \<open>\<open>struct epoll_event\<close>: the event mask and the \<open>data.ptr\<close> member, here the address of a \<open>Filed\<close>.\<close>

type_synonym epoll_event = "u32 \<times> nat"

datatype sockopt = SO_KEEPALIVE | SO_REUSEADDR | SO_REUSEPORT | TCP_NODELAY

text \<open>\<open>struct sockaddr_in\<close>, with port and address in network byte order.\<close>

record sockaddr =
  sin_family :: u16
  sin_port :: u16
  sin_addr :: u32

record 'k sys =
  sys_errno :: "'k \<Rightarrow> int"
  sys_set_errno :: "int \<Rightarrow> 'k \<Rightarrow> 'k"
  sys_readv :: "int \<Rightarrow> nat list \<Rightarrow> 'k \<Rightarrow> int \<times> byte list \<times> 'k"
  sys_write :: "int \<Rightarrow> byte list \<Rightarrow> 'k \<Rightarrow> int \<times> 'k"
  sys_shutdown_wr :: "int \<Rightarrow> 'k \<Rightarrow> int \<times> 'k"
  sys_close :: "int \<Rightarrow> 'k \<Rightarrow> 'k"
  sys_getsockopt_error :: "int \<Rightarrow> 'k \<Rightarrow> int \<times> int \<times> 'k"
  sys_setsockopt :: "int \<Rightarrow> sockopt \<Rightarrow> int \<Rightarrow> 'k \<Rightarrow> 'k"
  sys_eventfd :: "'k \<Rightarrow> int \<times> 'k"
  sys_epoll_create :: "'k \<Rightarrow> int \<times> 'k"
  sys_epoll_ctl :: "int \<Rightarrow> ctl_op \<Rightarrow> int \<Rightarrow> epoll_event \<Rightarrow> 'k \<Rightarrow> int \<times> 'k"
  sys_epoll_wait :: "int \<Rightarrow> nat \<Rightarrow> int \<Rightarrow> 'k \<Rightarrow> int \<times> epoll_event list \<times> 'k"
  sys_time :: "'k \<Rightarrow> int \<times> 'k"
  sys_socket :: "'k \<Rightarrow> int \<times> 'k"
  sys_bind :: "int \<Rightarrow> sockaddr \<Rightarrow> 'k \<Rightarrow> int \<times> 'k"
  sys_listen :: "int \<Rightarrow> int \<Rightarrow> 'k \<Rightarrow> int \<times> 'k"
  sys_accept4 :: "int \<Rightarrow> 'k \<Rightarrow> int \<times> sockaddr \<times> 'k"
  sys_getsockname :: "int \<Rightarrow> 'k \<Rightarrow> int \<times> sockaddr \<times> 'k"

text \<open>The \<open>errno\<close> values the code compares with.\<close>

definition EINTR :: int where "EINTR = 4"
definition EWOULDBLOCK :: int where "EWOULDBLOCK = 11"
definition EMFILE :: int where "EMFILE = 24"

section \<open>Documented behaviour\<close>

text \<open>
  \<open>readv\<close> returns a negative value, or the number of bytes it placed, at most the total length of
  the vectors. \<open>write\<close> returns a negative value or the number of bytes it took, at most the count.
\<close>

definition readv_law :: "'k sys \<Rightarrow> bool" where
  "readv_law S \<longleftrightarrow> (\<forall>fd iov k n d k'. sys_readv S fd iov k = (n, d, k') \<longrightarrow> 0 \<le> n \<longrightarrow>
     n = int (length d) \<and> length d \<le> sum_list iov)"

definition write_law :: "'k sys \<Rightarrow> bool" where
  "write_law S \<longleftrightarrow> (\<forall>fd d k n k'. sys_write S fd d k = (n, k') \<longrightarrow> n \<le> int (length d))"

text \<open>
  \<open>epoll_ctl\<close> keeps, per epoll instance, an interest list: \<open>itst k epfd fd\<close> is what is registered for
  \<open>fd\<close>. \<open>ADD\<close> of a descriptor not in the list, and \<open>MOD\<close> and \<open>DEL\<close> of one in it, succeed and change that
  entry alone; resource exhaustion (\<open>ENOMEM\<close>, \<open>ENOSPC\<close>) is left out.
\<close>

type_synonym 'k interest = "'k \<Rightarrow> int \<Rightarrow> int \<Rightarrow> epoll_event option"

definition epoll_ctl_law :: "'k sys \<Rightarrow> 'k interest \<Rightarrow> bool" where
  "epoll_ctl_law S itst \<longleftrightarrow> (\<forall>ep fd ev k r k'.
     (sys_epoll_ctl S ep EPOLL_CTL_ADD fd ev k = (r, k') \<longrightarrow> itst k ep fd = None \<longrightarrow>
        0 \<le> r \<and> itst k' = (itst k)(ep := (itst k ep)(fd := Some ev))) \<and>
     (sys_epoll_ctl S ep EPOLL_CTL_MOD fd ev k = (r, k') \<longrightarrow> itst k ep fd \<noteq> None \<longrightarrow>
        0 \<le> r \<and> itst k' = (itst k)(ep := (itst k ep)(fd := Some ev))) \<and>
     (sys_epoll_ctl S ep EPOLL_CTL_DEL fd ev k = (r, k') \<longrightarrow> itst k ep fd \<noteq> None \<longrightarrow>
        0 \<le> r \<and> itst k' = (itst k)(ep := (itst k ep)(fd := None))))"

text \<open>
  An \<open>eventfd\<close> is a counter: \<open>cnt k fd\<close>. Writing the 8-byte integer 1, \<open>wake_bytes\<close>, adds one, or fails
  and changes nothing when the counter is at its maximum; only a read, which the library never does,
  would reset it.
\<close>

definition wake_bytes :: "byte list" where
  "wake_bytes = [1, 0, 0, 0, 0, 0, 0, 0]"

definition eventfd_max :: nat where "eventfd_max = 2 ^ 64 - 2"

definition eventfd_law :: "'k sys \<Rightarrow> ('k \<Rightarrow> int \<Rightarrow> nat option) \<Rightarrow> bool" where
  "eventfd_law S cnt \<longleftrightarrow> (\<forall>fd k n k' c. sys_write S fd wake_bytes k = (n, k') \<longrightarrow> cnt k fd = Some c \<longrightarrow>
     (if c < eventfd_max then n = 8 \<and> cnt k' = (cnt k)(fd \<mapsto> c + 1)
      else n < 0 \<and> cnt k' = cnt k))"

text \<open>
  The bytes a socket was handed: \<open>sent k fd\<close>. A \<open>write\<close> that returns \<open>n\<close> took the first \<open>n\<close> bytes, a failed
  one none; the other calls the connections make hand nothing over.
\<close>

definition stream_law :: "'k sys \<Rightarrow> ('k \<Rightarrow> int \<Rightarrow> byte list) \<Rightarrow> bool" where
  "stream_law S sent \<longleftrightarrow>
     (\<forall>fd d k n k'. sys_write S fd d k = (n, k') \<longrightarrow>
        sent k' = (sent k)(fd := sent k fd @ take (nat n) d)) \<and>
     (\<forall>ep op fd ev k r k'. sys_epoll_ctl S ep op fd ev k = (r, k') \<longrightarrow> sent k' = sent k) \<and>
     (\<forall>fd k r k'. sys_shutdown_wr S fd k = (r, k') \<longrightarrow> sent k' = sent k) \<and>
     (\<forall>fd iov k n d k'. sys_readv S fd iov k = (n, d, k') \<longrightarrow> sent k' = sent k)"

text \<open>
  Whether \<open>shutdown(fd, SHUT_WR)\<close> has been called: \<open>shut k fd\<close>. No other call the connections make does it.
\<close>

definition shutdown_law :: "'k sys \<Rightarrow> ('k \<Rightarrow> int \<Rightarrow> bool) \<Rightarrow> bool" where
  "shutdown_law S shut \<longleftrightarrow>
     (\<forall>fd d k n k'. sys_write S fd d k = (n, k') \<longrightarrow> shut k' = shut k) \<and>
     (\<forall>ep op fd ev k r k'. sys_epoll_ctl S ep op fd ev k = (r, k') \<longrightarrow> shut k' = shut k) \<and>
     (\<forall>fd k r k'. sys_shutdown_wr S fd k = (r, k') \<longrightarrow> shut k' = (shut k)(fd := True))"

lemma shutdown_lawD:
  assumes "shutdown_law S shut"
  shows "sys_write S fd d k = (n, k') \<Longrightarrow> shut k' = shut k"
    and "sys_epoll_ctl S ep op fd ev k = (r, k') \<Longrightarrow> shut k' = shut k"
    and "sys_shutdown_wr S fd k = (r, k') \<Longrightarrow> shut k' = (shut k)(fd := True)"
  using assms unfolding shutdown_law_def by blast+

text \<open>Only \<open>epoll_ctl\<close> and closing a descriptor change an interest list.\<close>

definition interest_frame :: "'k sys \<Rightarrow> 'k interest \<Rightarrow> bool" where
  "interest_frame S itst \<longleftrightarrow>
     (\<forall>e k. itst (sys_set_errno S e k) = itst k) \<and>
     (\<forall>fd iov k. itst (snd (snd (sys_readv S fd iov k))) = itst k) \<and>
     (\<forall>fd d k. itst (snd (sys_write S fd d k)) = itst k) \<and>
     (\<forall>fd k. itst (snd (sys_shutdown_wr S fd k)) = itst k) \<and>
     (\<forall>fd k. itst (snd (snd (sys_getsockopt_error S fd k))) = itst k) \<and>
     (\<forall>fd opt v k. itst (sys_setsockopt S fd opt v k) = itst k) \<and>
     (\<forall>fd k. itst (snd (snd (sys_getsockname S fd k))) = itst k) \<and>
     (\<forall>fd k. itst (snd (snd (sys_accept4 S fd k))) = itst k) \<and>
     (\<forall>fd n k. itst (snd (sys_listen S fd n k)) = itst k)"

lemma interest_frameD:
  assumes "interest_frame S itst"
  shows "itst (sys_set_errno S e k) = itst k"
    and "sys_readv S fd iov k = (n, d, k') \<Longrightarrow> itst k' = itst k"
    and "sys_write S fd d k = (n, k') \<Longrightarrow> itst k' = itst k"
    and "sys_shutdown_wr S fd k = (n, k') \<Longrightarrow> itst k' = itst k"
    and "sys_getsockopt_error S fd k = (n, m, k') \<Longrightarrow> itst k' = itst k"
    and "itst (sys_setsockopt S fd opt v k) = itst k"
    and "sys_getsockname S fd k = (n, a, k') \<Longrightarrow> itst k' = itst k"
    and "sys_accept4 S fd k = (n, a, k') \<Longrightarrow> itst k' = itst k"
    and "sys_listen S fd m k = (n, k') \<Longrightarrow> itst k' = itst k"
  using assms unfolding interest_frame_def by (metis snd_conv)+

text \<open>Making a socket and binding it watch nothing.\<close>

definition socket_frame :: "'k sys \<Rightarrow> 'k interest \<Rightarrow> bool" where
  "socket_frame S itst \<longleftrightarrow> (\<forall>k. itst (snd (sys_socket S k)) = itst k) \<and>
     (\<forall>fd a k. itst (snd (sys_bind S fd a k)) = itst k)"

lemma socket_frameD:
  assumes "socket_frame S itst"
  shows "sys_socket S k = (n, k') \<Longrightarrow> itst k' = itst k" and "sys_bind S fd a k = (m, k') \<Longrightarrow> itst k' = itst k"
  using assms unfolding socket_frame_def by (metis snd_conv)+

text \<open>
  Closing a descriptor takes it out of every interest list and leaves the other entries.
\<close>

definition close_law :: "'k sys \<Rightarrow> 'k interest \<Rightarrow> bool" where
  "close_law S itst \<longleftrightarrow> (\<forall>fd k ep q. itst (sys_close S fd k) ep q = (if q = fd then None else itst k ep q))"

lemma close_lawD: "close_law S itst \<Longrightarrow> itst (sys_close S fd k) ep q = (if q = fd then None else itst k ep q)"
  unfolding close_law_def by blast

text \<open>\<open>still S obs\<close>: an observation of the kernel that none of the calls a connection makes changes.\<close>

definition still :: "'k sys \<Rightarrow> ('k \<Rightarrow> 'o) \<Rightarrow> bool" where
  "still S obs \<longleftrightarrow>
     (\<forall>e k. obs (sys_set_errno S e k) = obs k) \<and>
     (\<forall>fd iov k. obs (snd (snd (sys_readv S fd iov k))) = obs k) \<and>
     (\<forall>fd d k. obs (snd (sys_write S fd d k)) = obs k) \<and>
     (\<forall>fd k. obs (snd (sys_shutdown_wr S fd k)) = obs k) \<and>
     (\<forall>fd k. obs (snd (snd (sys_getsockopt_error S fd k))) = obs k) \<and>
     (\<forall>fd opt v k. obs (sys_setsockopt S fd opt v k) = obs k) \<and>
     (\<forall>ep op fd ev k. obs (snd (sys_epoll_ctl S ep op fd ev k)) = obs k)"

lemma stillD:
  assumes "still S obs"
  shows "obs (sys_set_errno S e k) = obs k"
    and "sys_readv S fd iov k = (n, d, k') \<Longrightarrow> obs k' = obs k"
    and "sys_write S fd d k = (n, k') \<Longrightarrow> obs k' = obs k"
    and "sys_shutdown_wr S fd k = (n, k') \<Longrightarrow> obs k' = obs k"
    and "sys_getsockopt_error S fd k = (n, m, k') \<Longrightarrow> obs k' = obs k"
    and "obs (sys_setsockopt S fd opt v k) = obs k"
    and "sys_epoll_ctl S ep op fd ev k = (n, k') \<Longrightarrow> obs k' = obs k"
  using assms unfolding still_def by (metis snd_conv)+

text \<open>
  Descriptors: \<open>used k\<close> are the open ones. A call that opens one returns a number not in use, or fails and opens
  nothing; only \<open>close\<close> closes one. A new epoll instance watches nothing, and waiting, reading the clock and making an
  \<open>eventfd\<close> change no interest list.
\<close>

definition opens :: "('k \<Rightarrow> int set) \<Rightarrow> 'k \<Rightarrow> int \<Rightarrow> 'k \<Rightarrow> bool" where
  "opens used k n k' \<longleftrightarrow> (if 0 \<le> n then n \<notin> used k \<and> used k' = insert n (used k) else used k' = used k)"

definition fd_law :: "'k sys \<Rightarrow> 'k interest \<Rightarrow> ('k \<Rightarrow> int set) \<Rightarrow> bool" where
  "fd_law S itst used \<longleftrightarrow> still S used \<and>
     (\<forall>k n k'. sys_epoll_create S k = (n, k') \<longrightarrow> opens used k n k' \<and>
        itst k' = (if 0 \<le> n then (itst k)(n := Map.empty) else itst k)) \<and>
     (\<forall>k n k'. sys_eventfd S k = (n, k') \<longrightarrow> opens used k n k' \<and> itst k' = itst k) \<and>
     (\<forall>k n k'. sys_socket S k = (n, k') \<longrightarrow> opens used k n k') \<and>
     (\<forall>fd k n a k'. sys_accept4 S fd k = (n, a, k') \<longrightarrow> opens used k n k') \<and>
     (\<forall>fd k. used (sys_close S fd k) = used k - {fd}) \<and>
     (\<forall>fd a k n k'. sys_bind S fd a k = (n, k') \<longrightarrow> used k' = used k) \<and>
     (\<forall>fd m k n k'. sys_listen S fd m k = (n, k') \<longrightarrow> used k' = used k) \<and>
     (\<forall>fd k n a k'. sys_getsockname S fd k = (n, a, k') \<longrightarrow> used k' = used k) \<and>
     (\<forall>ep m t k n evs k'. sys_epoll_wait S ep m t k = (n, evs, k') \<longrightarrow> used k' = used k \<and> itst k' = itst k) \<and>
     (\<forall>k n k'. sys_time S k = (n, k') \<longrightarrow> used k' = used k \<and> itst k' = itst k)"

lemma fd_lawD:
  assumes "fd_law S itst used"
  shows "still S used"
    and "sys_epoll_create S k = (n, k') \<Longrightarrow> opens used k n k' \<and>
      itst k' = (if 0 \<le> n then (itst k)(n := Map.empty) else itst k)"
    and "sys_eventfd S k = (n, k') \<Longrightarrow> opens used k n k' \<and> itst k' = itst k"
    and "sys_socket S k = (n, k') \<Longrightarrow> opens used k n k'"
    and "sys_accept4 S fd k = (n, a, k') \<Longrightarrow> opens used k n k'"
    and "used (sys_close S fd k) = used k - {fd}"
    and "sys_bind S fd b k = (n, k') \<Longrightarrow> used k' = used k"
    and "sys_listen S fd i k = (n, k') \<Longrightarrow> used k' = used k"
    and "sys_getsockname S fd k = (n, a, k') \<Longrightarrow> used k' = used k"
    and "sys_epoll_wait S ep m t k = (n, evs, k') \<Longrightarrow> used k' = used k \<and> itst k' = itst k"
    and "sys_time S k = (n, k') \<Longrightarrow> used k' = used k \<and> itst k' = itst k"
  using assms unfolding fd_law_def by (simp_all only: split: if_split)

text \<open>
  \<open>epoll_wait\<close> fails with \<open>-1\<close> and reports nothing, or returns the number of events it stores, at most as many as there
  is room for; each carries the pointer of an entry of the instance's interest list.
\<close>

definition wait_law :: "'k sys \<Rightarrow> 'k interest \<Rightarrow> bool" where
  "wait_law S itst \<longleftrightarrow> (\<forall>ep m t k r evs k'. sys_epoll_wait S ep m t k = (r, evs, k') \<longrightarrow>
     (r = int (length evs) \<and> length evs \<le> m \<or> r = - 1 \<and> evs = []) \<and>
     (\<forall>(ev, fp) \<in> set evs. \<exists>fd e. itst k ep fd = Some (e, fp)))"

lemma wait_lawD:
  assumes "wait_law S itst" and "sys_epoll_wait S ep m t k = (r, evs, k')"
  shows "r = int (length evs) \<and> length evs \<le> m \<or> r = - 1 \<and> evs = []"
    and "fp \<in> snd ` set evs \<Longrightarrow> \<exists>fd e. itst k ep fd = Some (e, fp)"
  using assms unfolding wait_law_def by fastforce+

lemma stream_lawD:
  assumes "stream_law S sent"
  shows "sys_write S fd d k = (n, k') \<Longrightarrow> sent k' = (sent k)(fd := sent k fd @ take (nat n) d)"
    and "sys_epoll_ctl S ep op fd ev k = (r, k') \<Longrightarrow> sent k' = sent k"
    and "sys_shutdown_wr S fd k = (r, k') \<Longrightarrow> sent k' = sent k"
    and "sys_readv S fd iov k = (m, d, k') \<Longrightarrow> sent k' = sent k"
  using assms unfolding stream_law_def by (elim conjE, metis)+

lemma eventfd_lawD:
  "eventfd_law S cnt \<Longrightarrow> sys_write S fd wake_bytes k = (n, k') \<Longrightarrow> cnt k fd = Some c \<Longrightarrow>
     (if c < eventfd_max then n = 8 \<and> cnt k' = (cnt k)(fd \<mapsto> c + 1) else n < 0 \<and> cnt k' = cnt k)"
  unfolding eventfd_law_def by blast

lemma eventfd_positive:
  assumes "eventfd_law S cnt" and "sys_write S fd wake_bytes k = (n, k')" and "cnt k fd = Some c"
  shows "\<exists>c'. cnt k' fd = Some c' \<and> c \<le> c' \<and> 0 < c'"
  using eventfd_lawD [OF assms] assms(3) by (auto simp: eventfd_max_def split: if_splits)

lemma readv_lawD:
  "readv_law S \<Longrightarrow> sys_readv S fd iov k = (n, d, k') \<Longrightarrow> 0 \<le> n \<Longrightarrow>
     n = int (length d) \<and> length d \<le> sum_list iov"
  unfolding readv_law_def by blast

lemma write_lawD: "write_law S \<Longrightarrow> sys_write S fd d k = (n, k') \<Longrightarrow> n \<le> int (length d)"
  unfolding write_law_def by blast

lemma epoll_ctl_addD:
  "epoll_ctl_law S itst \<Longrightarrow> sys_epoll_ctl S ep EPOLL_CTL_ADD fd ev k = (r, k') \<Longrightarrow>
     itst k ep fd = None \<Longrightarrow> 0 \<le> r \<and> itst k' = (itst k)(ep := (itst k ep)(fd := Some ev))"
  unfolding epoll_ctl_law_def by blast

lemma epoll_ctl_modD:
  "epoll_ctl_law S itst \<Longrightarrow> sys_epoll_ctl S ep EPOLL_CTL_MOD fd ev k = (r, k') \<Longrightarrow>
     itst k ep fd \<noteq> None \<Longrightarrow> 0 \<le> r \<and> itst k' = (itst k)(ep := (itst k ep)(fd := Some ev))"
  unfolding epoll_ctl_law_def by blast

lemma epoll_ctl_delD:
  "epoll_ctl_law S itst \<Longrightarrow> sys_epoll_ctl S ep EPOLL_CTL_DEL fd ev k = (r, k') \<Longrightarrow>
     itst k ep fd \<noteq> None \<Longrightarrow> 0 \<le> r \<and> itst k' = (itst k)(ep := (itst k ep)(fd := None))"
  unfolding epoll_ctl_law_def by blast

section \<open>A kernel that runs\<close>

text \<open>
  A small concrete kernel, used only where a theorem about an arbitrary kernel is applied to an input:
  one stream of bytes to read, a socket buffer with \<open>sim_space\<close> free bytes, an interest list, and the
  events the next \<open>epoll_wait\<close> reports.
\<close>

record ksim =
  sim_errno :: int
  sim_input :: "byte list"
  sim_space :: nat
  sim_sent :: "int \<Rightarrow> byte list"
  sim_shut :: "int list"
  sim_interest :: "int \<Rightarrow> int \<Rightarrow> epoll_event option"
  sim_ready :: "(int \<times> u32) list"
  sim_event :: "int \<Rightarrow> nat option"
  sim_next :: nat
  sim_closed :: "int list"

definition ksim0 :: ksim where
  "ksim0 = \<lparr>sim_errno = 0, sim_input = [], sim_space = 16, sim_sent = (\<lambda>_. []), sim_shut = [],
     sim_interest = (\<lambda>_ _. None), sim_ready = [],
     sim_event = (\<lambda>_. None), sim_next = 3, sim_closed = []\<rparr>"

definition sim_write :: "int \<Rightarrow> byte list \<Rightarrow> ksim \<Rightarrow> int \<times> ksim" where
  "sim_write fd d k =
     (if d = wake_bytes \<and> sim_event k fd \<noteq> None
      then let c = the (sim_event k fd) in
        if c < eventfd_max
        then (8, k\<lparr>sim_event := (sim_event k)(fd \<mapsto> c + 1), sim_sent := (sim_sent k)(fd := sim_sent k fd @ d)\<rparr>)
        else (- 1, k\<lparr>sim_errno := EWOULDBLOCK\<rparr>)
      else if d \<noteq> [] \<and> sim_space k = 0 then (- 1, k\<lparr>sim_errno := EWOULDBLOCK\<rparr>)
      else let m = min (length d) (sim_space k) in
        (int m, k\<lparr>sim_space := sim_space k - m,
           sim_sent := (sim_sent k)(fd := sim_sent k fd @ take m d)\<rparr>))"

definition sim_readv :: "nat list \<Rightarrow> ksim \<Rightarrow> int \<times> byte list \<times> ksim" where
  "sim_readv iov k =
     (let d = take (sum_list iov) (sim_input k)
      in (int (length d), d, k\<lparr>sim_input := drop (length d) (sim_input k)\<rparr>))"

definition sim_epoll_ctl :: "int \<Rightarrow> ctl_op \<Rightarrow> int \<Rightarrow> epoll_event \<Rightarrow> ksim \<Rightarrow> int \<times> ksim" where
  "sim_epoll_ctl ep op fd ev k =
     (let entry = sim_interest k ep fd;
          set = (\<lambda>x. k\<lparr>sim_interest := (sim_interest k)(ep := (sim_interest k ep)(fd := x))\<rparr>)
      in case op of
           EPOLL_CTL_ADD \<Rightarrow> (if entry = None then (0, set (Some ev)) else (- 1, k\<lparr>sim_errno := 17\<rparr>))
         | EPOLL_CTL_MOD \<Rightarrow> (if entry \<noteq> None then (0, set (Some ev)) else (- 1, k\<lparr>sim_errno := 2\<rparr>))
         | EPOLL_CTL_DEL \<Rightarrow> (if entry \<noteq> None then (0, set None) else (- 1, k\<lparr>sim_errno := 2\<rparr>)))"

definition sim_fresh :: "ksim \<Rightarrow> int \<times> ksim" where
  "sim_fresh k = (int (sim_next k), k\<lparr>sim_next := Suc (sim_next k), sim_closed := removeAll (int (sim_next k)) (sim_closed k)\<rparr>)"

text \<open>Of the descriptors that are ready, the ones that are watched.\<close>

fun sim_reported :: "(int \<Rightarrow> epoll_event option) \<Rightarrow> (int \<times> u32) list \<Rightarrow> epoll_event list" where
  "sim_reported m [] = []"
| "sim_reported m ((fd, ev) # rs) =
     (case m fd of None \<Rightarrow> sim_reported m rs | Some (e, fp) \<Rightarrow> (ev, fp) # sim_reported m rs)"

definition sim_sys :: "ksim sys" where
  "sim_sys = \<lparr>
     sys_errno = sim_errno,
     sys_set_errno = (\<lambda>e k. k\<lparr>sim_errno := e\<rparr>),
     sys_readv = (\<lambda>fd. sim_readv),
     sys_write = sim_write,
     sys_shutdown_wr = (\<lambda>fd k. (0, k\<lparr>sim_shut := fd # sim_shut k\<rparr>)),
     sys_close = (\<lambda>fd k. k\<lparr>sim_interest := (\<lambda>ep. (sim_interest k ep)(fd := None)),
        sim_closed := fd # sim_closed k\<rparr>),
     sys_getsockopt_error = (\<lambda>fd k. (0, 0, k)),
     sys_setsockopt = (\<lambda>fd opt v k. k),
     sys_eventfd = (\<lambda>k. let (fd, k') = sim_fresh k in (fd, k'\<lparr>sim_event := (sim_event k')(fd \<mapsto> 0)\<rparr>)),
     sys_epoll_create = (\<lambda>k. let (fd, k') = sim_fresh k
        in (fd, k'\<lparr>sim_interest := (sim_interest k')(fd := Map.empty)\<rparr>)),
     sys_epoll_ctl = sim_epoll_ctl,
     sys_epoll_wait = (\<lambda>ep n timeout k.
        let evs = take n (sim_reported (sim_interest k ep) (sim_ready k)) in (int (length evs), evs, k\<lparr>sim_ready := []\<rparr>)),
     sys_time = (\<lambda>k. (0, k)),
     sys_socket = sim_fresh,
     sys_bind = (\<lambda>fd a k. (0, k)),
     sys_listen = (\<lambda>fd n k. (0, k)),
     sys_accept4 = (\<lambda>fd k. let (c, k') = sim_fresh k
        in (c, \<lparr>sin_family = 2, sin_port = 0, sin_addr = 0\<rparr>, k')),
     sys_getsockname = (\<lambda>fd k. (0, \<lparr>sin_family = 2, sin_port = 0, sin_addr = 0\<rparr>, k))\<rparr>"

lemma sim_readv_law: "readv_law sim_sys"
  by (auto simp: readv_law_def sim_sys_def sim_readv_def Let_def)

lemma sim_write_law: "write_law sim_sys"
  by (auto simp: write_law_def sim_sys_def sim_write_def wake_bytes_def Let_def split: if_splits)

lemma sim_epoll_ctl_law: "epoll_ctl_law sim_sys sim_interest"
  by (auto simp: epoll_ctl_law_def sim_sys_def sim_epoll_ctl_def Let_def)

lemma sim_eventfd_law: "eventfd_law sim_sys sim_event"
  by (auto simp: eventfd_law_def sim_sys_def sim_write_def Let_def split: if_splits)

lemma sim_stream_law: "stream_law sim_sys sim_sent"
  by (auto simp: stream_law_def sim_sys_def sim_write_def sim_readv_def sim_epoll_ctl_def wake_bytes_def Let_def
      split: if_splits ctl_op.splits)

definition sim_shutdown :: "ksim \<Rightarrow> int \<Rightarrow> bool" where
  "sim_shutdown k fd \<longleftrightarrow> fd \<in> set (sim_shut k)"

lemma sim_shutdown_law: "shutdown_law sim_sys sim_shutdown"
  by (auto simp: shutdown_law_def sim_sys_def sim_shutdown_def sim_write_def sim_epoll_ctl_def fun_eq_iff Let_def
      split: if_splits ctl_op.splits)

lemma sim_interest_frame: "interest_frame sim_sys sim_interest"
  by (auto simp: interest_frame_def sim_sys_def sim_write_def sim_readv_def sim_fresh_def Let_def)

lemma sim_socket_frame: "socket_frame sim_sys sim_interest"
  by (simp add: socket_frame_def sim_sys_def sim_fresh_def)

definition sim_used :: "ksim \<Rightarrow> int set" where
  "sim_used k = {fd. fd < int (sim_next k) \<and> fd \<notin> set (sim_closed k)}"

lemma sim_opens:
  assumes "sim_next k' = Suc (sim_next k)" and "sim_closed k' = removeAll (int (sim_next k)) (sim_closed k)"
  shows "opens sim_used k (int (sim_next k)) k'"
  using assms by (auto simp: opens_def sim_used_def)

lemma sim_same_used: "sim_next k' = sim_next k \<Longrightarrow> sim_closed k' = sim_closed k \<Longrightarrow> sim_used k' = sim_used k"
  by (simp add: sim_used_def)

lemma sim_still: "still sim_sys sim_used"
  unfolding still_def
  by (intro conjI allI; rule sim_same_used)
    (simp_all add: sim_sys_def sim_readv_def sim_write_def sim_epoll_ctl_def Let_def split: ctl_op.splits)

lemma sim_fd_law: "fd_law sim_sys sim_interest sim_used"
  unfolding fd_law_def
proof (intro conjI sim_still allI impI)
  fix k n k'
  assume r: "sys_epoll_create sim_sys k = (n, k')"
  show "opens sim_used k n k'"
    using r by (auto simp: sim_sys_def sim_fresh_def intro!: sim_opens)
  show "sim_interest k' = (if 0 \<le> n then (sim_interest k)(n := Map.empty) else sim_interest k)"
    using r by (auto simp: sim_sys_def sim_fresh_def)
qed (auto simp: sim_sys_def sim_fresh_def sim_used_def Let_def intro!: sim_opens)

lemma sim_close_law: "close_law sim_sys sim_interest"
  by (simp add: close_law_def sim_sys_def)

lemma sim_reported_watched: "(ev, fp) \<in> set (sim_reported m rs) \<Longrightarrow> \<exists>fd e. m fd = Some (e, fp)"
  by (induction m rs rule: sim_reported.induct) (auto split: option.splits)

lemma sim_wait_law: "wait_law sim_sys sim_interest"
  by (auto simp: wait_law_def sim_sys_def Let_def dest!: in_set_takeD sim_reported_watched)

lemmas sim_laws = sim_readv_law sim_write_law sim_epoll_ctl_law sim_eventfd_law

end
