(* ===== verification/Filed.thy ===== *)
theory Filed
  imports Kernel
begin

text \<open>
  \<open>Filed\<close> (\<open>include/Filed.h\<close>, \<open>src/Filed.cpp\<close>): one descriptor, the events it asks for, the events the
  poller reported, its state in the poller and its four callbacks. Here are the record, the event masks
  and the dispatch of reported events; the operations that go through the loop's poller
  (\<open>enableReading\<close> and the others) are in \<open>EventLoop\<close>.
\<close>

section \<open>State\<close>

text \<open>The objects a callback is bound to, by the \<open>std::bind\<close> that makes it.\<close>

datatype handler =
    HWakeupRead nat   \<comment> \<open>\<open>EventLoop::handelwakeupRead\<close> of a loop\<close>
  | HAcceptRead       \<comment> \<open>\<open>Acceptor::handleRead\<close>\<close>
  | HConnRead nat     \<comment> \<open>\<open>Connection::handleRead\<close> of a connection\<close>
  | HConnWrite nat
  | HConnClose nat
  | HConnError nat

record filed =
  filed_loop :: nat
  filed_fd :: int
  events :: u32
  revents :: u32
  index :: int
  tie_obj :: "nat option"
  tied :: bool
  readCallback :: "handler option"
  writeCallback :: "handler option"
  closeCallback :: "handler option"
  errorCallback :: "handler option"

definition EPOLLIN :: u32 where "EPOLLIN = 1"
definition EPOLLPRI :: u32 where "EPOLLPRI = 2"
definition EPOLLOUT :: u32 where "EPOLLOUT = 4"
definition EPOLLERR :: u32 where "EPOLLERR = 8"
definition EPOLLHUP :: u32 where "EPOLLHUP = 16"

definition kNoneEvent :: u32 where "kNoneEvent = 0"
definition kReadEvent :: u32 where "kReadEvent = EPOLLIN OR EPOLLPRI"
definition kWriteEvent :: u32 where "kWriteEvent = EPOLLOUT"

definition mkFiled :: "nat \<Rightarrow> int \<Rightarrow> filed" where
  "mkFiled loop fd =
     \<lparr>filed_loop = loop, filed_fd = fd, events = 0, revents = 0, index = - 1,
      tie_obj = None, tied = False, readCallback = None, writeCallback = None,
      closeCallback = None, errorCallback = None\<rparr>"

section \<open>Observers and setters\<close>

definition isNoneEvent :: "filed \<Rightarrow> bool" where
  "isNoneEvent f \<longleftrightarrow> events f = kNoneEvent"

definition isWriting :: "filed \<Rightarrow> bool" where
  "isWriting f \<longleftrightarrow> events f AND kWriteEvent \<noteq> 0"

definition isReading :: "filed \<Rightarrow> bool" where
  "isReading f \<longleftrightarrow> events f AND kReadEvent \<noteq> 0"

definition setRevents :: "u32 \<Rightarrow> filed \<Rightarrow> filed" where
  "setRevents r f = f\<lparr>revents := r\<rparr>"

definition setIndex :: "int \<Rightarrow> filed \<Rightarrow> filed" where
  "setIndex i f = f\<lparr>index := i\<rparr>"

definition tie :: "nat \<Rightarrow> filed \<Rightarrow> filed" where
  "tie obj f = f\<lparr>tie_obj := Some obj, tied := True\<rparr>"

definition setReadCallback :: "handler \<Rightarrow> filed \<Rightarrow> filed" where
  "setReadCallback cb f = f\<lparr>readCallback := Some cb\<rparr>"

definition setWriteCallback :: "handler \<Rightarrow> filed \<Rightarrow> filed" where
  "setWriteCallback cb f = f\<lparr>writeCallback := Some cb\<rparr>"

definition setCloseCallback :: "handler \<Rightarrow> filed \<Rightarrow> filed" where
  "setCloseCallback cb f = f\<lparr>closeCallback := Some cb\<rparr>"

definition setErrorCallback :: "handler \<Rightarrow> filed \<Rightarrow> filed" where
  "setErrorCallback cb f = f\<lparr>errorCallback := Some cb\<rparr>"

text \<open>The masks that \<open>enableReading\<close>, \<open>disableReading\<close> and their kin compute.\<close>

definition mask_enableReading :: "u32 \<Rightarrow> u32" where "mask_enableReading e = e OR kReadEvent"
definition mask_disableReading :: "u32 \<Rightarrow> u32" where "mask_disableReading e = e AND NOT kReadEvent"
definition mask_enableWriting :: "u32 \<Rightarrow> u32" where "mask_enableWriting e = e OR kWriteEvent"
definition mask_disableWriting :: "u32 \<Rightarrow> u32" where "mask_disableWriting e = e AND NOT kWriteEvent"

lemmas mask_defs = mask_enableReading_def mask_disableReading_def mask_enableWriting_def
  mask_disableWriting_def kNoneEvent_def kReadEvent_def kWriteEvent_def
  EPOLLIN_def EPOLLPRI_def EPOLLOUT_def EPOLLERR_def EPOLLHUP_def

definition writing_mask :: "u32 \<Rightarrow> bool" where "writing_mask e \<longleftrightarrow> e AND kWriteEvent \<noteq> 0"
definition reading_mask :: "u32 \<Rightarrow> bool" where "reading_mask e \<longleftrightarrow> e AND kReadEvent \<noteq> 0"

lemma isWriting_mask: "isWriting f \<longleftrightarrow> writing_mask (events f)"
  by (simp add: isWriting_def writing_mask_def)

lemma isReading_mask: "isReading f \<longleftrightarrow> reading_mask (events f)"
  by (simp add: isReading_def reading_mask_def)

lemma u32_eq_zero_iff: "x = 0 \<longleftrightarrow> (\<forall>n. \<not> bit x n)" for x :: u32
  by (rule iffI) (simp, rule bit_word_eqI, simp)

lemma kWriteEvent_bit: "bit kWriteEvent n \<longleftrightarrow> n = 2"
  using bit_exp_iff [of 2 n, where 'a = "32 word"] by (auto simp: kWriteEvent_def EPOLLOUT_def)

lemma kReadEvent_bit: "bit kReadEvent n \<longleftrightarrow> n = 0 \<or> n = 1"
proof -
  have "kReadEvent = 1 OR 2 ^ 1" by (simp only: kReadEvent_def EPOLLIN_def EPOLLPRI_def power_one_right)
  then have "bit kReadEvent n \<longleftrightarrow> bit (1 OR 2 ^ 1 :: u32) n" by (rule arg_cong)
  also have "\<dots> \<longleftrightarrow> bit (1 :: u32) n \<or> bit (2 ^ 1 :: u32) n" by (rule bit_or_iff)
  finally have "bit kReadEvent n \<longleftrightarrow> bit (1 :: u32) n \<or> bit (2 ^ 1 :: u32) n" .
  then show ?thesis
    using bit_exp_iff [of 1 n, where 'a = "32 word"] by (auto simp: bit_1_iff)
qed

lemma writing_mask_bit: "writing_mask e \<longleftrightarrow> bit e 2"
proof -
  have "e AND kWriteEvent = 0 \<longleftrightarrow> \<not> bit e 2"
    using u32_eq_zero_iff [of "e AND kWriteEvent"] by (auto simp: bit_and_iff kWriteEvent_bit)
  then show ?thesis by (simp add: writing_mask_def)
qed

lemma reading_mask_bit: "reading_mask e \<longleftrightarrow> bit e 0 \<or> bit e 1"
proof -
  have "e AND kReadEvent = 0 \<longleftrightarrow> \<not> bit e 0 \<and> \<not> bit e 1"
    using u32_eq_zero_iff [of "e AND kReadEvent"] by (auto simp: bit_and_iff kReadEvent_bit)
  then show ?thesis by (simp add: reading_mask_def)
qed

lemma mask_test:
  "writing_mask (mask_enableWriting e)" "\<not> writing_mask (mask_disableWriting e)"
  "writing_mask (mask_enableReading e) = writing_mask e"
  "writing_mask (mask_disableReading e) = writing_mask e"
  "reading_mask (mask_enableReading e)" "\<not> reading_mask (mask_disableReading e)"
  "reading_mask (mask_enableWriting e) = reading_mask e"
  "reading_mask (mask_disableWriting e) = reading_mask e"
  "\<not> writing_mask kNoneEvent" "\<not> reading_mask kNoneEvent"
  by (simp_all add: writing_mask_bit reading_mask_bit mask_enableReading_def mask_disableReading_def
      mask_enableWriting_def mask_disableWriting_def kNoneEvent_def bit_or_iff bit_and_iff
      bit_not_iff kWriteEvent_bit kReadEvent_bit)

section \<open>Dispatching the reported events\<close>

text \<open>
  \<open>handleEvent\<close> runs in a world \<open>'w\<close> in which it can look its own object up (\<open>getf\<close>, \<open>None\<close> when it has been
  destroyed); \<open>run\<close> executes a callback with the receive time, \<open>alive\<close> says whether the object behind \<open>tie_\<close> still
  exists, which is when \<open>lock()\<close> gives a non-null pointer. The four callbacks are copied at the start; the tests on
  \<open>revents_\<close> and on the members read the object again before each call.
\<close>

definition call_copied :: "(handler \<Rightarrow> 'w \<Rightarrow> fault + 'w) \<Rightarrow> handler option \<Rightarrow> 'w \<Rightarrow> fault + 'w" where
  "call_copied run cb w = (case cb of None \<Rightarrow> Inl BadFunctionCall | Some h \<Rightarrow> run h w)"

definition use_filed :: "('w \<Rightarrow> filed option) \<Rightarrow> 'w \<Rightarrow> (filed \<Rightarrow> fault + 'w) \<Rightarrow> fault + 'w" where
  "use_filed getf w k = (case getf w of None \<Rightarrow> Inl UseAfterFree | Some f \<Rightarrow> k f)"

definition handleEvent_callbacks ::
  "('w \<Rightarrow> filed option) \<Rightarrow> (handler \<Rightarrow> 'w \<Rightarrow> fault + 'w) \<Rightarrow> 'w \<Rightarrow> fault + 'w" where
  "handleEvent_callbacks getf run w0 = use_filed getf w0 (\<lambda>c.
      bindE (if revents c AND EPOLLHUP \<noteq> 0
             then if revents c AND (EPOLLHUP OR EPOLLIN) = EPOLLHUP \<and> closeCallback c \<noteq> None
                  then call_copied run (closeCallback c) w0 else Inr w0
             else Inr w0) (\<lambda>w1. use_filed getf w1 (\<lambda>f.
      bindE (if revents f AND EPOLLERR \<noteq> 0 \<and> errorCallback f \<noteq> None
             then call_copied run (errorCallback c) w1 else Inr w1) (\<lambda>w2. use_filed getf w2 (\<lambda>f.
      bindE (if revents f AND (EPOLLIN OR EPOLLPRI) \<noteq> 0 \<and> readCallback f \<noteq> None
             then call_copied run (readCallback c) w2 else Inr w2) (\<lambda>w3. use_filed getf w3 (\<lambda>f.
      if revents f AND EPOLLOUT \<noteq> 0 \<and> writeCallback f \<noteq> None
      then call_copied run (writeCallback c) w3 else Inr w3)))))))"

definition tie_locks :: "(nat \<Rightarrow> bool) \<Rightarrow> filed \<Rightarrow> bool" where
  "tie_locks alive f = (case tie_obj f of None \<Rightarrow> False | Some obj \<Rightarrow> alive obj)"

definition handleEvent ::
  "('w \<Rightarrow> filed option) \<Rightarrow> ('w \<Rightarrow> nat \<Rightarrow> bool) \<Rightarrow> (handler \<Rightarrow> 'w \<Rightarrow> fault + 'w) \<Rightarrow> 'w \<Rightarrow> fault + 'w" where
  "handleEvent getf alive run w = use_filed getf w (\<lambda>f.
     if tied f
     then if tie_locks (alive w) f then handleEvent_callbacks getf run w else Inr w
     else handleEvent_callbacks getf run w)"

text \<open>
  The specification: which callbacks the reported events ask for, in the order close, error, read,
  write. Close is asked for only on a hang-up without readable data.
\<close>

definition asked :: "bool \<Rightarrow> handler option \<Rightarrow> handler list" where
  "asked c cb = (if c then case cb of None \<Rightarrow> [] | Some h \<Rightarrow> [h] else [])"

definition dispatch_list :: "filed \<Rightarrow> handler list" where
  "dispatch_list f =
     asked (revents f AND EPOLLHUP \<noteq> 0 \<and> revents f AND EPOLLIN = 0) (closeCallback f) @
     asked (revents f AND EPOLLERR \<noteq> 0) (errorCallback f) @
     asked (revents f AND (EPOLLIN OR EPOLLPRI) \<noteq> 0) (readCallback f) @
     asked (revents f AND EPOLLOUT \<noteq> 0) (writeCallback f)"

lemma hup_without_in:
  "r AND (EPOLLHUP OR EPOLLIN) = EPOLLHUP \<longleftrightarrow> r AND EPOLLHUP \<noteq> 0 \<and> r AND EPOLLIN = 0"
proof -
  have masks: "bit EPOLLHUP n \<longleftrightarrow> n = 4" "bit EPOLLIN n \<longleftrightarrow> n = 0" for n
    using bit_exp_iff [of 4 n, where 'a = "32 word"] bit_exp_iff [of 0 n, where 'a = "32 word"]
    by (auto simp: EPOLLHUP_def EPOLLIN_def)
  have zero: "r AND EPOLLHUP = 0 \<longleftrightarrow> \<not> bit r 4" "r AND EPOLLIN = 0 \<longleftrightarrow> \<not> bit r 0"
    using u32_eq_zero_iff [of "r AND EPOLLHUP"] u32_eq_zero_iff [of "r AND EPOLLIN"]
    by (auto simp: bit_and_iff masks)
  have "r AND (EPOLLHUP OR EPOLLIN) = EPOLLHUP \<longleftrightarrow> bit r 4 \<and> \<not> bit r 0"
  proof
    assume eq: "r AND (EPOLLHUP OR EPOLLIN) = EPOLLHUP"
    have "bit (r AND (EPOLLHUP OR EPOLLIN)) n \<longleftrightarrow> n = 4" for n
      by (simp add: eq masks)
    from this [of 4] this [of 0] show "bit r 4 \<and> \<not> bit r 0"
      by (simp add: bit_and_iff bit_or_iff masks)
  next
    assume "bit r 4 \<and> \<not> bit r 0"
    then show "r AND (EPOLLHUP OR EPOLLIN) = EPOLLHUP"
      by (intro bit_word_eqI) (auto simp: bit_and_iff bit_or_iff masks)
  qed
  with zero show ?thesis by simp
qed

text \<open>
  What the dispatch relies on: no callback touches the reported events or the callback members of the
  object being dispatched, or its constant descriptor and loop. Then the run is the specification's list, run in order up to the first fault.
\<close>

definition same_callbacks :: "filed \<Rightarrow> filed \<Rightarrow> bool" where
  "same_callbacks f f' \<longleftrightarrow> revents f' = revents f \<and> closeCallback f' = closeCallback f \<and>
     errorCallback f' = errorCallback f \<and> readCallback f' = readCallback f \<and>
     writeCallback f' = writeCallback f \<and> filed_fd f' = filed_fd f \<and> filed_loop f' = filed_loop f"

lemma same_callbacks_refl [simp]: "same_callbacks f f"
  by (simp add: same_callbacks_def)

lemma same_callbacks_trans: "same_callbacks f g \<Longrightarrow> same_callbacks g h \<Longrightarrow> same_callbacks f h"
  by (simp add: same_callbacks_def)

locale event_source =
  fixes inv :: "'w \<Rightarrow> bool"
    and getf :: "'w \<Rightarrow> filed option"
    and run :: "handler \<Rightarrow> 'w \<Rightarrow> fault + 'w"
  assumes present: "inv w \<Longrightarrow> getf w \<noteq> None"
    and run_inv: "inv w \<Longrightarrow> run h w = Inr w' \<Longrightarrow> inv w'"
    and run_keeps: "inv w \<Longrightarrow> run h w = Inr w' \<Longrightarrow> same_callbacks (the (getf w)) (the (getf w'))"
begin

lemma stage:
  assumes inv: "inv w" and same: "same_callbacks f0 (the (getf w))" and g: "g = (c \<and> cb \<noteq> None)"
    and rest: "\<And>w'. inv w' \<Longrightarrow> same_callbacks f0 (the (getf w')) \<Longrightarrow> rest w' = runE run hs w'"
  shows "bindE (if g then call_copied run cb w else Inr w) rest = runE run (asked c cb @ hs) w"
proof (cases "c \<and> cb \<noteq> None")
  case False
  with g rest [OF inv same] show ?thesis by (auto simp: asked_def)
next
  case True
  then obtain h where h: "cb = Some h" by auto
  show ?thesis
  proof (cases "run h w")
    case (Inl e)
    with True h g show ?thesis by (simp add: asked_def call_copied_def)
  next
    case (Inr w')
    with run_keeps [OF inv this] same have "same_callbacks f0 (the (getf w'))"
      by (blast intro: same_callbacks_trans)
    with True h g Inr rest run_inv [OF inv Inr] show ?thesis by (simp add: asked_def call_copied_def)
  qed
qed

lemma used: "inv w \<Longrightarrow> use_filed getf w k = k (the (getf w))"
  using present [of w] by (auto simp: use_filed_def)

lemma last_stage:
  "inv w \<Longrightarrow> same_callbacks f0 (the (getf w)) \<Longrightarrow> g = (c \<and> cb \<noteq> None) \<Longrightarrow>
     (if g then call_copied run cb w else Inr w) = runE run (asked c cb) w"
  using stage [of w f0 g c cb Inr "[]"] by simp

lemma callbacks_eq: "inv w \<Longrightarrow> handleEvent_callbacks getf run w = runE run (dispatch_list (the (getf w))) w"
  unfolding handleEvent_callbacks_def dispatch_list_def if_if_conj
  apply (subst used, assumption)
  apply (rule stage [OF _ same_callbacks_refl], assumption, simp add: hup_without_in conj_ac)
  apply (subst used, assumption, rule stage, assumption, assumption, simp add: same_callbacks_def)
  apply (subst used, assumption, rule stage, assumption, assumption, simp add: same_callbacks_def)
  apply (subst used, assumption, rule last_stage, assumption, assumption, simp add: same_callbacks_def)
  done

lemma handleEvent_eq:
  "inv w \<Longrightarrow> handleEvent getf alive run w =
     (if tied (the (getf w)) \<and> \<not> tie_locks (alive w) (the (getf w)) then Inr w
      else runE run (dispatch_list (the (getf w))) w)"
  by (simp add: handleEvent_def used callbacks_eq)

end

end
