(* ===== verification/Printf.thy ===== *)
theory Printf
  imports Prelude
begin

text \<open>
  What the code uses of \<open>snprintf\<close> and of C strings: decimal conversions, padding, truncation at the size of
  the buffer and the terminating null. Decimal printing is injective, which the names of connections rest on.
\<close>

section \<open>Decimal numbers\<close>

definition digit :: "nat \<Rightarrow> char" where
  "digit d = char_of (48 + d)"

definition is_digit :: "char \<Rightarrow> bool" where
  "is_digit c \<longleftrightarrow> 48 \<le> (of_char c :: nat) \<and> (of_char c :: nat) < 58"

fun dec :: "nat \<Rightarrow> string" where
  "dec n = (if n < 10 then [digit n] else dec (n div 10) @ [digit (n mod 10)])"

declare dec.simps [simp del]

definition undec :: "string \<Rightarrow> nat" where
  "undec s = foldl (\<lambda>n c. 10 * n + (of_char c - 48)) 0 s"

lemma of_char_digit: "d < 10 \<Longrightarrow> of_char (digit d) = 48 + d"
  by (simp add: digit_def)

lemma is_digit_digit: "d < 10 \<Longrightarrow> is_digit (digit d)"
  by (simp add: is_digit_def of_char_digit)

lemma undec_dec: "undec (dec n) = n"
proof (induction n rule: dec.induct)
  case (1 n)
  show ?case
  proof (cases "n < 10")
    case True
    then show ?thesis by (subst dec.simps) (simp add: undec_def of_char_digit)
  next
    case False
    with 1 have "undec (dec (n div 10)) = n div 10" by simp
    with False show ?thesis by (subst dec.simps) (simp add: undec_def of_char_digit)
  qed
qed

lemma dec_inject [simp]: "dec m = dec n \<longleftrightarrow> m = n"
  by (metis undec_dec)

lemma dec_digits: "list_all is_digit (dec n)"
proof (induction n rule: dec.induct)
  case (1 n)
  then show ?case
    by (subst dec.simps) (auto simp: is_digit_digit)
qed

lemma dec_not_Nil [simp]: "dec n \<noteq> []"
  by (subst dec.simps) simp

lemma length_dec: "n < 10 ^ Suc k \<Longrightarrow> length (dec n) \<le> Suc k"
proof (induction k arbitrary: n)
  case 0
  then show ?case by (subst dec.simps) simp
next
  case (Suc k)
  show ?case
  proof (cases "n < 10")
    case True
    then show ?thesis by (subst dec.simps) simp
  next
    case False
    have "n div 10 < 10 ^ Suc k" using Suc.prems by (simp add: div_less_iff_less_mult mult.commute)
    with Suc.IH False show ?thesis by (subst dec.simps) simp
  qed
qed

text \<open>A run of digits ends at the first other character, so what follows it can be split off uniquely.\<close>

lemma digits_split:
  assumes "list_all is_digit xs" and "list_all is_digit ys" and "\<not> is_digit c"
    and "xs @ c # us = ys @ c # vs"
  shows "xs = ys \<and> us = vs"
  using assms
proof (induction xs arbitrary: ys)
  case Nil
  then show ?case by (cases ys) auto
next
  case (Cons x xs)
  then show ?case by (cases ys) auto
qed

section \<open>Conversions\<close>

text \<open>\<open>%d\<close>, \<open>%0wd\<close> and \<open>%wd\<close> of an \<open>int\<close>; \<open>%u\<close> of an unsigned number is \<open>dec\<close>.\<close>

definition fmt_d :: "int \<Rightarrow> string" where
  "fmt_d i = (if i < 0 then CHR ''-'' # dec (nat (- i)) else dec (nat i))"

definition fmt_0d :: "nat \<Rightarrow> int \<Rightarrow> string" where
  "fmt_0d w i =
     (if i < 0 then CHR ''-'' # replicate (w - 1 - length (dec (nat (- i)))) (CHR ''0'') @ dec (nat (- i))
      else replicate (w - length (dec (nat i))) (CHR ''0'') @ dec (nat i))"

definition fmt_wd :: "nat \<Rightarrow> int \<Rightarrow> string" where
  "fmt_wd w i = replicate (w - length (fmt_d i)) (CHR '' '') @ fmt_d i"

text \<open>A C string ends at its first null; \<open>snprintf\<close> of size \<open>n\<close> stores at most \<open>n - 1\<close> characters.\<close>

definition c_str :: "string \<Rightarrow> string" where
  "c_str s = takeWhile (\<lambda>c. c \<noteq> CHR 0x00) s"

definition snprintf :: "nat \<Rightarrow> string \<Rightarrow> string" where
  "snprintf n s = take (n - 1) s"

lemma digit_not_special:
  "\<not> is_digit (CHR ''-'')" "\<not> is_digit (CHR ''.'')" "\<not> is_digit (CHR '':'')" "\<not> is_digit (CHR ''#'')"
  "\<not> is_digit (CHR ''/'')" "\<not> is_digit (CHR '' '')" "\<not> is_digit (CHR 0x00)"
  by (simp_all add: is_digit_def)

lemma fmt_d_inject [simp]: "fmt_d i = fmt_d j \<longleftrightarrow> i = j"
proof
  have hd: "dec n \<noteq> CHR ''-'' # s" for n s
    using dec_digits [of n] digit_not_special(1) by auto
  assume "fmt_d i = fmt_d j"
  then show "i = j"
    using hd hd [symmetric] by (auto simp: fmt_d_def split: if_splits)
qed simp

lemma length_fmt_d:
  assumes "- (2 ^ 31) \<le> i" and "i < 2 ^ 31"
  shows "length (fmt_d i) \<le> 11"
proof -
  have len: "length (dec n) \<le> 10" if "n \<le> 2147483648" for n
    using length_dec [of n 9] that by simp
  have "nat (- i) \<le> 2147483648" "nat i \<le> 2147483648" using assms by simp_all
  from len [OF this(1)] len [OF this(2)] show ?thesis by (simp add: fmt_d_def)
qed

lemma c_str_no_null: "CHR 0x00 \<notin> set s \<Longrightarrow> c_str s = s"
  by (auto simp: c_str_def takeWhile_eq_all_conv)

lemma dec_no_null: "CHR 0x00 \<notin> set (dec n)"
  using dec_digits [of n] digit_not_special(7) by (auto simp: list_all_iff)

lemma fmt_d_no_null: "CHR 0x00 \<notin> set (fmt_d i)"
  using dec_no_null by (simp add: fmt_d_def)

lemma c_str_no_null_set: "CHR 0x00 \<notin> set (c_str s)"
  by (auto simp: c_str_def dest: set_takeWhileD)

lemma fmt_d_not_Nil [simp]: "fmt_d i \<noteq> []"
  by (simp add: fmt_d_def)

lemma length_c_str: "length (c_str s) \<le> length s"
  by (simp add: c_str_def length_takeWhile_le)

lemma snprintf_fits: "length s < n \<Longrightarrow> snprintf n s = s"
  by (simp add: snprintf_def)

end
