(* ===== verification/LuckyLog.thy ===== *)
theory LuckyLog
  imports Kernel Printf
begin

text \<open>
  \<open>LuckyLog\<close> (\<open>include/LuckyLog.h\<close>, \<open>src/LuckyLog.cpp\<close>) and \<open>TimeStamp\<close> (\<open>include/TimeStamp.h\<close>,
  \<open>src/TimeStamp.cpp\<close>): the text of a log line. The other theories only record which error and fatal lines are
  logged; here is what one call of a logging macro prints.
\<close>

section \<open>Time stamps\<close>

record timestamp =
  sysSecond :: int

definition TimeStamp_default :: timestamp where
  "TimeStamp_default = \<lparr>sysSecond = 0\<rparr>"

definition getNowTime :: "'k sys \<Rightarrow> 'k \<Rightarrow> timestamp \<times> 'k" where
  "getNowTime S k = (let (t, k') = sys_time S k in (\<lparr>sysSecond = t\<rparr>, k'))"

text \<open>The members of \<open>struct tm\<close> the code reads; \<open>localtime\<close>, which depends on the time zone, is a parameter.\<close>

record tm =
  tm_min :: int
  tm_hour :: int
  tm_mday :: int
  tm_mon :: int
  tm_year :: int

definition TimeStamp_toString :: "(int \<Rightarrow> tm) \<Rightarrow> timestamp \<Rightarrow> string" where
  "TimeStamp_toString localtime ts =
     (let time = localtime (sysSecond ts)
      in snprintf 128 (fmt_wd 3 (tm_year time - 100) @ CHR ''/'' # fmt_0d 2 (tm_mon time + 1) @ CHR ''/'' #
           fmt_0d 2 (tm_mday time) @ CHR '' '' # fmt_0d 2 (tm_hour time) @ CHR '':'' # fmt_0d 2 (tm_min time)))"

section \<open>The logger\<close>

datatype log_level = INFOM | ERROR | FATAL | DEBUG

fun level_code :: "log_level \<Rightarrow> int" where
  "level_code INFOM = 0"
| "level_code ERROR = 1"
| "level_code FATAL = 2"
| "level_code DEBUG = 3"

text \<open>The singleton: its level, and what has been written to the standard output.\<close>

record luckylog =
  loglevel :: int
  stdout :: string

definition headers :: "string list" where
  "headers = [''[INFOM]'', ''[ERROR]'', ''[FATAL]'', ''[DEBUG]'']"

definition setLogLevel :: "int \<Rightarrow> luckylog \<Rightarrow> luckylog" where
  "setLogLevel lv g = g\<lparr>loglevel := lv\<rparr>"

definition writeLog :: "(int \<Rightarrow> tm) \<Rightarrow> timestamp \<Rightarrow> string \<Rightarrow> luckylog \<Rightarrow> fault + luckylog" where
  "writeLog localtime now msg g =
     (if 0 \<le> loglevel g \<and> nat (loglevel g) < length headers
      then Inr (g\<lparr>stdout := stdout g @ (headers ! nat (loglevel g) @ TimeStamp_toString localtime now) @ '': '' @ msg @ [CHR 0x0A]\<rparr>)
      else Inl OutOfBounds)"

text \<open>
  A logging macro, for a message that \<open>printf\<close> would format to \<open>msg\<close>; the flag says that the process exits.
  \<open>LOG_DEBUG\<close> is empty unless \<open>MUDEBUG\<close> is defined, which the build does not do.
\<close>

definition LOG :: "(int \<Rightarrow> tm) \<Rightarrow> timestamp \<Rightarrow> log_level \<Rightarrow> string \<Rightarrow> luckylog \<Rightarrow> fault + luckylog \<times> bool" where
  "LOG localtime now lv msg g =
     (if lv = DEBUG then Inr (g, False)
      else bindE (writeLog localtime now (c_str (snprintf 1024 msg)) (setLogLevel (level_code lv) g))
             (\<lambda>g. Inr (g, lv = FATAL)))"

section \<open>Fixed width\<close>

lemma dec_two: "n < 100 \<Longrightarrow> length (dec n) \<le> 2"
  using length_dec [of n 1] by simp

lemma length_fmt_0d: "0 \<le> i \<Longrightarrow> i < 100 \<Longrightarrow> length (fmt_0d 2 i) = 2"
  using dec_two [of "nat i"] by (simp add: fmt_0d_def)

lemma undec_zeros: "undec (replicate k (CHR ''0'') @ s) = undec s"
proof (induction k)
  case 0
  then show ?case by simp
next
  case (Suc k)
  then show ?case by (simp add: undec_def)
qed

lemma fmt_0d_inject: "0 \<le> i \<Longrightarrow> 0 \<le> j \<Longrightarrow> fmt_0d 2 i = fmt_0d 2 j \<longleftrightarrow> i = j"
  using undec_zeros [of _ "dec (nat i)"] undec_zeros [of _ "dec (nat j)"]
  by (auto simp: fmt_0d_def undec_dec) (metis eq_nat_nat_iff undec_dec)

lemma length_fmt_wd: "- 100 < i \<Longrightarrow> i < 1000 \<Longrightarrow> length (fmt_wd 3 i) = 3"
proof -
  assume i: "- 100 < i" "i < 1000"
  have "length (dec (nat i)) \<le> 3" using i length_dec [of "nat i" 2] by simp
  moreover have "length (dec (nat (- i))) \<le> 2" if "i < 0" using i that by (intro dec_two) simp
  ultimately show "length (fmt_wd 3 i) = 3" by (auto simp: fmt_wd_def fmt_d_def)
qed

lemma fmt_wd_inject: "fmt_wd w i = fmt_wd w j \<longleftrightarrow> i = j"
proof
  have strip: "dropWhile (\<lambda>c. c = CHR '' '') (fmt_wd w i) = fmt_d i" for i
  proof -
    have "hd (dec n) \<noteq> CHR '' ''" for n
      using dec_digits [of n] digit_not_special(6) hd_in_set [OF dec_not_Nil [of n]] by (metis list_all_iff)
    then have "hd (fmt_d i) \<noteq> CHR '' ''" "fmt_d i \<noteq> []"
      by (simp_all add: fmt_d_def)
    moreover have "dropWhile (\<lambda>c. c = CHR '' '') (replicate n (CHR '' '') @ u) = dropWhile (\<lambda>c. c = CHR '' '') u" for n u
      by (induction n) simp_all
    ultimately show ?thesis by (simp add: fmt_wd_def dropWhile_eq_self_iff)
  qed
  assume "fmt_wd w i = fmt_wd w j"
  then have "fmt_d i = fmt_d j" by (metis strip)
  then show "i = j" by simp
qed simp

text \<open>Every field in its calendar range, and a year from 1901 to 2999.\<close>

definition tm_ok :: "tm \<Rightarrow> bool" where
  "tm_ok t \<longleftrightarrow> 0 \<le> tm_min t \<and> tm_min t < 60 \<and> 0 \<le> tm_hour t \<and> tm_hour t < 24 \<and> 1 \<le> tm_mday t \<and> tm_mday t \<le> 31 \<and>
     0 \<le> tm_mon t \<and> tm_mon t < 12 \<and> 0 < tm_year t \<and> tm_year t < 1100"

text \<open>
  C39. A time stamp prints to exactly fifteen characters, so the 128-character buffer is never cut, and two times
  with the same text have the same year, month, day, hour and minute.
\<close>

theorem toString_fixed_width:
  assumes "tm_ok (localtime (sysSecond s))" and "tm_ok (localtime (sysSecond t))"
  shows "length (TimeStamp_toString localtime s) = 15 \<and>
    (TimeStamp_toString localtime s = TimeStamp_toString localtime t \<longleftrightarrow>
       localtime (sysSecond s) = localtime (sysSecond t))"
proof -
  let ?x = "localtime (sysSecond s)" and ?y = "localtime (sysSecond t)"
  have len: "length (fmt_wd 3 (tm_year z - 100)) = 3" "length (fmt_0d 2 (tm_mon z + 1)) = 2"
    "length (fmt_0d 2 (tm_mday z)) = 2" "length (fmt_0d 2 (tm_hour z)) = 2" "length (fmt_0d 2 (tm_min z)) = 2"
    if "tm_ok z" for z
    using that by (simp_all add: tm_ok_def length_fmt_wd length_fmt_0d)
  have eq: "?x = ?y" if "TimeStamp_toString localtime s = TimeStamp_toString localtime t"
  proof -
    have "tm_year ?x = tm_year ?y" "tm_mon ?x = tm_mon ?y" "tm_mday ?x = tm_mday ?y" "tm_hour ?x = tm_hour ?y"
      "tm_min ?x = tm_min ?y"
      using that len [OF assms(1)] len [OF assms(2)] assms
      by (simp_all add: TimeStamp_toString_def snprintf_fits Let_def fmt_wd_inject fmt_0d_inject tm_ok_def)
    then show ?thesis by simp
  qed
  moreover have "length (TimeStamp_toString localtime s) = 15"
    using len [OF assms(1)] by (simp add: TimeStamp_toString_def snprintf_fits Let_def)
  moreover have "TimeStamp_toString localtime s = TimeStamp_toString localtime t" if "?x = ?y"
    using that by (simp add: TimeStamp_toString_def)
  ultimately show ?thesis by blast
qed

theorem toString_fixed_width_witness:
  "length (TimeStamp_toString (\<lambda>s. \<lparr>tm_min = 5, tm_hour = 9, tm_mday = 1, tm_mon = 0, tm_year = 124\<rparr>) TimeStamp_default) = 15"
  using toString_fixed_width [of "\<lambda>s. \<lparr>tm_min = 5, tm_hour = 9, tm_mday = 1, tm_mon = 0, tm_year = 124\<rparr>"
      TimeStamp_default TimeStamp_default]
  by (simp add: tm_ok_def)

text \<open>
  The level is a member of the one shared logger, set and read without a lock: when another thread's macro
  runs between \<open>setLogLevel\<close> and \<open>writeLog\<close>, the line of the first carries the header of the second.
\<close>

theorem log_header_race:
  assumes "lv \<noteq> DEBUG"
  shows "\<exists>g1 g2. LOG localtime now lv other (setLogLevel (level_code ERROR) g) = Inr (g1, lv = FATAL) \<and>
    writeLog localtime now msg g1 = Inr g2 \<and>
    stdout g2 = stdout g1 @ headers ! nat (level_code lv) @ TimeStamp_toString localtime now @ '': '' @ msg @ [CHR 0x0A]"
  using assms by (cases lv) (simp_all add: LOG_def writeLog_def setLogLevel_def headers_def)

theorem log_header_race_witness:
  "\<exists>g1 g2. LOG (\<lambda>s. \<lparr>tm_min = 5, tm_hour = 9, tm_mday = 1, tm_mon = 0, tm_year = 124\<rparr>) TimeStamp_default INFOM ''b''
       (setLogLevel (level_code ERROR) \<lparr>loglevel = 0, stdout = []\<rparr>) = Inr (g1, False) \<and>
     writeLog (\<lambda>s. \<lparr>tm_min = 5, tm_hour = 9, tm_mday = 1, tm_mon = 0, tm_year = 124\<rparr>) TimeStamp_default ''a'' g1 = Inr g2 \<and>
     take 7 (drop (length (stdout g1)) (stdout g2)) = ''[INFOM]''"
  using log_header_race [of INFOM "\<lambda>s. \<lparr>tm_min = 5, tm_hour = 9, tm_mday = 1, tm_mon = 0, tm_year = 124\<rparr>"
      TimeStamp_default "''b''" "\<lparr>loglevel = 0, stdout = []\<rparr>" "''a''"]
  by (auto simp: headers_def)

end
