(* ===== verification/Epoller.thy ===== *)
theory Epoller
  imports Filed LuckyLog
begin

text \<open>
  \<open>Epoller\<close> (\<open>include/Epoller.h\<close>, \<open>src/Epoller.cpp\<close>): the poller of one event loop. Its map from
  descriptors to \<open>Filed\<close> objects, the state each \<open>Filed\<close> carries in \<open>index_\<close> and the kernel's interest
  list describe the same thing three times; the theorems say when they agree.
\<close>

section \<open>State\<close>

definition kNew :: int where "kNew = - 1"
definition kAdded :: int where "kAdded = 1"
definition kDeleted :: int where "kDeleted = 2"
definition kEventListSize :: nat where "kEventListSize = 16"

record epoller =
  eventList :: "epoll_event list"
  fileds :: "int \<Rightarrow> nat option"
  epollfd :: int
  ownerLoop :: nat

text \<open>
  The part of the process the poller works on: the kernel, the error and fatal lines logged so far
  (level and format string), the \<open>Filed\<close> objects by address and, by the address of its loop, each loop's
  poller. Later components extend this record.
\<close>

record 'k machine =
  kern :: 'k
  logs :: "(log_level \<times> string) list"
  filedOf :: "nat \<Rightarrow> filed"
  epollerOf :: "nat \<Rightarrow> epoller"

definition log_line :: "log_level \<Rightarrow> string \<Rightarrow> ('k, 'z) machine_scheme \<Rightarrow> ('k, 'z) machine_scheme" where
  "log_line lv msg w = w\<lparr>logs := logs w @ [(lv, msg)]\<rparr>"

definition upd_filed :: "nat \<Rightarrow> (filed \<Rightarrow> filed) \<Rightarrow> ('k, 'z) machine_scheme \<Rightarrow> ('k, 'z) machine_scheme" where
  "upd_filed fp g w = w\<lparr>filedOf := (filedOf w)(fp := g (filedOf w fp))\<rparr>"

definition upd_epoller ::
  "nat \<Rightarrow> (epoller \<Rightarrow> epoller) \<Rightarrow> ('k, 'z) machine_scheme \<Rightarrow> ('k, 'z) machine_scheme" where
  "upd_epoller l g w = w\<lparr>epollerOf := (epollerOf w)(l := g (epollerOf w l))\<rparr>"

text \<open>
  The constructor: \<open>epoll_create1\<close>, which ends the process when it fails, and an event list of 16.
\<close>

definition mkEpoller ::
  "'k sys \<Rightarrow> nat \<Rightarrow> ('k, 'z) machine_scheme \<Rightarrow> fault + ('k, 'z) machine_scheme" where
  "mkEpoller S l w =
     (let (fd, k') = sys_epoll_create S (kern w) in
      if fd < 0 then Inl ExitFailure
      else Inr (upd_epoller l (\<lambda>_. \<lparr>eventList = replicate kEventListSize (0, 0), fileds = Map.empty,
             epollfd = fd, ownerLoop = l\<rparr>) (w\<lparr>kern := k'\<rparr>)))"

definition destroyEpoller :: "'k sys \<Rightarrow> nat \<Rightarrow> ('k, 'z) machine_scheme \<Rightarrow> ('k, 'z) machine_scheme" where
  "destroyEpoller S l w = w\<lparr>kern := sys_close S (epollfd (epollerOf w l)) (kern w)\<rparr>"

section \<open>Registration\<close>

definition hasFiled :: "nat \<Rightarrow> nat \<Rightarrow> ('k, 'z) machine_scheme \<Rightarrow> bool" where
  "hasFiled l fp w = (case fileds (epollerOf w l) (filed_fd (filedOf w fp)) of
     None \<Rightarrow> False | Some p \<Rightarrow> p = fp)"

definition updateHelper ::
  "'k sys \<Rightarrow> nat \<Rightarrow> ctl_op \<Rightarrow> nat \<Rightarrow> ('k, 'z) machine_scheme \<Rightarrow> fault + ('k, 'z) machine_scheme" where
  "updateHelper S l op fp w =
     (let f = filedOf w fp;
          (r, k') = sys_epoll_ctl S (epollfd (epollerOf w l)) op (filed_fd f) (events f, fp) (kern w);
          w' = w\<lparr>kern := k'\<rparr>
      in if r < 0
         then if op = EPOLL_CTL_DEL then Inr (log_line ERROR ''epoll_ctl del error:%d'' w')
              else Inl ExitFailure
         else Inr w')"

definition Epoller_update ::
  "'k sys \<Rightarrow> nat \<Rightarrow> nat \<Rightarrow> ('k, 'z) machine_scheme \<Rightarrow> fault + ('k, 'z) machine_scheme" where
  "Epoller_update S l fp w =
     (let idx = index (filedOf w fp); fd = filed_fd (filedOf w fp) in
      if idx = kNew \<or> idx = kDeleted
      then bindE (if idx = kNew
                  then Inr (upd_epoller l (\<lambda>e. e\<lparr>fileds := (fileds e)(fd \<mapsto> fp)\<rparr>) w)
                  else if fileds (epollerOf w l) fd = None then Inl AssertionFailure
                  else if fileds (epollerOf w l) fd \<noteq> Some fp then Inl AssertionFailure
                  else Inr w)
             (\<lambda>w. updateHelper S l EPOLL_CTL_ADD fp (upd_filed fp (setIndex kAdded) w))
      else if isNoneEvent (filedOf w fp)
      then bindE (updateHelper S l EPOLL_CTL_DEL fp w) (\<lambda>w. Inr (upd_filed fp (setIndex kDeleted) w))
      else updateHelper S l EPOLL_CTL_MOD fp w)"

definition Epoller_remove ::
  "'k sys \<Rightarrow> nat \<Rightarrow> nat \<Rightarrow> ('k, 'z) machine_scheme \<Rightarrow> fault + ('k, 'z) machine_scheme" where
  "Epoller_remove S l fp w =
     (let fd = filed_fd (filedOf w fp);
          w1 = upd_epoller l (\<lambda>e. e\<lparr>fileds := (fileds e)(fd := None)\<rparr>) w
      in bindE (if index (filedOf w1 fp) = kAdded then updateHelper S l EPOLL_CTL_DEL fp w1 else Inr w1)
           (\<lambda>w. Inr (upd_filed fp (setIndex kNew) w)))"

section \<open>Waiting\<close>

text \<open>
  \<open>fillActiveFileds\<close> walks the first \<open>n\<close> entries of the event list (\<open>n\<close> is a signed \<open>int\<close>: for a
  negative one the loop body never runs), stores each entry's events in its \<open>Filed\<close> and collects the
  \<open>Filed\<close>s. An entry past the end of the list would be read out of bounds.
\<close>

fun fill_from ::
  "nat \<Rightarrow> nat \<Rightarrow> epoll_event list \<Rightarrow> nat list \<Rightarrow> ('k, 'z) machine_scheme \<Rightarrow>
     fault + nat list \<times> ('k, 'z) machine_scheme" where
  "fill_from 0 i evs active w = Inr (active, w)"
| "fill_from (Suc m) i evs active w =
     (if i < length evs
      then case evs ! i of (ev, fp) \<Rightarrow>
        fill_from m (Suc i) evs (active @ [fp]) (upd_filed fp (setRevents ev) w)
      else Inl OutOfBounds)"

definition fillActiveFileds ::
  "nat \<Rightarrow> int \<Rightarrow> nat list \<Rightarrow> ('k, 'z) machine_scheme \<Rightarrow>
     fault + nat list \<times> ('k, 'z) machine_scheme" where
  "fillActiveFileds l events_num active w =
     fill_from (nat events_num) 0 (eventList (epollerOf w l)) active w"

text \<open>
  \<open>epoll\<close>: the count returned by \<open>epoll_wait\<close> is stored in a \<open>size_t\<close>, so an error, \<open>-1\<close>, becomes
  \<open>2 ^ 64 - 1\<close> and is converted back to \<open>int\<close> for \<open>fillActiveFileds\<close>.
\<close>

definition Epoller_epoll ::
  "'k sys \<Rightarrow> nat \<Rightarrow> int \<Rightarrow> nat list \<Rightarrow> ('k, 'z) machine_scheme \<Rightarrow>
     fault + int \<times> nat list \<times> ('k, 'z) machine_scheme" where
  "Epoller_epoll S l timeout active w =
     (let (r, evs, k1) = sys_epoll_wait S (epollfd (epollerOf w l))
            (length (eventList (epollerOf w l))) timeout (kern w);
          events_num = of_int r :: size_t;
          saveErrno = sys_errno S k1;
          (now, k2) = sys_time S k1;
          w = upd_epoller l (\<lambda>e. e\<lparr>eventList := overwrite 0 evs (eventList e)\<rparr>) (w\<lparr>kern := k2\<rparr>)
      in if events_num > 0
         then bindE (fillActiveFileds l (sint (ucast events_num :: 32 word)) active w) (\<lambda>(active, w).
              Inr (now, active,
                if events_num = of_nat (length (eventList (epollerOf w l))) - 1
                then upd_epoller l (\<lambda>e. e\<lparr>eventList := eventList e @
                       replicate (length (eventList e)) (0, 0)\<rparr>) w
                else w))
         else if events_num = 0
         then Inr (now, active, log_line ERROR ''%s timeout!'' w)
         else if saveErrno \<noteq> EINTR
         then Inr (now, active, log_line ERROR ''EPollPoller::poll() error!''
                (w\<lparr>kern := sys_set_errno S saveErrno (kern w)\<rparr>))
         else Inr (now, active, w))"

section \<open>Agreement of the three records\<close>

text \<open>
  \<open>filed_ok\<close>: the \<open>index_\<close> of a \<open>Filed\<close>, the poller's map and the kernel's interest list say the same of
  its descriptor. \<open>registry_inv\<close>: this holds of every live \<open>Filed\<close> of the loops \<open>L\<close>, two live \<open>Filed\<close>s of a
  loop never share a descriptor, and neither the map nor the interest list holds anything else.
\<close>

definition filed_ok :: "'k interest \<Rightarrow> ('k, 'z) machine_scheme \<Rightarrow> nat \<Rightarrow> bool" where
  "filed_ok itst w fp \<longleftrightarrow>
     (let f = filedOf w fp; e = epollerOf w (filed_loop f);
          ent = fileds e (filed_fd f); reg = itst (kern w) (epollfd e) (filed_fd f)
      in index f = kNew \<and> ent = None \<and> reg = None \<or>
         index f = kAdded \<and> ent = Some fp \<and> reg = Some (events f, fp) \<or>
         index f = kDeleted \<and> ent = Some fp \<and> reg = None)"

definition belongs :: "('k, 'z) machine_scheme \<Rightarrow> nat set \<Rightarrow> nat \<Rightarrow> int \<Rightarrow> nat \<Rightarrow> bool" where
  "belongs w live l fd fp \<longleftrightarrow>
     fp \<in> live \<and> filed_loop (filedOf w fp) = l \<and> filed_fd (filedOf w fp) = fd"

definition registry_inv ::
  "'k interest \<Rightarrow> nat set \<Rightarrow> nat set \<Rightarrow> ('k, 'z) machine_scheme \<Rightarrow> bool" where
  "registry_inv itst L live w \<longleftrightarrow>
     (\<forall>fp \<in> live. filed_loop (filedOf w fp) \<in> L \<and> filed_ok itst w fp) \<and>
     inj_on (\<lambda>l. epollfd (epollerOf w l)) L \<and>
     inj_on (\<lambda>fp. (filed_loop (filedOf w fp), filed_fd (filedOf w fp))) live \<and>
     (\<forall>l \<in> L. \<forall>fd fp. fileds (epollerOf w l) fd = Some fp \<longrightarrow> belongs w live l fd fp) \<and>
     (\<forall>l \<in> L. \<forall>fd ev fp. itst (kern w) (epollfd (epollerOf w l)) fd = Some (ev, fp) \<longrightarrow>
        belongs w live l fd fp)"

lemma registry_invI:
  assumes "\<And>fp. fp \<in> live \<Longrightarrow> filed_loop (filedOf w fp) \<in> L"
    and "\<And>fp. fp \<in> live \<Longrightarrow> filed_ok itst w fp"
    and "inj_on (\<lambda>l. epollfd (epollerOf w l)) L"
    and "inj_on (\<lambda>fp. (filed_loop (filedOf w fp), filed_fd (filedOf w fp))) live"
    and "\<And>l fd fp. l \<in> L \<Longrightarrow> fileds (epollerOf w l) fd = Some fp \<Longrightarrow> belongs w live l fd fp"
    and "\<And>l fd ev fp. l \<in> L \<Longrightarrow> itst (kern w) (epollfd (epollerOf w l)) fd = Some (ev, fp) \<Longrightarrow>
      belongs w live l fd fp"
  shows "registry_inv itst L live w"
  unfolding registry_inv_def using assms by blast

lemma registry_injD:
  "registry_inv itst L live w \<Longrightarrow> inj_on (\<lambda>l. epollfd (epollerOf w l)) L"
  "registry_inv itst L live w \<Longrightarrow>
     inj_on (\<lambda>fp. (filed_loop (filedOf w fp), filed_fd (filedOf w fp))) live"
  by (simp_all add: registry_inv_def)

lemma registry_okD:
  "registry_inv itst L live w \<Longrightarrow> fp \<in> live \<Longrightarrow> filed_loop (filedOf w fp) \<in> L \<and> filed_ok itst w fp"
  by (simp add: registry_inv_def)

lemma registry_entD:
  "registry_inv itst L live w \<Longrightarrow> l \<in> L \<Longrightarrow> fileds (epollerOf w l) fd = Some fp \<Longrightarrow>
     belongs w live l fd fp"
  by (simp add: registry_inv_def)

lemma registry_regD:
  "registry_inv itst L live w \<Longrightarrow> l \<in> L \<Longrightarrow>
     itst (kern w) (epollfd (epollerOf w l)) fd = Some (ev, fp) \<Longrightarrow> belongs w live l fd fp"
  unfolding registry_inv_def by blast

text \<open>The state a \<open>Filed\<close> moves to when its events change: added, or deleted when added and empty.\<close>

definition next_index :: "int \<Rightarrow> u32 \<Rightarrow> int" where
  "next_index idx ev = (if idx = kAdded \<and> ev = kNoneEvent then kDeleted else kAdded)"

lemma index_distinct [simp]:
  "kNew \<noteq> kAdded" "kAdded \<noteq> kNew" "kNew \<noteq> kDeleted" "kDeleted \<noteq> kNew"
  "kAdded \<noteq> kDeleted" "kDeleted \<noteq> kAdded"
  by (simp_all add: kNew_def kAdded_def kDeleted_def)

lemmas machine_upd_defs = upd_filed_def upd_epoller_def log_line_def setIndex_def setRevents_def

text \<open>
  Exactly what \<open>update\<close> does after the events of a consistent \<open>Filed\<close> were set to \<open>ev\<close>: it returns, and
  the map, the index and the interest list all say \<open>ev\<close>.
\<close>

definition updated ::
  "nat \<Rightarrow> u32 \<Rightarrow> 'k \<Rightarrow> ('k, 'z) machine_scheme \<Rightarrow> ('k, 'z) machine_scheme" where
  "updated fp ev k' w =
     (let f = filedOf w fp; l = filed_loop f in
      w\<lparr>kern := k',
        filedOf := (filedOf w)(fp := f\<lparr>events := ev, index := next_index (index f) ev\<rparr>),
        epollerOf := (epollerOf w)(l := (epollerOf w l)
          \<lparr>fileds := (fileds (epollerOf w l))(filed_fd f \<mapsto> fp)\<rparr>)\<rparr>)"

definition removed :: "nat \<Rightarrow> 'k \<Rightarrow> ('k, 'z) machine_scheme \<Rightarrow> ('k, 'z) machine_scheme" where
  "removed fp k' w =
     (let f = filedOf w fp; l = filed_loop f in
      w\<lparr>kern := k',
        filedOf := (filedOf w)(fp := f\<lparr>index := kNew\<rparr>),
        epollerOf := (epollerOf w)(l := (epollerOf w l)
          \<lparr>fileds := (fileds (epollerOf w l))(filed_fd f := None)\<rparr>)\<rparr>)"

definition set_interest ::
  "'k interest \<Rightarrow> ('k, 'z) machine_scheme \<Rightarrow> nat \<Rightarrow> epoll_event option \<Rightarrow> int \<Rightarrow> int \<Rightarrow>
     epoll_event option" where
  "set_interest itst w fp x =
     (let f = filedOf w fp; ep = epollfd (epollerOf w (filed_loop f)) in
      (itst (kern w))(ep := (itst (kern w) ep)(filed_fd f := x)))"

lemma filed_index_idem: "index f = i \<Longrightarrow> f\<lparr>events := ev, index := i\<rparr> = f\<lparr>events := ev\<rparr>"
  by (cases f) simp

lemma Epoller_update_exact:
  assumes law: "epoll_ctl_law S itst" and ok: "filed_ok itst w fp"
  obtains k' where
    "Epoller_update S (filed_loop (filedOf w fp)) fp (upd_filed fp (\<lambda>f. f\<lparr>events := ev\<rparr>) w) =
       Inr (updated fp ev k' w)"
    and "itst k' = set_interest itst w fp
       (if next_index (index (filedOf w fp)) ev = kAdded then Some (ev, fp) else None)"
proof -
  let ?f = "filedOf w fp" and ?l = "filed_loop (filedOf w fp)"
  let ?e = "epollerOf w ?l"
  consider (new) "index ?f = kNew" "fileds ?e (filed_fd ?f) = None"
      "itst (kern w) (epollfd ?e) (filed_fd ?f) = None"
    | (added) "index ?f = kAdded" "fileds ?e (filed_fd ?f) = Some fp"
      "itst (kern w) (epollfd ?e) (filed_fd ?f) \<noteq> None"
    | (deleted) "index ?f = kDeleted" "fileds ?e (filed_fd ?f) = Some fp"
      "itst (kern w) (epollfd ?e) (filed_fd ?f) = None"
    using ok by (auto simp: filed_ok_def Let_def)
  then show ?thesis
  proof cases
    case new
    obtain r k' where c: "sys_epoll_ctl S (epollfd ?e) EPOLL_CTL_ADD (filed_fd ?f) (ev, fp) (kern w) = (r, k')"
      by fastforce
    from epoll_ctl_addD [OF law c new(3)] new c show ?thesis
      by (intro that [of k'])
        (auto simp: Epoller_update_def updateHelper_def machine_upd_defs updated_def set_interest_def
          next_index_def Let_def)
  next
    case deleted
    obtain r k' where c: "sys_epoll_ctl S (epollfd ?e) EPOLL_CTL_ADD (filed_fd ?f) (ev, fp) (kern w) = (r, k')"
      by fastforce
    from epoll_ctl_addD [OF law c deleted(3)] deleted c show ?thesis
      by (intro that [of k'])
        (auto simp: Epoller_update_def updateHelper_def machine_upd_defs updated_def set_interest_def
          next_index_def Let_def fun_upd_idem)
  next
    case added
    show ?thesis
    proof (cases "ev = kNoneEvent")
      case True
      obtain r k' where c: "sys_epoll_ctl S (epollfd ?e) EPOLL_CTL_DEL (filed_fd ?f) (ev, fp) (kern w) = (r, k')"
        by fastforce
      from epoll_ctl_delD [OF law c added(3)] added c True show ?thesis
        by (intro that [of k'])
          (auto simp: Epoller_update_def updateHelper_def machine_upd_defs updated_def set_interest_def
            next_index_def Let_def fun_upd_idem filed_index_idem isNoneEvent_def)
    next
      case False
      obtain r k' where c: "sys_epoll_ctl S (epollfd ?e) EPOLL_CTL_MOD (filed_fd ?f) (ev, fp) (kern w) = (r, k')"
        by fastforce
      from epoll_ctl_modD [OF law c added(3)] added c False show ?thesis
        by (intro that [of k'])
          (auto simp: Epoller_update_def updateHelper_def machine_upd_defs updated_def set_interest_def
            next_index_def Let_def fun_upd_idem filed_index_idem isNoneEvent_def)
    qed
  qed
qed

lemma Epoller_remove_exact:
  assumes law: "epoll_ctl_law S itst" and ok: "filed_ok itst w fp"
  obtains k' where "Epoller_remove S (filed_loop (filedOf w fp)) fp w = Inr (removed fp k' w)"
    and "itst k' = set_interest itst w fp None"
proof -
  let ?f = "filedOf w fp" and ?l = "filed_loop (filedOf w fp)"
  let ?e = "epollerOf w ?l"
  show ?thesis
  proof (cases "index ?f = kAdded")
    case True
    then have reg: "itst (kern w) (epollfd ?e) (filed_fd ?f) \<noteq> None"
      using ok by (auto simp: filed_ok_def Let_def)
    obtain r k' where c: "sys_epoll_ctl S (epollfd ?e) EPOLL_CTL_DEL (filed_fd ?f) (events ?f, fp) (kern w) = (r, k')"
      by fastforce
    from epoll_ctl_delD [OF law c reg] True c show ?thesis
      by (intro that [of k'])
        (auto simp: Epoller_remove_def updateHelper_def machine_upd_defs removed_def set_interest_def Let_def)
  next
    case False
    then have "itst (kern w) (epollfd ?e) (filed_fd ?f) = None"
      using ok by (auto simp: filed_ok_def Let_def)
    with False show ?thesis
      by (intro that [of "kern w"])
        (auto simp: Epoller_remove_def machine_upd_defs removed_def set_interest_def Let_def fun_upd_idem)
  qed
qed

text \<open>
  One lemma covers both operations: a step that changes the index (and perhaps the events) of one live
  \<open>Filed\<close> and its own entries in the map and in the interest list, consistently.
\<close>

lemma registry_step:
  assumes inv: "registry_inv itst L live w" and fp: "fp \<in> live"
    and f': "filed_loop f' = filed_loop (filedOf w fp)" "filed_fd f' = filed_fd (filedOf w fp)"
    and w': "kern w' = k'" "filedOf w' = (filedOf w)(fp := f')"
      "epollerOf w' = (epollerOf w)(filed_loop f' := (epollerOf w (filed_loop f'))
        \<lparr>fileds := (fileds (epollerOf w (filed_loop f')))(filed_fd f' := ent)\<rparr>)"
    and k': "itst k' = set_interest itst w fp reg"
    and agree: "index f' = kNew \<and> ent = None \<and> reg = None \<or>
      index f' = kAdded \<and> ent = Some fp \<and> reg = Some (events f', fp) \<or>
      index f' = kDeleted \<and> ent = Some fp \<and> reg = None"
  shows "registry_inv itst L live w'"
proof -
  let ?f = "filedOf w fp"
  let ?l = "filed_loop ?f"
  have L: "?l \<in> L" and injL: "inj_on (\<lambda>l. epollfd (epollerOf w l)) L"
    and injF: "inj_on (\<lambda>q. (filed_loop (filedOf w q), filed_fd (filedOf w q))) live"
    using inv fp by (auto simp: registry_inv_def)
  have ep: "epollfd (epollerOf w' l) = epollfd (epollerOf w l)" for l
    using w'(3) by simp
  have ent: "fileds (epollerOf w' l) fd = (if l = ?l \<and> fd = filed_fd ?f then ent else fileds (epollerOf w l) fd)"
    for l fd using w'(3) f' by simp
  have reg: "itst (kern w') (epollfd (epollerOf w' l)) fd =
      (if l = ?l \<and> fd = filed_fd ?f then reg else itst (kern w) (epollfd (epollerOf w l)) fd)"
    if "l \<in> L" for l fd
    using that L inj_onD [OF injL] by (auto simp: w'(1) ep k' set_interest_def Let_def)
  have id: "filed_loop (filedOf w' q) = filed_loop (filedOf w q)"
    "filed_fd (filedOf w' q) = filed_fd (filedOf w q)" for q
    using w'(2) f' by simp_all
  have "filed_loop (filedOf w' q) \<in> L \<and> filed_ok itst w' q" if q: "q \<in> live" for q
  proof (cases "q = fp")
    case True
    with agree L f' reg [of ?l "filed_fd ?f"] show ?thesis
      by (simp add: filed_ok_def Let_def ent w'(2))
  next
    case False
    let ?lq = "filed_loop (filedOf w q)" and ?fdq = "filed_fd (filedOf w q)"
    from False injF q fp have other: "\<not> (?lq = ?l \<and> ?fdq = filed_fd ?f)"
      by (auto dest: inj_onD)
    have qok: "?lq \<in> L" "filed_ok itst w q"
      using inv q by (auto simp: registry_inv_def)
    have "fileds (epollerOf w' ?lq) ?fdq = fileds (epollerOf w ?lq) ?fdq"
      unfolding ent by (rule if_not_P [OF other])
    moreover have "itst (kern w') (epollfd (epollerOf w' ?lq)) ?fdq = itst (kern w) (epollfd (epollerOf w ?lq)) ?fdq"
      unfolding reg [OF qok(1)] by (rule if_not_P [OF other])
    moreover have "filedOf w' q = filedOf w q" using False w'(2) by simp
    ultimately show ?thesis using qok by (simp add: filed_ok_def Let_def)
  qed
  moreover have "belongs w' live l fd p"
    if "l \<in> L" "fileds (epollerOf w' l) fd = Some p" for l fd p
  proof (cases "l = ?l \<and> fd = filed_fd ?f")
    case True
    with that agree fp have "p = fp" by (auto simp: ent)
    with True fp show ?thesis by (simp add: belongs_def id)
  next
    case False
    then have "fileds (epollerOf w l) fd = Some p" using that(2) by (auto simp: ent)
    with inv that(1) have "belongs w live l fd p" by (auto simp: registry_inv_def)
    then show ?thesis by (simp add: belongs_def id)
  qed
  moreover have "belongs w' live l fd p"
    if "l \<in> L" "itst (kern w') (epollfd (epollerOf w' l)) fd = Some (ev, p)" for l fd ev p
  proof (cases "l = ?l \<and> fd = filed_fd ?f")
    case True
    with that agree fp reg have "p = fp" by auto
    with True fp show ?thesis by (simp add: belongs_def id)
  next
    case False
    then have "itst (kern w) (epollfd (epollerOf w l)) fd = Some (ev, p)"
      using that reg [OF that(1), of fd] by auto
    with inv that(1) have "belongs w live l fd p" by (auto simp: registry_inv_def)
    then show ?thesis by (simp add: belongs_def id)
  qed
  ultimately show ?thesis
    using injL injF by (simp add: registry_inv_def ep id)
qed

lemma registry_updated:
  assumes "registry_inv itst L live w" and "fp \<in> live"
    and "itst k' = set_interest itst w fp
       (if next_index (index (filedOf w fp)) ev = kAdded then Some (ev, fp) else None)"
  shows "registry_inv itst L live (updated fp ev k' w)"
  by (rule registry_step [OF assms(1,2) _ _ _ _ _ assms(3),
        where f' = "filedOf w fp\<lparr>events := ev, index := next_index (index (filedOf w fp)) ev\<rparr>"
          and ent = "Some fp"])
    (auto simp: updated_def Let_def next_index_def)

lemma registry_removed:
  assumes "registry_inv itst L live w" and "fp \<in> live" and "itst k' = set_interest itst w fp None"
  shows "registry_inv itst L live (removed fp k' w)"
  by (rule registry_step [OF assms(1,2) _ _ _ _ _ assms(3),
        where f' = "filedOf w fp\<lparr>index := kNew\<rparr>" and ent = None])
    (auto simp: removed_def Let_def)

text \<open>A fresh \<open>Filed\<close> joins, and one that has been removed leaves.\<close>

lemma registry_insert:
  assumes inv: "registry_inv itst L live w" and "filed_loop (filedOf w fp) \<in> L"
    and "index (filedOf w fp) = kNew"
    and fresh: "\<And>q. q \<in> live \<Longrightarrow> filed_loop (filedOf w q) = filed_loop (filedOf w fp) \<Longrightarrow>
      filed_fd (filedOf w q) \<noteq> filed_fd (filedOf w fp)"
  shows "registry_inv itst L (insert fp live) w"
proof -
  let ?l = "filed_loop (filedOf w fp)" and ?fd = "filed_fd (filedOf w fp)"
  have none: "fileds (epollerOf w ?l) ?fd = None"
  proof (rule ccontr)
    assume "fileds (epollerOf w ?l) ?fd \<noteq> None"
    then obtain p where "fileds (epollerOf w ?l) ?fd = Some p" by blast
    from registry_entD [OF inv assms(2) this] fresh show False by (auto simp: belongs_def)
  qed
  have "itst (kern w) (epollfd (epollerOf w ?l)) ?fd = None"
  proof (rule ccontr)
    assume "itst (kern w) (epollfd (epollerOf w ?l)) ?fd \<noteq> None"
    then obtain ev p where "itst (kern w) (epollfd (epollerOf w ?l)) ?fd = Some (ev, p)" by fast
    from registry_regD [OF inv assms(2) this] fresh show False by (auto simp: belongs_def)
  qed
  with none assms(3) have ok: "filed_ok itst w fp" by (simp add: filed_ok_def Let_def)
  have "inj_on (\<lambda>q. (filed_loop (filedOf w q), filed_fd (filedOf w q))) live"
    using inv by (simp add: registry_inv_def)
  then have "inj_on (\<lambda>q. (filed_loop (filedOf w q), filed_fd (filedOf w q))) (insert fp live)"
    using fresh by (fastforce simp: inj_on_def)
  note inj = this
  show ?thesis
  proof (rule registry_invI)
    show "filed_loop (filedOf w q) \<in> L" if "q \<in> insert fp live" for q
      using that assms(2) registry_okD [OF inv, of q] by blast
    show "filed_ok itst w q" if "q \<in> insert fp live" for q
      using that ok registry_okD [OF inv, of q] by blast
    show "belongs w (insert fp live) l fd p"
      if "l \<in> L" "fileds (epollerOf w l) fd = Some p" for l fd p
      using registry_entD [OF inv that] by (simp add: belongs_def)
    show "belongs w (insert fp live) l fd p"
      if "l \<in> L" "itst (kern w) (epollfd (epollerOf w l)) fd = Some (ev, p)" for l fd ev p
      using registry_regD [OF inv that] by (simp add: belongs_def)
  qed (rule registry_injD(1) [OF inv] inj)+
qed

lemma registry_leave:
  assumes inv: "registry_inv itst L live w" and "index (filedOf w fp) = kNew"
  shows "registry_inv itst L (live - {fp}) w"
proof -
  have ent: "p \<noteq> fp" if "l \<in> L" "fileds (epollerOf w l) fd = Some p" for l fd p
    using registry_entD [OF inv that] registry_okD [OF inv, of p] assms(2) that
    by (auto simp: belongs_def filed_ok_def Let_def)
  have reg: "p \<noteq> fp" if "l \<in> L" "itst (kern w) (epollfd (epollerOf w l)) fd = Some (ev, p)" for l fd ev p
    using registry_regD [OF inv that] registry_okD [OF inv, of p] assms(2) that
    by (auto simp: belongs_def filed_ok_def Let_def)
  show ?thesis
  proof (rule registry_invI)
    show "filed_loop (filedOf w q) \<in> L" "filed_ok itst w q" if "q \<in> live - {fp}" for q
      using that registry_okD [OF inv, of q] by simp_all
    show "inj_on (\<lambda>q. (filed_loop (filedOf w q), filed_fd (filedOf w q))) (live - {fp})"
      by (rule inj_on_diff, rule registry_injD(2) [OF inv])
    show "belongs w (live - {fp}) l fd p" if "l \<in> L" "fileds (epollerOf w l) fd = Some p" for l fd p
      using registry_entD [OF inv that] ent [OF that] by (simp add: belongs_def)
    show "belongs w (live - {fp}) l fd p"
      if "l \<in> L" "itst (kern w) (epollfd (epollerOf w l)) fd = Some (ev, p)" for l fd ev p
      using registry_regD [OF inv that] reg [OF that] by (simp add: belongs_def)
  qed (rule registry_injD(1) [OF inv])
qed

text \<open>The agreement does not depend on anything else of the machine.\<close>

definition same_registration :: "filed \<Rightarrow> filed \<Rightarrow> bool" where
  "same_registration f f' \<longleftrightarrow> filed_loop f' = filed_loop f \<and> filed_fd f' = filed_fd f \<and>
     index f' = index f \<and> events f' = events f"

lemma registry_frame:
  assumes inv: "registry_inv itst L live w" and "itst (kern w') = itst (kern w)"
    and f: "\<And>fp. same_registration (filedOf w fp) (filedOf w' fp)"
    and e: "\<And>l. fileds (epollerOf w' l) = fileds (epollerOf w l)"
      "\<And>l. epollfd (epollerOf w' l) = epollfd (epollerOf w l)"
  shows "registry_inv itst L live w'"
proof -
  have same: "filed_loop (filedOf w' fp) = filed_loop (filedOf w fp)"
    "filed_fd (filedOf w' fp) = filed_fd (filedOf w fp)"
    "index (filedOf w' fp) = index (filedOf w fp)" "events (filedOf w' fp) = events (filedOf w fp)" for fp
    using f [of fp] by (simp_all add: same_registration_def)
  show ?thesis
    using inv by (simp add: registry_inv_def belongs_def filed_ok_def Let_def assms(2) same e)
qed

section \<open>What \<open>epoll\<close> reports\<close>

definition deliver :: "epoll_event list \<Rightarrow> ('k, 'z) machine_scheme \<Rightarrow> ('k, 'z) machine_scheme" where
  "deliver evs w = fold (\<lambda>(ev, fp). upd_filed fp (setRevents ev)) evs w"

lemma fill_from_eq:
  "i + m \<le> length evs \<Longrightarrow> fill_from m i evs active w =
     Inr (active @ map snd (take m (drop i evs)), deliver (take m (drop i evs)) w)"
proof (induction m i evs active w rule: fill_from.induct)
  case (1 i evs active w)
  then show ?case by (simp add: deliver_def)
next
  case (2 m i evs active w)
  obtain ev fp where e: "evs ! i = (ev, fp)" by fastforce
  moreover have "drop i evs = (ev, fp) # drop (Suc i) evs"
    using "2.prems" Cons_nth_drop_Suc [of i evs] e by simp
  ultimately show ?case
    using 2 by (simp add: deliver_def)
qed

lemma same_registration_trans:
  "same_registration f g \<Longrightarrow> same_registration g h \<Longrightarrow> same_registration f h"
  by (simp add: same_registration_def)

lemma set_revents_same:
  "kern (upd_filed fp (setRevents ev) w) = kern w" "logs (upd_filed fp (setRevents ev) w) = logs w"
  "epollerOf (upd_filed fp (setRevents ev) w) = epollerOf w"
  "machine.more (upd_filed fp (setRevents ev) w) = machine.more w"
  "same_registration (filedOf w q) (filedOf (upd_filed fp (setRevents ev) w) q)"
  by (simp_all add: upd_filed_def setRevents_def same_registration_def)

lemma deliver_Nil [simp]: "deliver [] w = w"
  by (simp add: deliver_def)

lemma deliver_Cons [simp]: "deliver ((ev, fp) # evs) w = deliver evs (upd_filed fp (setRevents ev) w)"
  by (simp add: deliver_def)

lemma deliver_same:
  "kern (deliver evs w) = kern w \<and> logs (deliver evs w) = logs w \<and>
   epollerOf (deliver evs w) = epollerOf w \<and> machine.more (deliver evs w) = machine.more w"
proof (induction evs arbitrary: w)
  case Nil
  then show ?case by simp
next
  case (Cons x evs)
  then show ?case by (cases x) (simp add: set_revents_same)
qed

lemma deliver_same_registration: "same_registration (filedOf w fp) (filedOf (deliver evs w) fp)"
proof (induction evs arbitrary: w)
  case Nil
  then show ?case by (simp add: same_registration_def)
next
  case (Cons x evs)
  obtain ev q where x: "x = (ev, q)" by fastforce
  show ?case
    unfolding x deliver_Cons
    by (rule same_registration_trans [OF set_revents_same(5) Cons.IH])
qed

lemma deliver_revents:
  assumes "distinct (map snd evs)" and "(ev, fp) \<in> set evs"
  shows "revents (filedOf (deliver evs w) fp) = ev"
proof -
  have keep: "fp \<notin> snd ` set es \<Longrightarrow> filedOf (deliver es w) fp = filedOf w fp" for es and w :: "('a, 'b) machine_scheme"
    unfolding deliver_def by (induction es arbitrary: w) (auto simp: upd_filed_def)
  show ?thesis
    using assms
  proof (induction evs arbitrary: w)
    case Nil
    then show ?case by simp
  next
    case (Cons x evs)
    obtain ev' fp' where x: "x = (ev', fp')" by fastforce
    show ?case
    proof (cases "(ev, fp) = x")
      case True
      with Cons.prems keep [of evs "upd_filed fp (setRevents ev) w"] x show ?thesis
        by (simp add: deliver_def) (simp add: upd_filed_def setRevents_def)
    next
      case False
      with Cons.prems have "revents (filedOf (deliver evs (upd_filed fp' (setRevents ev') w)) fp) = ev"
        by (intro Cons.IH) auto
      then show ?thesis by (simp add: deliver_def x)
    qed
  qed
qed

text \<open>The conversions of the event count: \<open>int\<close> to \<open>size_t\<close> and back.\<close>

lemma count_roundtrip:
  assumes "n < 2 ^ 31"
  shows "sint (ucast (of_nat n :: size_t) :: 32 word) = int n"
proof -
  have "(ucast (of_nat n :: size_t) :: 32 word) = of_nat n"
    using of_nat_unat [of "of_nat n :: size_t", where 'a = "32 word"] assms
    by (simp add: unat_size_of_nat del: of_nat_unat)
  moreover have "sint (of_nat n :: 32 word) = int n"
    using assms by (simp add: signed_of_nat signed_take_bit_int_eq_self)
  ultimately show ?thesis by simp
qed

lemma count_error: "sint (ucast (of_int (- 1) :: size_t) :: 32 word) = - 1"
  by code_simp

lemma Epoller_epoll_events:
  assumes wait: "sys_epoll_wait S (epollfd (epollerOf w l)) (length (eventList (epollerOf w l))) timeout
      (kern w) = (int (length evs), evs, k1)"
    and "sys_time S k1 = (now, k2)"
    and n: "0 < length evs" "length evs \<le> length (eventList (epollerOf w l))"
      "length (eventList (epollerOf w l)) < 2 ^ 31"
    and w1: "w1 = upd_epoller l (\<lambda>e. e\<lparr>eventList := overwrite 0 evs (eventList e)\<rparr>) (w\<lparr>kern := k2\<rparr>)"
  shows "Epoller_epoll S l timeout active w = Inr (now, active @ map snd evs,
    if length evs + 1 = length (eventList (epollerOf w l))
    then upd_epoller l (\<lambda>e. e\<lparr>eventList := eventList e @ replicate (length (eventList e)) (0, 0)\<rparr>) (deliver evs w1)
    else deliver evs w1)"
proof -
  let ?n = "of_nat (length evs) :: size_t"
  have list1: "eventList (epollerOf w1 l) = overwrite 0 evs (eventList (epollerOf w l))"
    and len1: "length (eventList (epollerOf w1 l)) = length (eventList (epollerOf w l))"
    using w1 n by (simp_all add: upd_epoller_def)
  have "fillActiveFileds l (sint (ucast ?n :: 32 word)) active w1 = Inr (active @ map snd evs, deliver evs w1)"
    using n count_roundtrip [of "length evs"]
    by (simp add: fillActiveFileds_def fill_from_eq list1 overwrite_def)
  moreover have "0 < ?n"
    using n by (simp add: size_less_iff unat_size_of_nat)
  moreover have "unat (of_nat (length (eventList (epollerOf w l))) - 1 :: size_t) =
      length (eventList (epollerOf w l)) - 1"
    using n by (intro unat_size_pred) auto
  then have "?n = of_nat (length (eventList (epollerOf w1 l))) - 1 \<longleftrightarrow>
      length evs = length (eventList (epollerOf w l)) - 1"
    using n len1 by (simp add: size_eq_iff unat_size_of_nat)
  then have "?n = of_nat (length (eventList (epollerOf w1 l))) - 1 \<longleftrightarrow>
      length evs + 1 = length (eventList (epollerOf w l))"
    using n by linarith
  ultimately show ?thesis
    using wait assms(2) deliver_same [of evs w1] len1
    by (simp add: Epoller_epoll_def Let_def flip: w1)
qed

text \<open>
  When \<open>epoll_wait\<close> reports \<open>n > 0\<close> events, \<open>epoll\<close> hands out exactly the \<open>Filed\<close>s it reported, in
  order and after what the list already held, each with its reported events stored in \<open>revents_\<close>, and
  logs nothing. The event list is doubled exactly when one slot was left free: a completely full
  list is not grown.
\<close>

theorem epoll_reports:
  assumes "sys_epoll_wait S (epollfd (epollerOf w l)) (length (eventList (epollerOf w l))) timeout
      (kern w) = (int (length evs), evs, k1)"
    and "sys_time S k1 = (now, k2)"
    and "0 < length evs" and "length evs \<le> length (eventList (epollerOf w l))"
    and "length (eventList (epollerOf w l)) < 2 ^ 31" and "distinct (map snd evs)"
  shows "\<exists>w'. Epoller_epoll S l timeout active w = Inr (now, active @ map snd evs, w') \<and>
    (\<forall>(ev, fp) \<in> set evs. revents (filedOf w' fp) = ev) \<and> logs w' = logs w \<and>
    length (eventList (epollerOf w' l)) =
      (if length evs + 1 = length (eventList (epollerOf w l))
       then 2 * length (eventList (epollerOf w l)) else length (eventList (epollerOf w l)))"
proof -
  define w1 where "w1 = upd_epoller l (\<lambda>e. e\<lparr>eventList := overwrite 0 evs (eventList e)\<rparr>) (w\<lparr>kern := k2\<rparr>)"
  have "logs w1 = logs w" and "length (eventList (epollerOf w1 l)) = length (eventList (epollerOf w l))"
    using assms(4) by (simp_all add: w1_def upd_epoller_def)
  with Epoller_epoll_events [OF assms(1-5) w1_def, of active] deliver_same [of evs w1]
    deliver_revents [OF assms(6), of _ _ w1]
  show ?thesis by (auto simp: upd_epoller_def)
qed

text \<open>
  A failed \<open>epoll_wait\<close> is never noticed: its \<open>-1\<close> is stored in a \<open>size_t\<close>, passes the test
  \<open>events_num > 0\<close>, and \<open>epoll\<close> returns normally with no active \<open>Filed\<close> and without a log line, whatever
  \<open>errno\<close> says; the branch for errors other than \<open>EINTR\<close> is dead.
\<close>

theorem epoll_error_unnoticed:
  assumes "sys_epoll_wait S (epollfd (epollerOf w l)) (length (eventList (epollerOf w l))) timeout
      (kern w) = (- 1, [], k1)"
    and "sys_time S k1 = (now, k2)"
    and "0 < length (eventList (epollerOf w l))" and "length (eventList (epollerOf w l)) < 2 ^ 31"
  shows "Epoller_epoll S l timeout active w = Inr (now, active, w\<lparr>kern := k2\<rparr>)"
proof -
  let ?w = "upd_epoller l (\<lambda>e. e\<lparr>eventList := overwrite 0 [] (eventList e)\<rparr>) (w\<lparr>kern := k2\<rparr>)"
  have w: "?w = w\<lparr>kern := k2\<rparr>"
    by (simp add: upd_epoller_def overwrite_def)
  have "unat (of_nat (length (eventList (epollerOf w l))) - 1 :: size_t) =
      length (eventList (epollerOf w l)) - 1"
    using assms(3,4) by (intro unat_size_pred) auto
  then have "(- 1 :: size_t) \<noteq> of_nat (length (eventList (epollerOf w l))) - 1"
    using assms(4) by (simp add: size_eq_iff unat_size_minus_one)
  moreover have "fillActiveFileds l (sint (ucast (- 1 :: size_t) :: 32 word)) active (w\<lparr>kern := k2\<rparr>) =
      Inr (active, w\<lparr>kern := k2\<rparr>)"
    using count_error by (simp add: fillActiveFileds_def)
  ultimately show ?thesis
    using assms(1,2) by (simp add: Epoller_epoll_def Let_def w size_less_iff unat_size_minus_one)
qed

section \<open>Properties of registration\<close>

text \<open>A machine with one loop and one \<open>Filed\<close>, for the witnesses.\<close>

definition demo_machine :: "ksim machine" where
  "demo_machine = \<lparr>kern = ksim0, logs = [], filedOf = (\<lambda>_. mkFiled 0 7),
     epollerOf = (\<lambda>_. \<lparr>eventList = replicate 16 (0, 0), fileds = Map.empty, epollfd = 3, ownerLoop = 0\<rparr>)\<rparr>"

lemma demo_registry: "registry_inv sim_interest {0} {0} demo_machine"
  by (simp add: registry_inv_def filed_ok_def demo_machine_def mkFiled_def kNew_def ksim0_def)

text \<open>
  C18. \<open>Epoller::update\<close>, called as \<open>Filed\<close> calls it after changing \<open>events_\<close>, always returns when
  \<open>epoll_ctl\<close> behaves as documented: neither assertion fails, no fatal and no error line is logged.
  Afterwards \<open>index_\<close>, the map and the kernel's interest list agree again for every live \<open>Filed\<close>, and the
  kernel watches the descriptor with the new events, unless an added \<open>Filed\<close> asked for none.
\<close>

theorem update_keeps_agreement:
  assumes "epoll_ctl_law S itst" and "registry_inv itst L live w" and "fp \<in> live"
  shows "\<exists>w'. Epoller_update S (filed_loop (filedOf w fp)) fp (upd_filed fp (\<lambda>f. f\<lparr>events := ev\<rparr>) w) = Inr w' \<and>
    registry_inv itst L live w' \<and> logs w' = logs w \<and>
    itst (kern w') (epollfd (epollerOf w (filed_loop (filedOf w fp)))) (filed_fd (filedOf w fp)) =
      (if index (filedOf w fp) = kAdded \<and> ev = kNoneEvent then None else Some (ev, fp))"
proof -
  have "filed_ok itst w fp" using registry_okD [OF assms(2,3)] by simp
  then obtain k' where k': "Epoller_update S (filed_loop (filedOf w fp)) fp
      (upd_filed fp (\<lambda>f. f\<lparr>events := ev\<rparr>) w) = Inr (updated fp ev k' w)"
    "itst k' = set_interest itst w fp
       (if next_index (index (filedOf w fp)) ev = kAdded then Some (ev, fp) else None)"
    using Epoller_update_exact [OF assms(1)] by metis
  with registry_updated [OF assms(2,3) k'(2)] show ?thesis
    by (auto simp: updated_def set_interest_def next_index_def Let_def)
qed

theorem update_keeps_agreement_witness:
  "\<exists>w'. Epoller_update sim_sys 0 0 (upd_filed 0 (\<lambda>f. f\<lparr>events := kReadEvent\<rparr>) demo_machine) = Inr w' \<and>
     registry_inv sim_interest {0} {0} w'"
  using update_keeps_agreement [OF sim_epoll_ctl_law demo_registry, of 0 kReadEvent]
  by (auto simp: demo_machine_def mkFiled_def)

text \<open>
  \<open>Epoller::remove\<close> always returns under the same hypothesis, logs nothing, and leaves no trace of
  the \<open>Filed\<close>: it is not in the map, the kernel does not watch its descriptor, its index is \<open>kNew\<close>, and
  the agreement holds of the remaining live \<open>Filed\<close>s.
\<close>

theorem remove_clears:
  assumes "epoll_ctl_law S itst" and "registry_inv itst L live w" and "fp \<in> live"
  shows "\<exists>w'. Epoller_remove S (filed_loop (filedOf w fp)) fp w = Inr w' \<and>
    registry_inv itst L (live - {fp}) w' \<and> logs w' = logs w \<and>
    \<not> hasFiled (filed_loop (filedOf w fp)) fp w' \<and> index (filedOf w' fp) = kNew \<and>
    itst (kern w') (epollfd (epollerOf w (filed_loop (filedOf w fp)))) (filed_fd (filedOf w fp)) = None"
proof -
  have "filed_ok itst w fp" using registry_okD [OF assms(2,3)] by simp
  then obtain k' where k': "Epoller_remove S (filed_loop (filedOf w fp)) fp w = Inr (removed fp k' w)"
    "itst k' = set_interest itst w fp None"
    using Epoller_remove_exact [OF assms(1)] by metis
  have idx: "index (filedOf (removed fp k' w) fp) = kNew"
    by (simp add: removed_def Let_def)
  have "registry_inv itst L (live - {fp}) (removed fp k' w)"
    by (rule registry_leave [OF registry_removed [OF assms(2,3) k'(2)] idx])
  with k' idx show ?thesis
    by (auto simp: removed_def set_interest_def hasFiled_def Let_def)
qed

theorem remove_clears_witness:
  "\<exists>w'. Epoller_remove sim_sys 0 0 demo_machine = Inr w' \<and> registry_inv sim_interest {0} {} w'"
  using remove_clears [OF sim_epoll_ctl_law demo_registry, of 0]
  by (auto simp: demo_machine_def mkFiled_def)

theorem epoll_reports_witness:
  "\<exists>w'. Epoller_epoll sim_sys 0 10000 [] (demo_machine\<lparr>kern := ksim0\<lparr>sim_ready := [(7, 1)],
       sim_interest := (\<lambda>_ _. None)(3 := (\<lambda>_. None)(7 \<mapsto> (1, 0)))\<rparr>\<rparr>) =
     Inr (0, [0], w') \<and> revents (filedOf w' 0) = 1"
proof -
  let ?k = "ksim0\<lparr>sim_ready := [(7, 1)], sim_interest := (\<lambda>_ _. None)(3 := (\<lambda>_. None)(7 \<mapsto> (1, 0)))\<rparr>"
  let ?w = "demo_machine\<lparr>kern := ?k\<rparr>"
  have "sys_epoll_wait sim_sys (epollfd (epollerOf ?w 0)) (length (eventList (epollerOf ?w 0))) 10000
      (kern ?w) = (int (length [(1 :: u32, 0 :: nat)]), [(1, 0)], ?k\<lparr>sim_ready := []\<rparr>)"
    by (simp add: sim_sys_def demo_machine_def ksim0_def)
  moreover have "sys_time sim_sys (?k\<lparr>sim_ready := []\<rparr>) = (0, ?k\<lparr>sim_ready := []\<rparr>)" by (simp add: sim_sys_def)
  moreover have "length (eventList (epollerOf ?w 0)) = 16" by (simp add: demo_machine_def)
  ultimately show ?thesis
    using epoll_reports [of sim_sys ?w 0 10000 "[(1, 0)]" "?k\<lparr>sim_ready := []\<rparr>" 0 "?k\<lparr>sim_ready := []\<rparr>" "[]"] by auto
qed

definition failing_wait :: "ksim sys" where
  "failing_wait = sim_sys\<lparr>sys_epoll_wait := (\<lambda>ep n timeout k. (- 1, [], k\<lparr>sim_errno := 9\<rparr>))\<rparr>"

theorem epoll_error_unnoticed_witness:
  "Epoller_epoll failing_wait 0 10000 [] demo_machine =
     Inr (0, [], demo_machine\<lparr>kern := ksim0\<lparr>sim_errno := 9\<rparr>\<rparr>)"
  by (rule epoll_error_unnoticed) (simp_all add: failing_wait_def sim_sys_def demo_machine_def)

end
