(* ===== verification/EventLoop.thy ===== *)
theory EventLoop
  imports Epoller
begin

text \<open>
  \<open>EventLoop\<close> (\<open>include/EventLoop.h\<close>, \<open>src/EventLoop.cpp\<close>): one loop per thread, which waits in its
  poller, dispatches the active \<open>Filed\<close>s and runs the functions other threads queued; and the operations
  of \<open>Filed\<close> that go through the loop. An operation takes the id \<open>tid\<close> of the thread that calls it.
\<close>

section \<open>State\<close>

text \<open>
  The closures the library queues in \<open>pendFuncs_\<close>, one constructor per \<open>std::bind\<close>: a pointer or a shared
  pointer to a connection is its address, the buffer of a sent string its address and length. The last is
  a function of the application's own.
\<close>

datatype task =
    TListen
  | TConnectEstablished nat
  | TConnectDestroyed nat
  | TSendInLoop nat nat size_t
  | TShutdownInLoop nat
  | TRemoveConnection nat
  | TWriteComplete nat nat
  | THighWaterMark nat nat size_t
  | TUser nat

record event_loop =
  looping :: bool
  quit :: bool
  threadId :: int
  epollReturnTime :: int
  wakeupFd :: int
  wakeupFiled :: nat
  activeFileds :: "nat list"
  isCallPendFunc :: bool
  pendFuncs :: "task list"

text \<open>The loops by address, and the thread-local \<open>t_LoopinThread\<close> of each thread.\<close>

record 'k reactor = "'k machine" +
  loopOf :: "nat \<Rightarrow> event_loop"
  loopInThread :: "int \<Rightarrow> nat option"

definition upd_loop ::
  "nat \<Rightarrow> (event_loop \<Rightarrow> event_loop) \<Rightarrow> ('k, 'z) reactor_scheme \<Rightarrow> ('k, 'z) reactor_scheme" where
  "upd_loop l g w = w\<lparr>loopOf := (loopOf w)(l := g (loopOf w l))\<rparr>"

definition kEpollTime :: int where "kEpollTime = 10000"

section \<open>\<open>Filed\<close> operations that go through the loop\<close>

definition EventLoop_update ::
  "'k sys \<Rightarrow> nat \<Rightarrow> nat \<Rightarrow> ('k, 'z) machine_scheme \<Rightarrow> fault + ('k, 'z) machine_scheme" where
  "EventLoop_update S l fp w = Epoller_update S l fp w"

definition EventLoop_remove ::
  "'k sys \<Rightarrow> nat \<Rightarrow> nat \<Rightarrow> ('k, 'z) machine_scheme \<Rightarrow> fault + ('k, 'z) machine_scheme" where
  "EventLoop_remove S l fp w = Epoller_remove S l fp w"

definition Filed_update ::
  "'k sys \<Rightarrow> nat \<Rightarrow> ('k, 'z) machine_scheme \<Rightarrow> fault + ('k, 'z) machine_scheme" where
  "Filed_update S fp w = EventLoop_update S (filed_loop (filedOf w fp)) fp w"

definition Filed_remove ::
  "'k sys \<Rightarrow> nat \<Rightarrow> ('k, 'z) machine_scheme \<Rightarrow> fault + ('k, 'z) machine_scheme" where
  "Filed_remove S fp w = EventLoop_remove S (filed_loop (filedOf w fp)) fp w"

definition enableReading ::
  "'k sys \<Rightarrow> nat \<Rightarrow> ('k, 'z) machine_scheme \<Rightarrow> fault + ('k, 'z) machine_scheme" where
  "enableReading S fp w =
     Filed_update S fp (upd_filed fp (\<lambda>f. f\<lparr>events := mask_enableReading (events f)\<rparr>) w)"

definition disableReading ::
  "'k sys \<Rightarrow> nat \<Rightarrow> ('k, 'z) machine_scheme \<Rightarrow> fault + ('k, 'z) machine_scheme" where
  "disableReading S fp w =
     Filed_update S fp (upd_filed fp (\<lambda>f. f\<lparr>events := mask_disableReading (events f)\<rparr>) w)"

definition enableWriting ::
  "'k sys \<Rightarrow> nat \<Rightarrow> ('k, 'z) machine_scheme \<Rightarrow> fault + ('k, 'z) machine_scheme" where
  "enableWriting S fp w =
     Filed_update S fp (upd_filed fp (\<lambda>f. f\<lparr>events := mask_enableWriting (events f)\<rparr>) w)"

definition disableWriting ::
  "'k sys \<Rightarrow> nat \<Rightarrow> ('k, 'z) machine_scheme \<Rightarrow> fault + ('k, 'z) machine_scheme" where
  "disableWriting S fp w =
     Filed_update S fp (upd_filed fp (\<lambda>f. f\<lparr>events := mask_disableWriting (events f)\<rparr>) w)"

definition disableAll ::
  "'k sys \<Rightarrow> nat \<Rightarrow> ('k, 'z) machine_scheme \<Rightarrow> fault + ('k, 'z) machine_scheme" where
  "disableAll S fp w = Filed_update S fp (upd_filed fp (\<lambda>f. f\<lparr>events := kNoneEvent\<rparr>) w)"

section \<open>Waking a loop and queueing functions\<close>

definition isLoopThread :: "int \<Rightarrow> nat \<Rightarrow> ('k, 'z) reactor_scheme \<Rightarrow> bool" where
  "isLoopThread tid l w \<longleftrightarrow> threadId (loopOf w l) = tid"

definition wakeup :: "'k sys \<Rightarrow> nat \<Rightarrow> ('k, 'z) reactor_scheme \<Rightarrow> ('k, 'z) reactor_scheme" where
  "wakeup S l w =
     (let (n, k') = sys_write S (wakeupFd (loopOf w l)) wake_bytes (kern w); w = w\<lparr>kern := k'\<rparr>
      in if n \<noteq> 8 then log_line ERROR ''EventLoop::wakeup() writes %lu bytes instead of 8'' w else w)"

definition handelwakeupRead :: "'k sys \<Rightarrow> nat \<Rightarrow> ('k, 'z) reactor_scheme \<Rightarrow> ('k, 'z) reactor_scheme" where
  "handelwakeupRead S l w =
     (let (n, k') = sys_write S (wakeupFd (loopOf w l)) wake_bytes (kern w); w = w\<lparr>kern := k'\<rparr>
      in if n \<noteq> 8 then log_line ERROR ''EventLoop::HandleRead() writes %lu bytes instead of 8'' w else w)"

text \<open>
  \<open>queueinLoop\<close> in its two parts: appending under the mutex, then the wake-up outside it. Between the two
  the loop's own thread may run.
\<close>

definition post_func :: "nat \<Rightarrow> task \<Rightarrow> ('k, 'z) reactor_scheme \<Rightarrow> ('k, 'z) reactor_scheme" where
  "post_func l cb w = upd_loop l (\<lambda>e. e\<lparr>pendFuncs := pendFuncs e @ [cb]\<rparr>) w"

definition wake_after_post :: "'k sys \<Rightarrow> int \<Rightarrow> nat \<Rightarrow> ('k, 'z) reactor_scheme \<Rightarrow> ('k, 'z) reactor_scheme" where
  "wake_after_post S tid l w =
     (if \<not> isLoopThread tid l w \<or> isCallPendFunc (loopOf w l) then wakeup S l w else w)"

definition queueinLoop ::
  "'k sys \<Rightarrow> int \<Rightarrow> nat \<Rightarrow> task \<Rightarrow> ('k, 'z) reactor_scheme \<Rightarrow> ('k, 'z) reactor_scheme" where
  "queueinLoop S tid l cb w = wake_after_post S tid l (post_func l cb w)"

text \<open>\<open>runinLoop\<close> calls the function at once in the loop's thread; \<open>call\<close> is what \<open>cb\<close> does.\<close>

definition runinLoop ::
  "'k sys \<Rightarrow> int \<Rightarrow> nat \<Rightarrow> task \<Rightarrow> (('k, 'z) reactor_scheme \<Rightarrow> fault + ('k, 'z) reactor_scheme) \<Rightarrow>
     ('k, 'z) reactor_scheme \<Rightarrow> fault + ('k, 'z) reactor_scheme" where
  "runinLoop S tid l cb call w =
     (if isLoopThread tid l w then call w else Inr (queueinLoop S tid l cb w))"

definition quit_loop :: "'k sys \<Rightarrow> int \<Rightarrow> nat \<Rightarrow> ('k, 'z) reactor_scheme \<Rightarrow> ('k, 'z) reactor_scheme" where
  "quit_loop S tid l w =
     (let w = upd_loop l (\<lambda>e. e\<lparr>quit := True\<rparr>) w
      in if \<not> isLoopThread tid l w then wakeup S l w else w)"

section \<open>The loop\<close>

definition begin_pend :: "nat \<Rightarrow> ('k, 'z) reactor_scheme \<Rightarrow> task list \<times> ('k, 'z) reactor_scheme" where
  "begin_pend l w = (pendFuncs (loopOf w l),
     upd_loop l (\<lambda>e. e\<lparr>isCallPendFunc := True, pendFuncs := []\<rparr>) w)"

definition end_pend :: "nat \<Rightarrow> ('k, 'z) reactor_scheme \<Rightarrow> ('k, 'z) reactor_scheme" where
  "end_pend l w = upd_loop l (\<lambda>e. e\<lparr>isCallPendFunc := False\<rparr>) w"

definition doPendFunc ::
  "(task \<Rightarrow> ('k, 'z) reactor_scheme \<Rightarrow> fault + ('k, 'z) reactor_scheme) \<Rightarrow> nat \<Rightarrow>
     ('k, 'z) reactor_scheme \<Rightarrow> fault + ('k, 'z) reactor_scheme" where
  "doPendFunc exec l w =
     (let (functors, w1) = begin_pend l w
      in bindE (runE exec functors w1) (\<lambda>w2. Inr (end_pend l w2)))"

text \<open>
  One round of the loop; \<open>getf\<close> looks up a \<open>Filed\<close> that still exists and \<open>alive\<close> an object a \<open>Filed\<close> is tied to.
\<close>

definition loop_iteration ::
  "'k sys \<Rightarrow> (int \<Rightarrow> handler \<Rightarrow> ('k, 'z) reactor_scheme \<Rightarrow> fault + ('k, 'z) reactor_scheme) \<Rightarrow>
     (task \<Rightarrow> ('k, 'z) reactor_scheme \<Rightarrow> fault + ('k, 'z) reactor_scheme) \<Rightarrow>
     (nat \<Rightarrow> ('k, 'z) reactor_scheme \<Rightarrow> filed option) \<Rightarrow> (('k, 'z) reactor_scheme \<Rightarrow> nat \<Rightarrow> bool) \<Rightarrow> nat \<Rightarrow>
     ('k, 'z) reactor_scheme \<Rightarrow> fault + ('k, 'z) reactor_scheme" where
  "loop_iteration S run exec getf alive l w =
     bindE (Epoller_epoll S l kEpollTime [] (upd_loop l (\<lambda>e. e\<lparr>activeFileds := []\<rparr>) w)) (\<lambda>(now, active, w).
     bindE (runE (\<lambda>fp. handleEvent (getf fp) alive (run now)) active
              (upd_loop l (\<lambda>e. e\<lparr>epollReturnTime := now, activeFileds := active\<rparr>) w)) (\<lambda>w.
     doPendFunc exec l w))"

text \<open>The \<open>while\<close> loop may run for ever: \<open>None\<close> is not returning.\<close>

partial_function (option) loop_while ::
  "(('k, 'z) reactor_scheme \<Rightarrow> fault + ('k, 'z) reactor_scheme) \<Rightarrow> nat \<Rightarrow>
     ('k, 'z) reactor_scheme \<Rightarrow> (fault + ('k, 'z) reactor_scheme) option" where
  "loop_while iter l w =
     (if quit (loopOf w l) then Some (Inr w)
      else case iter w of Inl e \<Rightarrow> Some (Inl e) | Inr w' \<Rightarrow> loop_while iter l w')"

definition EventLoop_loop ::
  "'k sys \<Rightarrow> (int \<Rightarrow> handler \<Rightarrow> ('k, 'z) reactor_scheme \<Rightarrow> fault + ('k, 'z) reactor_scheme) \<Rightarrow>
     (task \<Rightarrow> ('k, 'z) reactor_scheme \<Rightarrow> fault + ('k, 'z) reactor_scheme) \<Rightarrow>
     (nat \<Rightarrow> ('k, 'z) reactor_scheme \<Rightarrow> filed option) \<Rightarrow> (('k, 'z) reactor_scheme \<Rightarrow> nat \<Rightarrow> bool) \<Rightarrow> nat \<Rightarrow>
     ('k, 'z) reactor_scheme \<Rightarrow> (fault + ('k, 'z) reactor_scheme) option" where
  "EventLoop_loop S run exec getf alive l w =
     map_option (\<lambda>r. bindE r (\<lambda>w. Inr (upd_loop l (\<lambda>e. e\<lparr>looping := False\<rparr>) w)))
       (loop_while (loop_iteration S run exec getf alive l) l
         (upd_loop l (\<lambda>e. e\<lparr>looping := True, quit := False\<rparr>) w))"

text \<open>
  Constructor and destructor: the poller, the event descriptor and its \<open>Filed\<close> at address \<open>fp\<close>, at most
  one loop per thread. The destructor ends with that of the poller member.
\<close>

definition createEventfd :: "'k sys \<Rightarrow> 'k \<Rightarrow> fault + int \<times> 'k" where
  "createEventfd S k = (let (fd, k') = sys_eventfd S k in if fd < 0 then Inl ExitFailure else Inr (fd, k'))"

definition mkEventLoop ::
  "'k sys \<Rightarrow> int \<Rightarrow> nat \<Rightarrow> nat \<Rightarrow> ('k, 'z) reactor_scheme \<Rightarrow> fault + ('k, 'z) reactor_scheme" where
  "mkEventLoop S tid l fp w =
     bindE (mkEpoller S l w) (\<lambda>w.
     bindE (createEventfd S (kern w)) (\<lambda>(fd, k').
       let w = upd_filed fp (\<lambda>_. mkFiled l fd) (upd_loop l (\<lambda>_. \<lparr>looping = False, quit = False, threadId = tid,
             epollReturnTime = 0, wakeupFd = fd, wakeupFiled = fp, activeFileds = [],
             isCallPendFunc = False, pendFuncs = []\<rparr>) (w\<lparr>kern := k'\<rparr>))
       in if loopInThread w tid \<noteq> None then Inl ExitFailure
          else enableReading S fp (upd_filed fp (setReadCallback (HWakeupRead l))
                 (w\<lparr>loopInThread := (loopInThread w)(tid \<mapsto> l)\<rparr>))))"

definition destroyEventLoop ::
  "'k sys \<Rightarrow> int \<Rightarrow> nat \<Rightarrow> ('k, 'z) reactor_scheme \<Rightarrow> fault + ('k, 'z) reactor_scheme" where
  "destroyEventLoop S tid l w =
     bindE (disableAll S (wakeupFiled (loopOf w l)) w) (\<lambda>w.
     bindE (Filed_remove S (wakeupFiled (loopOf w l)) w) (\<lambda>w.
       Inr (destroyEpoller S l (w\<lparr>kern := sys_close S (wakeupFd (loopOf w l)) (kern w),
              loopInThread := (loopInThread w)(tid := None)\<rparr>))))"

section \<open>Requests for events\<close>

text \<open>
  What a \<open>Filed\<close>'s owner relies on when it asks for events: the request returns, the agreement of the
  registry holds again, and the events are as asked.
\<close>

definition set_mask ::
  "'k sys \<Rightarrow> nat \<Rightarrow> (u32 \<Rightarrow> u32) \<Rightarrow> ('k, 'z) machine_scheme \<Rightarrow> fault + ('k, 'z) machine_scheme" where
  "set_mask S fp m w = Filed_update S fp (upd_filed fp (\<lambda>f. f\<lparr>events := m (events f)\<rparr>) w)"

lemma set_mask_eqs:
  "enableReading S fp w = set_mask S fp mask_enableReading w"
  "disableReading S fp w = set_mask S fp mask_disableReading w"
  "enableWriting S fp w = set_mask S fp mask_enableWriting w"
  "disableWriting S fp w = set_mask S fp mask_disableWriting w"
  "disableAll S fp w = set_mask S fp (\<lambda>_. kNoneEvent) w"
  by (simp_all add: set_mask_def enableReading_def disableReading_def enableWriting_def
      disableWriting_def disableAll_def)

lemma set_mask_exact:
  assumes "epoll_ctl_law S itst" and "registry_inv itst L live w" and "fp \<in> live"
  obtains k' where "set_mask S fp m w = Inr (updated fp (m (events (filedOf w fp))) k' w)"
    and "registry_inv itst L live (updated fp (m (events (filedOf w fp))) k' w)"
proof -
  let ?ev = "m (events (filedOf w fp))"
  have ok: "filed_ok itst w fp" using registry_okD [OF assms(2,3)] by simp
  obtain k' where k': "Epoller_update S (filed_loop (filedOf w fp)) fp
      (upd_filed fp (\<lambda>f. f\<lparr>events := ?ev\<rparr>) w) = Inr (updated fp ?ev k' w)"
    "itst k' = set_interest itst w fp
       (if next_index (index (filedOf w fp)) ?ev = kAdded then Some (?ev, fp) else None)"
    using Epoller_update_exact [OF assms(1) ok] by metis
  have "set_mask S fp m w = Epoller_update S (filed_loop (filedOf w fp)) fp
      (upd_filed fp (\<lambda>f. f\<lparr>events := ?ev\<rparr>) w)"
    by (simp add: set_mask_def Filed_update_def EventLoop_update_def upd_filed_def)
  with that k' registry_updated [OF assms(2,3) k'(2)] show ?thesis by simp
qed

lemma Filed_remove_exact:
  assumes "epoll_ctl_law S itst" and "registry_inv itst L live w" and "fp \<in> live"
  obtains k' where "Filed_remove S fp w = Inr (removed fp k' w)"
    and "registry_inv itst L live (removed fp k' w)"
    and "registry_inv itst L (live - {fp}) (removed fp k' w)"
proof -
  have "filed_ok itst w fp" using registry_okD [OF assms(2,3)] by simp
  then obtain k' where k': "Epoller_remove S (filed_loop (filedOf w fp)) fp w = Inr (removed fp k' w)"
    "itst k' = set_interest itst w fp None"
    using Epoller_remove_exact [OF assms(1)] by metis
  note inv = registry_removed [OF assms(2,3) k'(2)]
  moreover have "index (filedOf (removed fp k' w) fp) = kNew"
    by (simp add: removed_def Let_def)
  ultimately show ?thesis
    using that [of k'] k'(1) registry_leave [OF inv] by (simp add: Filed_remove_def EventLoop_remove_def)
qed

lemma events_updated: "events (filedOf (updated fp ev k' w) q) = (if q = fp then ev else events (filedOf w q))"
  by (simp add: updated_def Let_def)

lemma logs_updated: "logs (updated fp ev k' w) = logs w"
  by (simp add: updated_def Let_def)

locale event_registry =
  fixes inv :: "'w \<Rightarrow> bool"
    and mem :: "nat \<Rightarrow> bool"
    and evs :: "'w \<Rightarrow> nat \<Rightarrow> u32"
    and set_ev :: "nat \<Rightarrow> (u32 \<Rightarrow> u32) \<Rightarrow> 'w \<Rightarrow> fault + 'w"
  assumes set_total: "inv w \<Longrightarrow> mem fp \<Longrightarrow> \<exists>w'. set_ev fp m w = Inr w'"
    and set_inv: "inv w \<Longrightarrow> mem fp \<Longrightarrow> set_ev fp m w = Inr w' \<Longrightarrow> inv w'"
    and set_evs: "inv w \<Longrightarrow> mem fp \<Longrightarrow> set_ev fp m w = Inr w' \<Longrightarrow> evs w' = (evs w)(fp := m (evs w fp))"
begin

lemma set_run:
  assumes "inv w" and "\<forall>r \<in> set rs. mem (fst r)"
  shows "\<exists>w'. runE (\<lambda>(fp, m). set_ev fp m) rs w = Inr w' \<and> inv w' \<and>
    evs w' = fold (\<lambda>(fp, m) e. e(fp := m (e fp))) rs (evs w)"
  using assms
proof (induction rs arbitrary: w)
  case Nil
  then show ?case by simp
next
  case (Cons r rs)
  obtain fp m where r: "r = (fp, m)" by fastforce
  with Cons.prems have mem: "mem fp" "\<forall>r \<in> set rs. mem (fst r)" by simp_all
  then obtain w1 where w1: "set_ev fp m w = Inr w1"
    using set_total Cons.prems(1) by blast
  then have "inv w1" and e: "evs w1 = (evs w)(fp := m (evs w fp))"
    using set_inv set_evs Cons.prems(1) mem(1) by blast+
  from Cons.IH [OF this(1) mem(2)] show ?case
    by (simp add: r w1 e)
qed

end

interpretation filed_events: event_registry
  "\<lambda>w. epoll_ctl_law S itst \<and> registry_inv itst L live w \<and> logs w = lg"
  "\<lambda>fp. fp \<in> live" "\<lambda>w fp. events (filedOf w fp)" "set_mask S"
  for S :: "'k sys" and itst L live lg
proof unfold_locales
  fix w :: "('k, 'z) machine_scheme" and fp m
  assume inv: "epoll_ctl_law S itst \<and> registry_inv itst L live w \<and> logs w = lg" and fp: "fp \<in> live"
  then obtain k' where k': "set_mask S fp m w = Inr (updated fp (m (events (filedOf w fp))) k' w)"
    "registry_inv itst L live (updated fp (m (events (filedOf w fp))) k' w)"
    using set_mask_exact by metis
  then show "\<exists>w'. set_mask S fp m w = Inr w'" by blast
  fix w'
  assume w': "set_mask S fp m w = Inr w'"
  show "epoll_ctl_law S itst \<and> registry_inv itst L live w' \<and> logs w' = lg"
    using inv k' w' by (auto simp: logs_updated)
  show "(\<lambda>q. events (filedOf w' q)) = (\<lambda>q. events (filedOf w q))(fp := m (events (filedOf w fp)))"
    using k' w' by (auto simp: events_updated)
qed

section \<open>Properties\<close>

text \<open>The five event requests of a \<open>Filed\<close>, as data.\<close>

datatype event_request =
    ReqEnableReading nat | ReqDisableReading nat | ReqEnableWriting nat | ReqDisableWriting nat | ReqDisableAll nat

fun do_request ::
  "'k sys \<Rightarrow> event_request \<Rightarrow> ('k, 'z) machine_scheme \<Rightarrow> fault + ('k, 'z) machine_scheme" where
  "do_request S (ReqEnableReading fp) w = enableReading S fp w"
| "do_request S (ReqDisableReading fp) w = disableReading S fp w"
| "do_request S (ReqEnableWriting fp) w = enableWriting S fp w"
| "do_request S (ReqDisableWriting fp) w = disableWriting S fp w"
| "do_request S (ReqDisableAll fp) w = disableAll S fp w"

fun request_mask :: "event_request \<Rightarrow> nat \<times> (u32 \<Rightarrow> u32)" where
  "request_mask (ReqEnableReading fp) = (fp, mask_enableReading)"
| "request_mask (ReqDisableReading fp) = (fp, mask_disableReading)"
| "request_mask (ReqEnableWriting fp) = (fp, mask_enableWriting)"
| "request_mask (ReqDisableWriting fp) = (fp, mask_disableWriting)"
| "request_mask (ReqDisableAll fp) = (fp, \<lambda>_. kNoneEvent)"

lemma do_request_mask: "do_request S r w = (case request_mask r of (fp, m) \<Rightarrow> set_mask S fp m w)"
  by (cases r) (simp_all add: set_mask_eqs)

lemma do_request_eq: "do_request S = (\<lambda>r. case request_mask r of (fp, m) \<Rightarrow> set_mask S fp m)"
  by (intro ext) (simp add: do_request_mask split: prod.split)

lemma do_requests_masks:
  "runE (do_request S) rs w = runE (\<lambda>(fp, m). set_mask S fp m) (map request_mask rs) w"
  by (simp add: runE_map do_request_eq)

text \<open>
  Any sequence of event requests (\<open>enableReading\<close>, \<open>disableReading\<close>, \<open>enableWriting\<close>,
  \<open>disableWriting\<close>, \<open>disableAll\<close>) on live \<open>Filed\<close>s returns, reaches no fatal or error line, keeps index,
  map and kernel in agreement, and leaves every \<open>Filed\<close> with exactly the events its requests compute.
\<close>

theorem event_requests_safe:
  assumes "epoll_ctl_law S itst" and "registry_inv itst L live w"
    and "\<forall>r \<in> set rs. fst (request_mask r) \<in> live"
  shows "\<exists>w'. runE (do_request S) rs w = Inr w' \<and> registry_inv itst L live w' \<and> logs w' = logs w \<and>
    (\<lambda>fp. events (filedOf w' fp)) =
      fold (\<lambda>(fp, m) e. e(fp := m (e fp))) (map request_mask rs) (\<lambda>fp. events (filedOf w fp))"
proof -
  have "\<forall>r \<in> set (map request_mask rs). fst r \<in> live" using assms(3) by simp
  with filed_events.set_run [of S itst L live w "logs w" "map request_mask rs"] assms(1,2)
  show ?thesis by (simp add: do_requests_masks)
qed

theorem event_requests_safe_witness:
  "\<exists>w'. runE (do_request sim_sys) [ReqEnableReading 0, ReqEnableWriting 0, ReqDisableAll 0, ReqDisableAll 0]
     demo_machine = Inr w' \<and> registry_inv sim_interest {0} {0} w'"
  using event_requests_safe [OF sim_epoll_ctl_law demo_registry,
      of "[ReqEnableReading 0, ReqEnableWriting 0, ReqDisableAll 0, ReqDisableAll 0]"]
  by auto

text \<open>
  Handling a wake-up does not consume it: \<open>handelwakeupRead\<close> writes to the event descriptor where it
  should read, so the counter never falls and the descriptor stays readable. Once a loop has been woken,
  its level-triggered \<open>epoll_wait\<close> never blocks again, however often the handler runs.
\<close>

theorem wakeup_never_drained:
  assumes "eventfd_law S cnt" and "cnt (kern w) (wakeupFd (loopOf w l)) = Some c" and "0 < c"
  shows "\<exists>w' c'. runE (\<lambda>_ w. Inr (handelwakeupRead S l w) :: fault + _) (replicate n ()) w = Inr w' \<and>
    cnt (kern w') (wakeupFd (loopOf w' l)) = Some c' \<and> c \<le> c'"
  using assms(2,3)
proof (induction n arbitrary: w c)
  case 0
  then show ?case by auto
next
  case (Suc n)
  obtain m k' where wr: "sys_write S (wakeupFd (loopOf w l)) wake_bytes (kern w) = (m, k')"
    by fastforce
  from eventfd_positive [OF assms(1) wr Suc.prems(1)] obtain c1 where
    c1: "cnt k' (wakeupFd (loopOf w l)) = Some c1" "c \<le> c1" "0 < c1" by blast
  let ?w1 = "handelwakeupRead S l w"
  have "kern ?w1 = k'" "loopOf ?w1 = loopOf w"
    using wr by (auto simp: handelwakeupRead_def log_line_def Let_def)
  with Suc.IH [of ?w1 c1] c1 show ?case by auto
qed

definition demo_reactor :: "ksim reactor" where
  "demo_reactor = \<lparr>kern = ksim0\<lparr>sim_event := (\<lambda>_. None)(4 \<mapsto> 0)\<rparr>, logs = [], filedOf = (\<lambda>_. mkFiled 0 7),
     epollerOf = (\<lambda>_. \<lparr>eventList = replicate 16 (0, 0), fileds = Map.empty, epollfd = 3, ownerLoop = 0\<rparr>),
     loopOf = (\<lambda>_. \<lparr>looping = False, quit = False, threadId = 1, epollReturnTime = 0, wakeupFd = 4,
       wakeupFiled = 0, activeFileds = [], isCallPendFunc = False, pendFuncs = []\<rparr>),
     loopInThread = (\<lambda>_. None)(1 \<mapsto> 0)\<rparr>"

theorem wakeup_never_drained_witness:
  "\<exists>w' c'. runE (\<lambda>_ w. Inr (handelwakeupRead sim_sys 0 w) :: fault + _) (replicate 3 ())
     (wakeup sim_sys 0 demo_reactor) = Inr w' \<and>
     sim_event (kern w') (wakeupFd (loopOf w' 0)) = Some c' \<and> 1 \<le> c'"
proof (rule wakeup_never_drained [OF sim_eventfd_law])
  show "sim_event (kern (wakeup sim_sys 0 demo_reactor)) (wakeupFd (loopOf (wakeup sim_sys 0 demo_reactor) 0)) = Some 1"
    by (simp add: wakeup_def demo_reactor_def sim_sys_def sim_write_def wake_bytes_def eventfd_max_def log_line_def)
qed simp

end
