(* ===== verification/LoopProtocol.thy ===== *)
theory LoopProtocol
  imports EventLoop "HOL-Library.Sublist"
begin

text \<open>
  One event loop and the threads that queue functions on it or quit it, as a state machine over the operations of
  \<open>EventLoop\<close>. A thread other than the loop's appends under the mutex, or sets \<open>quit_\<close>, and writes the wake-up later:
  its call is two steps, and anything may happen between them. The theorems: no function is lost, run twice or out
  of order, and one iteration runs whatever was queued before it; the loop never sleeps on a queued function or on
  \<open>quit_\<close>; and a loop that was told to quit leaves.
\<close>

section \<open>The machine\<close>

text \<open>
  Where the loop's thread is in \<open>loop()\<close>: before it, at the test of \<open>quit_\<close> at the head of the loop, about to wait or
  waiting in the poller, dispatching events, inside \<open>doPendFunc\<close> with the functions it swapped out and has not run
  yet, or after it.
\<close>

datatype pc = Before | Head | Polling | Handling | Running "task list" | Left

text \<open>
  \<open>waking\<close> holds the threads between the two parts of \<open>queueinLoop\<close> or \<open>quit\<close>; \<open>posted\<close> and \<open>ran\<close> are history: the
  functions queued and run so far, in order.
\<close>

record 'k proto =
  world :: "'k reactor"
  pc :: pc
  waking :: "int set"
  posted :: "task list"
  ran :: "task list"

fun batch :: "pc \<Rightarrow> task list" where
  "batch (Running ts) = ts"
| "batch _ = []"

text \<open>The functions queued and not taken yet.\<close>

abbreviation waiting :: "nat \<Rightarrow> 'k proto \<Rightarrow> task list" where
  "waiting l s \<equiv> pendFuncs (loopOf (world s) l)"

abbreviation told_to_quit :: "nat \<Rightarrow> 'k proto \<Rightarrow> bool" where
  "told_to_quit l s \<equiv> quit (loopOf (world s) l)"

type_synonym 'k counter = "'k \<Rightarrow> int \<Rightarrow> nat option"

definition wake_count :: "'k counter \<Rightarrow> nat \<Rightarrow> 'k reactor \<Rightarrow> nat option" where
  "wake_count cnt l w = cnt (kern w) (wakeupFd (loopOf w l))"

inductive loop_step :: "'k sys \<Rightarrow> nat \<Rightarrow> 'k proto \<Rightarrow> 'k proto \<Rightarrow> bool" for S l where
  enter: "pc s = Before \<Longrightarrow>
    loop_step S l s (s\<lparr>world := upd_loop l (\<lambda>e. e\<lparr>looping := True, quit := False\<rparr>) (world s), pc := Head\<rparr>)"
| go_on: "pc s = Head \<Longrightarrow> \<not> told_to_quit l s \<Longrightarrow> loop_step S l s (s\<lparr>pc := Polling\<rparr>)"
| leave: "pc s = Head \<Longrightarrow> told_to_quit l s \<Longrightarrow>
    loop_step S l s (s\<lparr>world := upd_loop l (\<lambda>e. e\<lparr>looping := False\<rparr>) (world s), pc := Left\<rparr>)"
| poll: "pc s = Polling \<Longrightarrow> loop_step S l s (s\<lparr>pc := Handling\<rparr>)"
| wakeup_read: "pc s = Handling \<Longrightarrow> loop_step S l s (s\<lparr>world := handelwakeupRead S l (world s)\<rparr>)"
| swap: "pc s = Handling \<Longrightarrow> begin_pend l (world s) = (ts, w') \<Longrightarrow>
    loop_step S l s (s\<lparr>world := w', pc := Running ts\<rparr>)"
| run: "pc s = Running (t # ts) \<Longrightarrow> loop_step S l s (s\<lparr>pc := Running ts, ran := ran s @ [t]\<rparr>)"
| finish: "pc s = Running [] \<Longrightarrow> loop_step S l s (s\<lparr>world := end_pend l (world s), pc := Head\<rparr>)"

text \<open>
  The other steps: a handler or a function of the loop queues on its own loop or quits it; another thread appends or
  sets \<open>quit_\<close>, and later wakes; and anything else happens in the process or the kernel that leaves this loop's
  fields and its wake-up counter alone.
\<close>

definition on_loop :: "pc \<Rightarrow> bool" where
  "on_loop p \<longleftrightarrow> p = Handling \<or> (\<exists>ts. p = Running ts)"

lemma on_loop_simps [simp]:
  "on_loop Handling" "on_loop (Running ts)" "\<not> on_loop Before" "\<not> on_loop Head" "\<not> on_loop Polling" "\<not> on_loop Left"
  by (simp_all add: on_loop_def)

inductive env_step :: "'k sys \<Rightarrow> 'k counter \<Rightarrow> nat \<Rightarrow> 'k proto \<Rightarrow> 'k proto \<Rightarrow> bool" for S cnt l where
  post_own: "on_loop (pc s) \<Longrightarrow>
    env_step S cnt l s (s\<lparr>world := queueinLoop S (threadId (loopOf (world s) l)) l t (world s),
      posted := posted s @ [t]\<rparr>)"
| post_other: "tid \<noteq> threadId (loopOf (world s) l) \<Longrightarrow> tid \<notin> waking s \<Longrightarrow>
    env_step S cnt l s (s\<lparr>world := post_func l t (world s), waking := insert tid (waking s),
      posted := posted s @ [t]\<rparr>)"
| wake_other: "tid \<in> waking s \<Longrightarrow>
    env_step S cnt l s (s\<lparr>world := wake_after_post S tid l (world s), waking := waking s - {tid}\<rparr>)"
| quit_own: "on_loop (pc s) \<Longrightarrow>
    env_step S cnt l s (s\<lparr>world := quit_loop S (threadId (loopOf (world s) l)) l (world s)\<rparr>)"
| quit_other: "tid \<noteq> threadId (loopOf (world s) l) \<Longrightarrow> tid \<notin> waking s \<Longrightarrow>
    env_step S cnt l s (s\<lparr>world := upd_loop l (\<lambda>e. e\<lparr>quit := True\<rparr>) (world s), waking := insert tid (waking s)\<rparr>)"
| elsewhere: "loopOf w' l = loopOf (world s) l \<Longrightarrow> wake_count cnt l w' = wake_count cnt l (world s) \<Longrightarrow>
    env_step S cnt l s (s\<lparr>world := w'\<rparr>)"

definition proto_init :: "'k counter \<Rightarrow> nat \<Rightarrow> 'k proto \<Rightarrow> bool" where
  "proto_init cnt l s \<longleftrightarrow> pc s = Before \<and> waking s = {} \<and> posted s = [] \<and> ran s = [] \<and>
     waiting l s = [] \<and> \<not> isCallPendFunc (loopOf (world s) l) \<and>
     wake_count cnt l (world s) \<noteq> None"

abbreviation proto_step :: "'k sys \<Rightarrow> 'k counter \<Rightarrow> nat \<Rightarrow> 'k proto \<Rightarrow> 'k proto \<Rightarrow> bool" where
  "proto_step S cnt l \<equiv> sup (loop_step S l) (env_step S cnt l)"

inductive proto_reachable :: "'k sys \<Rightarrow> 'k counter \<Rightarrow> nat \<Rightarrow> 'k proto \<Rightarrow> bool" for S cnt l where
  init: "proto_init cnt l s \<Longrightarrow> proto_reachable S cnt l s"
| own: "proto_reachable S cnt l s \<Longrightarrow> loop_step S l s s' \<Longrightarrow> proto_reachable S cnt l s'"
| env: "proto_reachable S cnt l s \<Longrightarrow> env_step S cnt l s s' \<Longrightarrow> proto_reachable S cnt l s'"

inductive_cases loop_stepE: "loop_step S l s s'"
inductive_cases env_stepE: "env_step S cnt l s s'"

section \<open>Invariant\<close>

definition proto_inv :: "'k counter \<Rightarrow> nat \<Rightarrow> 'k proto \<Rightarrow> bool" where
  "proto_inv cnt l s \<longleftrightarrow>
     posted s = ran s @ batch (pc s) @ waiting l s \<and>
     (isCallPendFunc (loopOf (world s) l) \<longleftrightarrow> (\<exists>ts. pc s = Running ts)) \<and>
     threadId (loopOf (world s) l) \<notin> waking s \<and>
     (\<exists>c. wake_count cnt l (world s) = Some c \<and>
        (pc s \<noteq> Handling \<longrightarrow> waiting l s \<noteq> [] \<longrightarrow> waking s \<noteq> {} \<or> 0 < c) \<and>
        (pc s = Polling \<longrightarrow> told_to_quit l s \<longrightarrow> waking s \<noteq> {} \<or> 0 < c))"

text \<open>Both writes to the event descriptor leave the loop alone and its counter positive.\<close>

lemma wakeup_effect:
  assumes "eventfd_law S cnt" and "wake_count cnt l w = Some c"
  shows "loopOf (wakeup S l w) = loopOf w"
    and "\<exists>c'. wake_count cnt l (wakeup S l w) = Some c' \<and> 0 < c'"
proof -
  obtain n k' where wr: "sys_write S (wakeupFd (loopOf w l)) wake_bytes (kern w) = (n, k')" by fastforce
  show "loopOf (wakeup S l w) = loopOf w"
    by (simp add: wakeup_def wr log_line_def Let_def)
  show "\<exists>c'. wake_count cnt l (wakeup S l w) = Some c' \<and> 0 < c'"
    using eventfd_positive [OF assms(1) wr] assms(2) by (auto simp: wakeup_def wr log_line_def wake_count_def Let_def)
qed

lemma handelwakeupRead_effect:
  assumes "eventfd_law S cnt" and "wake_count cnt l w = Some c"
  shows "loopOf (handelwakeupRead S l w) = loopOf w"
    and "\<exists>c'. wake_count cnt l (handelwakeupRead S l w) = Some c' \<and> 0 < c'"
proof -
  obtain n k' where wr: "sys_write S (wakeupFd (loopOf w l)) wake_bytes (kern w) = (n, k')" by fastforce
  show "loopOf (handelwakeupRead S l w) = loopOf w"
    by (simp add: handelwakeupRead_def wr log_line_def Let_def)
  show "\<exists>c'. wake_count cnt l (handelwakeupRead S l w) = Some c' \<and> 0 < c'"
    using eventfd_positive [OF assms(1) wr] assms(2)
    by (auto simp: handelwakeupRead_def wr log_line_def wake_count_def Let_def)
qed

lemma post_func_loop:
  "loopOf (post_func l t w) = (loopOf w)(l := (loopOf w l)\<lparr>pendFuncs := pendFuncs (loopOf w l) @ [t]\<rparr>)"
  "wake_count cnt l (post_func l t w) = wake_count cnt l w"
  by (simp_all add: post_func_def upd_loop_def wake_count_def)

lemma loop_step_inv:
  assumes "eventfd_law S cnt" and "loop_step S l s s'" and "proto_inv cnt l s"
  shows "proto_inv cnt l s'"
  using assms(2)
proof (cases rule: loop_step.cases)
  case wakeup_read
  obtain c where c: "wake_count cnt l (world s) = Some c" using assms(3) by (auto simp: proto_inv_def)
  with wakeup_read handelwakeupRead_effect [OF assms(1) c] assms(3) show ?thesis
    by (auto simp: proto_inv_def)
qed (use assms(3) in \<open>auto simp: proto_inv_def begin_pend_def end_pend_def upd_loop_def wake_count_def\<close>)

lemma env_step_inv:
  assumes law: "eventfd_law S cnt" and "env_step S cnt l s s'" and inv: "proto_inv cnt l s"
  shows "proto_inv cnt l s'"
  using assms(2)
proof (cases rule: env_step.cases)
  case (post_own t)
  obtain c where c: "wake_count cnt l (post_func l t (world s)) = Some c"
    using inv by (auto simp: proto_inv_def post_func_loop)
  show ?thesis
  proof (cases "isCallPendFunc (loopOf (world s) l)")
    case True
    with post_own inv wakeup_effect [OF law c] show ?thesis
      by (auto simp: proto_inv_def queueinLoop_def wake_after_post_def isLoopThread_def post_func_loop)
  next
    case False
    with post_own inv have "pc s = Handling"
      by (cases "pc s") (auto simp: proto_inv_def)
    with False post_own inv show ?thesis
      by (auto simp: proto_inv_def queueinLoop_def wake_after_post_def isLoopThread_def post_func_loop)
  qed
next
  case (post_other tid t)
  with inv show ?thesis by (auto simp: proto_inv_def post_func_loop)
next
  case (wake_other tid)
  obtain c where c: "wake_count cnt l (world s) = Some c" using inv by (auto simp: proto_inv_def)
  have "wake_after_post S tid l (world s) = wakeup S l (world s)"
    using wake_other inv by (auto simp: wake_after_post_def isLoopThread_def proto_inv_def)
  with wake_other inv wakeup_effect [OF law c] show ?thesis
    by (auto simp: proto_inv_def)
next
  case quit_own
  with inv show ?thesis by (auto simp: proto_inv_def quit_loop_def isLoopThread_def upd_loop_def wake_count_def)
next
  case (quit_other tid)
  with inv show ?thesis by (auto simp: proto_inv_def upd_loop_def wake_count_def)
next
  case (elsewhere w')
  with inv show ?thesis by (auto simp: proto_inv_def)
qed

lemma proto_reachable_inv:
  assumes "proto_reachable S cnt l s" and "eventfd_law S cnt"
  shows "proto_inv cnt l s"
  using assms(1)
proof induction
  case (init s)
  then show ?case by (auto simp: proto_init_def proto_inv_def)
next
  case (own s s')
  then show ?case using loop_step_inv [OF assms(2)] by blast
next
  case (env s s')
  then show ?case using env_step_inv [OF assms(2)] by blast
qed

lemma proto_run_reachable:
  assumes "(proto_step S cnt l)\<^sup>*\<^sup>* s s'" and "proto_reachable S cnt l s"
  shows "proto_reachable S cnt l s'"
  using assms by induction (auto intro: proto_reachable.own proto_reachable.env)

section \<open>One iteration runs what was queued before it\<close>

text \<open>
  What is known between the poller and the head of the loop of the functions \<open>P\<close> queued before: they are among those
  queued, then among those run and those being run, and at last among those run.
\<close>

definition runs_soon :: "task list \<Rightarrow> 'k proto \<Rightarrow> bool" where
  "runs_soon P s \<longleftrightarrow> (pc s = Polling \<or> pc s = Handling) \<and> prefix P (posted s) \<or>
     (\<exists>ts. pc s = Running ts \<and> prefix P (ran s @ ts)) \<or> prefix P (ran s)"

lemma loop_step_runs_soon:
  assumes "loop_step S l s s'" and "proto_inv cnt l s" and "runs_soon P s"
  shows "runs_soon P s'"
  using assms by cases (auto simp: runs_soon_def proto_inv_def begin_pend_def)

lemma env_step_runs_soon:
  assumes "env_step S cnt l s s'" and "runs_soon P s"
  shows "runs_soon P s'"
  using assms by cases (auto simp: runs_soon_def)

lemma run_runs_soon:
  assumes "(proto_step S cnt l)\<^sup>*\<^sup>* s s'" and "proto_reachable S cnt l s" and "eventfd_law S cnt" and "runs_soon P s"
  shows "runs_soon P s'"
  using assms(1)
proof induction
  case base
  show ?case by (rule assms(4))
next
  case (step y z)
  have "proto_inv cnt l y" by (rule proto_reachable_inv [OF proto_run_reachable [OF step(1) assms(2)] assms(3)])
  with step(2,3) show ?case by (auto intro: loop_step_runs_soon env_step_runs_soon)
qed

text \<open>Once the loop has left, and once it was told to quit, that stays so.\<close>

lemma left_stays:
  assumes "proto_step S cnt l s s'" and "pc s = Left"
  shows "pc s' = Left \<and> ran s' = ran s"
  using assms by (auto elim!: loop_stepE env_stepE)

lemma run_left_stays:
  assumes "(proto_step S cnt l)\<^sup>*\<^sup>* s s'" and "pc s = Left"
  shows "pc s' = Left \<and> ran s' = ran s"
  using assms(1)
proof induction
  case base
  show ?case using assms(2) by simp
next
  case (step y z)
  with left_stays [OF step(2)] show ?case by simp
qed

lemma quit_effects:
  assumes "eventfd_law S cnt" and "proto_inv cnt l s"
  shows "told_to_quit l (s\<lparr>world := handelwakeupRead S l (world s)\<rparr>) = told_to_quit l s"
    and "told_to_quit l (s\<lparr>world := wake_after_post S tid l (world s)\<rparr>) = told_to_quit l s"
    and "told_to_quit l (s\<lparr>world := queueinLoop S tid l t (world s)\<rparr>) = told_to_quit l s"
proof -
  obtain c where c: "wake_count cnt l (world s) = Some c" using assms(2) by (auto simp: proto_inv_def)
  then have "wake_count cnt l (post_func l t (world s)) = Some c" by (simp add: post_func_loop)
  from wakeup_effect(1) [OF assms(1) c] wakeup_effect(1) [OF assms(1) this] handelwakeupRead_effect(1) [OF assms(1) c]
  show "told_to_quit l (s\<lparr>world := handelwakeupRead S l (world s)\<rparr>) = told_to_quit l s"
    "told_to_quit l (s\<lparr>world := wake_after_post S tid l (world s)\<rparr>) = told_to_quit l s"
    "told_to_quit l (s\<lparr>world := queueinLoop S tid l t (world s)\<rparr>) = told_to_quit l s"
    by (simp_all add: queueinLoop_def wake_after_post_def post_func_loop)
qed

lemma quit_stays:
  assumes "proto_step S cnt l s s'" and law: "eventfd_law S cnt" and inv: "proto_inv cnt l s"
    and "told_to_quit l s" and "pc s \<noteq> Before"
  shows "told_to_quit l s' \<and> pc s' \<noteq> Before"
proof -
  note eff = quit_effects [OF law inv, simplified]
  from assms(1) consider "loop_step S l s s'" | "env_step S cnt l s s'" by auto
  then show ?thesis
  proof cases
    case 1
    then show ?thesis using assms(4,5) eff
      by cases (auto simp: begin_pend_def end_pend_def upd_loop_def)
  next
    case 2
    then show ?thesis using assms(4,5) eff
      by cases (auto simp: post_func_loop quit_loop_def isLoopThread_def upd_loop_def)
  qed
qed

lemma run_quit_stays:
  assumes "(proto_step S cnt l)\<^sup>*\<^sup>* s s'" and "proto_reachable S cnt l s" and law: "eventfd_law S cnt"
    and "told_to_quit l s" and "pc s \<noteq> Before"
  shows "told_to_quit l s' \<and> pc s' \<noteq> Before"
  using assms(1)
proof induction
  case base
  show ?case using assms(4,5) by simp
next
  case (step y z)
  have "proto_inv cnt l y" by (rule proto_reachable_inv [OF proto_run_reachable [OF step(1) assms(2)] law])
  with quit_stays [OF step(2) law] step(3) show ?case by blast
qed

section \<open>The loop's own runs\<close>

lemma run_batch:
  assumes "pc s = Running ts"
  shows "(loop_step S l ^^ length ts) s (s\<lparr>pc := Running [], ran := ran s @ ts\<rparr>)"
  using assms
proof (induction ts arbitrary: s)
  case Nil
  then show ?case by simp
next
  case (Cons t ts)
  let ?s = "s\<lparr>pc := Running ts, ran := ran s @ [t]\<rparr>"
  have "loop_step S l s ?s" using Cons.prems by (rule loop_step.run)
  with Cons.IH [of ?s] show ?case by (auto simp del: relpowp.simps intro: relpowp_Suc_I2)
qed

text \<open>
  \<open>gets n l s s' ts\<close>: in \<open>n\<close> steps of its own the loop runs \<open>ts\<close> and is back at its head, and \<open>quit_\<close> is as it was.
\<close>

definition gets :: "'k sys \<Rightarrow> nat \<Rightarrow> nat \<Rightarrow> task list \<Rightarrow> 'k proto \<Rightarrow> 'k proto \<Rightarrow> bool" where
  "gets S l n ts s s' \<longleftrightarrow> (loop_step S l ^^ n) s s' \<and> pc s' = Head \<and> posted s' = posted s \<and> ran s' = ran s @ ts \<and>
     told_to_quit l s' = told_to_quit l s"

lemma gets_after:
  assumes "loop_step S l s s1" and "gets S l n ts s1 s'" and "posted s1 = posted s" "ran s1 = ran s" "told_to_quit l s1 = told_to_quit l s"
  shows "gets S l (Suc n) ts s s'"
  using assms by (auto simp: gets_def simp del: relpowp.simps intro: relpowp_Suc_I2)

lemma gets_then:
  assumes "gets S l n ts s s1" and "gets S l m us s1 s'"
  shows "gets S l (n + m) (ts @ us) s s'"
  using relpowp_trans assms by (auto simp: gets_def)

lemma finish_batch:
  assumes "pc s = Running ts"
  shows "\<exists>s'. gets S l (Suc (length ts)) ts s s' \<and> waiting l s' = waiting l s"
proof -
  let ?s = "s\<lparr>world := end_pend l (world s), pc := Head, ran := ran s @ ts\<rparr>"
  have "loop_step S l (s\<lparr>pc := Running [], ran := ran s @ ts\<rparr>) ?s"
    by (auto intro!: loop_step.finish [THEN back_subst [of "loop_step S l _"]] proto.equality)
  from relpowp_Suc_I [OF run_batch [OF assms] this] show ?thesis
    by (intro exI [of _ ?s]) (simp add: gets_def end_pend_def upd_loop_def del: relpowp.simps)
qed

lemma handle_round:
  assumes "pc s = Handling"
  shows "\<exists>s'. gets S l (length (waiting l s) + 2) (waiting l s) s s'"
proof -
  obtain w' where w': "begin_pend l (world s) = (waiting l s, w')" by (simp add: begin_pend_def)
  let ?s = "s\<lparr>world := w', pc := Running (waiting l s)\<rparr>"
  have st: "loop_step S l s ?s" using assms w' by (rule loop_step.swap)
  obtain s' where "gets S l (Suc (length (waiting l s))) (waiting l s) ?s s'" using finish_batch [where s = ?s and S = S and l = l] by auto
  from gets_after [OF st this] w' show ?thesis by (auto simp: begin_pend_def upd_loop_def)
qed

lemma poll_round:
  assumes "pc s = Polling"
  shows "\<exists>s'. gets S l (length (waiting l s) + 3) (waiting l s) s s'"
proof -
  let ?s = "s\<lparr>pc := Handling\<rparr>"
  have st: "loop_step S l s ?s" using assms by (rule loop_step.poll)
  obtain s' where "gets S l (length (waiting l s) + 2) (waiting l s) ?s s'" using handle_round [where s = ?s] by auto
  from gets_after [OF st this] show ?thesis by (auto simp: numeral_3_eq_3 numeral_2_eq_2)
qed

lemma head_round:
  assumes "pc s = Head" and "\<not> told_to_quit l s"
  shows "\<exists>s'. gets S l (length (waiting l s) + 4) (waiting l s) s s'"
proof -
  let ?s = "s\<lparr>pc := Polling\<rparr>"
  have st: "loop_step S l s ?s" using assms by (rule loop_step.go_on)
  obtain s' where "gets S l (length (waiting l s) + 3) (waiting l s) ?s s'" using poll_round [where s = ?s] by auto
  from gets_after [OF st this] show ?thesis by (auto simp: numeral_eq_Suc)
qed

lemma gets_drains:
  assumes "gets S l n ts s s'" and "ran s @ ts = posted s" and "n \<le> b"
  shows "\<exists>n s'. (loop_step S l ^^ n) s s' \<and> ran s' = posted s \<and> posted s' = posted s \<and> pc s' = Head \<and> n \<le> b"
  using assms by (auto simp: gets_def simp del: relpowp.simps)

text \<open>The end of the loop, from its head.\<close>

lemma leave_after:
  assumes "gets S l n ts s s1" and "told_to_quit l s"
  shows "\<exists>s'. (loop_step S l ^^ Suc n) s s' \<and> pc s' = Left \<and> ran s' = ran s @ ts \<and> posted s' = posted s"
proof -
  let ?s = "s1\<lparr>world := upd_loop l (\<lambda>e. e\<lparr>looping := False\<rparr>) (world s1), pc := Left\<rparr>"
  have "loop_step S l s1 ?s" by (rule loop_step.leave) (use assms in \<open>simp_all add: gets_def\<close>)
  with assms(1) have "(loop_step S l ^^ Suc n) s ?s" by (auto simp: gets_def simp del: relpowp.simps intro: relpowp_Suc_I)
  then show ?thesis using assms(1) by (intro exI [of _ ?s]) (simp add: gets_def del: relpowp.simps)
qed

section \<open>Properties\<close>

definition demo_proto :: "ksim proto" where
  "demo_proto = \<lparr>world = demo_reactor, pc = Before, waking = {}, posted = [], ran = []\<rparr>"

text \<open>A run of the demo: the loop is entered and waits; thread 2 queues a function and wakes it.\<close>

definition demo_waits :: "ksim proto" where
  "demo_waits = demo_proto\<lparr>world := upd_loop 0 (\<lambda>e. e\<lparr>looping := True, quit := False\<rparr>) demo_reactor, pc := Polling\<rparr>"

definition demo_posted :: "ksim proto" where
  "demo_posted = demo_waits\<lparr>world := post_func 0 (TUser 5) (world demo_waits), waking := {2}, posted := [TUser 5]\<rparr>"

definition demo_woken :: "ksim proto" where
  "demo_woken = demo_posted\<lparr>world := wake_after_post sim_sys 2 0 (world demo_posted), waking := {}\<rparr>"

text \<open>Then thread 3 tells it to quit.\<close>

definition demo_quitting :: "ksim proto" where
  "demo_quitting = demo_woken\<lparr>world := upd_loop 0 (\<lambda>e. e\<lparr>quit := True\<rparr>) (world demo_woken), waking := {3}\<rparr>"

lemma demo_waits_reachable: "proto_reachable sim_sys sim_event 0 demo_waits"
proof -
  let ?s = "demo_proto\<lparr>world := upd_loop 0 (\<lambda>e. e\<lparr>looping := True, quit := False\<rparr>) (world demo_proto), pc := Head\<rparr>"
  have "proto_reachable sim_sys sim_event 0 demo_proto"
    by (rule proto_reachable.init) (simp add: proto_init_def demo_proto_def demo_reactor_def wake_count_def)
  moreover have "loop_step sim_sys 0 demo_proto ?s" by (rule loop_step.enter) (simp add: demo_proto_def)
  moreover have "loop_step sim_sys 0 ?s (?s\<lparr>pc := Polling\<rparr>)" by (rule loop_step.go_on) (simp_all add: upd_loop_def)
  moreover have "?s\<lparr>pc := Polling\<rparr> = demo_waits" by (simp add: demo_waits_def demo_proto_def)
  ultimately show ?thesis by (metis proto_reachable.own)
qed

lemma demo_post: "env_step sim_sys sim_event 0 demo_waits demo_posted"
  using env_step.post_other [of 2 demo_waits 0 sim_sys sim_event "TUser 5"]
  by (simp add: demo_proto_def demo_waits_def demo_posted_def demo_reactor_def upd_loop_def)

lemma demo_wake: "env_step sim_sys sim_event 0 demo_posted demo_woken"
  using env_step.wake_other [of 2 demo_posted sim_sys sim_event 0] by (simp add: demo_posted_def demo_woken_def)

lemmas demo_run_defs = demo_quitting_def demo_woken_def demo_posted_def demo_waits_def demo_proto_def

lemma demo_woken_state:
  "waking demo_woken = {}" "pc demo_woken = Polling" "waiting 0 demo_woken = [TUser 5]" "posted demo_woken = [TUser 5]"
  "ran demo_woken = []" "\<not> told_to_quit 0 demo_woken" "threadId (loopOf (world demo_woken) 0) = 1"
  by (simp_all add: demo_run_defs wake_after_post_def post_func_def upd_loop_def wakeup_def
      demo_reactor_def sim_sys_def sim_write_def log_line_def isLoopThread_def)

lemma demo_quit: "env_step sim_sys sim_event 0 demo_woken demo_quitting"
  using env_step.quit_other [of 3 demo_woken 0 sim_sys sim_event] demo_woken_state
  by (simp add: demo_quitting_def)

lemma demo_woken_reachable: "proto_reachable sim_sys sim_event 0 demo_woken"
  by (rule proto_reachable.env [OF proto_reachable.env [OF demo_waits_reachable demo_post] demo_wake])

lemma demo_quitting_reachable: "proto_reachable sim_sys sim_event 0 demo_quitting"
  by (rule proto_reachable.env [OF demo_woken_reachable demo_quit])

lemma demo_round: "\<exists>s'. (loop_step sim_sys 0)\<^sup>*\<^sup>* demo_woken s' \<and> pc s' = Head"
  using poll_round [of demo_woken sim_sys 0] demo_woken_state(2) by (auto simp: gets_def dest: relpowp_imp_rtranclp)

text \<open>
  C16. Whatever the interleaving of the loop's thread with the threads that queue on it or quit it, the functions handed to
  \<open>queueinLoop\<close> so far are, in the order of the appends and each once, those run, then those of the batch being run,
  then those pending. Whatever was queued by the time the loop waits in the poller has run when it is back at the head of
  the loop. And once \<open>loop()\<close> has left, because of \<open>quit_\<close>, what is still pending is never run.
\<close>

theorem queued_run_once_in_order:
  assumes "proto_reachable S cnt l s" and "eventfd_law S cnt" and "(proto_step S cnt l)\<^sup>*\<^sup>* s s'"
  shows "posted s' = ran s' @ batch (pc s') @ pendFuncs (loopOf (world s') l) \<and>
    (pc s = Polling \<and> pc s' = Head \<longrightarrow> prefix (posted s) (ran s')) \<and>
    (pc s = Left \<longrightarrow> ran s' = ran s)"
proof -
  have "proto_inv cnt l s'" by (rule proto_reachable_inv [OF proto_run_reachable [OF assms(3,1)] assms(2)])
  moreover have "prefix (posted s) (ran s')" if "pc s = Polling" "pc s' = Head"
    using run_runs_soon [OF assms(3,1,2), of "posted s"] that by (auto simp: runs_soon_def)
  ultimately show ?thesis using run_left_stays [OF assms(3)] by (auto simp: proto_inv_def)
qed

theorem queued_run_once_in_order_witness:
  "\<exists>s'. (loop_step sim_sys 0)\<^sup>*\<^sup>* demo_woken s' \<and> prefix [TUser 5] (ran s')"
proof -
  obtain s' where s': "(loop_step sim_sys 0)\<^sup>*\<^sup>* demo_woken s'" "pc s' = Head" using demo_round by blast
  have "(proto_step sim_sys sim_event 0)\<^sup>*\<^sup>* demo_woken s'" by (rule rtranclp_mono [THEN predicate2D, OF _ s'(1)]) auto
  from queued_run_once_in_order [OF demo_woken_reachable sim_eventfd_law this] s' demo_woken_state show ?thesis by auto
qed



text \<open>
  C29. The loop drains its queue: from every reachable state, unless it has left or is about to because it was told to
  quit, the loop's own steps alone, at most five more than there are functions waiting, run every function queued so
  far and nothing else. When it was told to quit while it waits or handles events, the functions pending still run.
\<close>

theorem loop_drains_queue:
  assumes "proto_reachable S cnt l s" and "eventfd_law S cnt" and "pc s \<noteq> Left"
    and "quit (loopOf (world s) l) \<Longrightarrow> pc s \<in> {Before, Polling, Handling}"
  shows "\<exists>n s'. (loop_step S l ^^ n) s s' \<and> ran s' = posted s \<and> posted s' = posted s \<and> pc s' = Head \<and>
    n \<le> length (batch (pc s)) + length (pendFuncs (loopOf (world s) l)) + 5"
proof -
  let ?b = "length (batch (pc s)) + length (waiting l s) + 5"
  have inv: "posted s = ran s @ batch (pc s) @ waiting l s"
    using proto_reachable_inv [OF assms(1,2)] by (simp add: proto_inv_def)
  show ?thesis
  proof (cases "pc s")
    case Before
    let ?s = "s\<lparr>world := upd_loop l (\<lambda>e. e\<lparr>looping := True, quit := False\<rparr>) (world s), pc := Head\<rparr>"
    obtain s' where s': "gets S l (length (waiting l s) + 4) (waiting l s) ?s s'"
      using head_round [where s = ?s and S = S and l = l] by (auto simp: upd_loop_def)
    have "(loop_step S l ^^ Suc (length (waiting l s) + 4)) s s'"
      using s' by (intro relpowp_Suc_I2 [where y = ?s]) (simp_all add: gets_def loop_step.enter Before del: relpowp.simps)
    with s' inv Before show ?thesis
      by (intro exI [of _ "Suc (length (waiting l s) + 4)"] exI [of _ s']) (simp add: gets_def del: relpowp.simps)
  next
    case Head
    then obtain s' where "gets S l (length (waiting l s) + 4) (waiting l s) s s'" using head_round [OF Head, of l S] assms(4) by auto
    from gets_drains [OF this] inv Head show ?thesis by simp
  next
    case Polling
    then obtain s' where "gets S l (length (waiting l s) + 3) (waiting l s) s s'" using poll_round [OF Polling, of S l] by auto
    from gets_drains [OF this] inv Polling show ?thesis by simp
  next
    case Handling
    then obtain s' where "gets S l (length (waiting l s) + 2) (waiting l s) s s'" using handle_round [OF Handling, of S l] by auto
    from gets_drains [OF this] inv Handling show ?thesis by simp
  next
    case (Running ts)
    obtain s1 where s1: "gets S l (Suc (length ts)) ts s s1" "waiting l s1 = waiting l s" using finish_batch [OF Running] by blast
    moreover have "\<not> told_to_quit l s" using assms(4) Running by auto
    ultimately obtain s' where "gets S l (length (waiting l s) + 4) (waiting l s) s1 s'"
      using head_round [of s1 l S] by (auto simp: gets_def)
    from gets_drains [OF gets_then [OF s1(1) this]] inv Running show ?thesis by simp
  qed (use assms(3) in simp)
qed

theorem loop_drains_queue_witness:
  "\<exists>n s'. (loop_step sim_sys 0 ^^ n) demo_woken s' \<and> ran s' = [TUser 5]"
  using loop_drains_queue [OF demo_woken_reachable sim_eventfd_law] by (auto simp: demo_woken_state)

text \<open>
  C31. A loop that was told to quit ends. From every reachable state in which the loop was entered and \<open>quit_\<close> is set: no
  interleaving takes \<open>quit_\<close> back; if the loop waits in the poller and no thread is between setting \<open>quit_\<close> and its wake-up,
  the event descriptor is readable, so that the wait returns; and the loop's own steps leave \<open>loop()\<close>, running the functions
  in hand, and those pending exactly if it had not yet taken them in this iteration.
\<close>

theorem quit_ends_loop:
  assumes "proto_reachable S cnt l s" and law: "eventfd_law S cnt"
    and q: "quit (loopOf (world s) l)" and "pc s \<noteq> Before" and "pc s \<noteq> Left"
  shows "(\<forall>s'. (proto_step S cnt l)\<^sup>*\<^sup>* s s' \<longrightarrow> quit (loopOf (world s') l)) \<and>
    (pc s = Polling \<and> waking s = {} \<longrightarrow> (\<exists>c > 0. cnt (kern (world s)) (wakeupFd (loopOf (world s) l)) = Some c)) \<and>
    (\<exists>n s'. (loop_step S l ^^ n) s s' \<and> pc s' = Left \<and> posted s' = posted s \<and>
       ran s' = ran s @ batch (pc s) @ (if pc s \<in> {Polling, Handling} then pendFuncs (loopOf (world s) l) else []))"
proof (intro conjI)
  show "\<forall>s'. (proto_step S cnt l)\<^sup>*\<^sup>* s s' \<longrightarrow> told_to_quit l s'"
    using run_quit_stays [OF _ assms(1) law q assms(4)] by blast
  show "pc s = Polling \<and> waking s = {} \<longrightarrow> (\<exists>c > 0. cnt (kern (world s)) (wakeupFd (loopOf (world s) l)) = Some c)"
    using proto_reachable_inv [OF assms(1) law] q by (auto simp: proto_inv_def wake_count_def)
  have "\<exists>n s1. gets S l n (batch (pc s) @ (if pc s \<in> {Polling, Handling} then waiting l s else [])) s s1"
  proof (cases "pc s")
    case Head
    then have "gets S l 0 [] s s" by (simp add: gets_def)
    with Head show ?thesis by auto
  next
    case Polling
    with poll_round [OF Polling, of S l] show ?thesis by auto
  next
    case Handling
    with handle_round [OF Handling, of S l] show ?thesis by auto
  next
    case (Running ts)
    with finish_batch [OF Running, of S l] show ?thesis by auto
  qed (use assms(4,5) in simp_all)
  then obtain n s1 where "gets S l n (batch (pc s) @ (if pc s \<in> {Polling, Handling} then waiting l s else [])) s s1" by blast
  from leave_after [OF this q]
  show "\<exists>n s'. (loop_step S l ^^ n) s s' \<and> pc s' = Left \<and> posted s' = posted s \<and>
       ran s' = ran s @ batch (pc s) @ (if pc s \<in> {Polling, Handling} then waiting l s else [])"
    by (elim exE conjE) (intro exI conjI, assumption+)
qed

theorem quit_ends_loop_witness:
  "\<exists>n s'. (loop_step sim_sys 0 ^^ n) demo_quitting s' \<and> pc s' = Left \<and> ran s' = [TUser 5]"
proof -
  have "told_to_quit 0 demo_quitting" "pc demo_quitting = Polling" "ran demo_quitting = []" "waiting 0 demo_quitting = [TUser 5]"
    using demo_woken_state by (simp_all add: demo_quitting_def upd_loop_def)
  then show ?thesis using quit_ends_loop [OF demo_quitting_reachable sim_eventfd_law] by auto
qed

end
