(* ===== verification/Socket.thy ===== *)
theory Socket
  imports Epoller
begin

text \<open>
  \<open>Socket\<close> (\<open>include/Socket.h\<close>, \<open>src/Socket.cpp\<close>): an owned socket descriptor. A \<open>Socket\<close> object is its
  descriptor; an operation is its system call with the code's handling of the result.
\<close>

section \<open>Operations\<close>

definition Socket_destroy :: "'k sys \<Rightarrow> int \<Rightarrow> ('k, 'z) machine_scheme \<Rightarrow> ('k, 'z) machine_scheme" where
  "Socket_destroy S fd w = w\<lparr>kern := sys_close S fd (kern w)\<rparr>"

definition Socket_bindAddress ::
  "'k sys \<Rightarrow> int \<Rightarrow> sockaddr \<Rightarrow> ('k, 'z) machine_scheme \<Rightarrow> fault + ('k, 'z) machine_scheme" where
  "Socket_bindAddress S fd a w =
     (let (r, k') = sys_bind S fd a (kern w)
      in if r \<noteq> 0 then Inl ExitFailure else Inr (w\<lparr>kern := k'\<rparr>))"

definition Socket_listen ::
  "'k sys \<Rightarrow> int \<Rightarrow> ('k, 'z) machine_scheme \<Rightarrow> fault + ('k, 'z) machine_scheme" where
  "Socket_listen S fd w =
     (let (r, k') = sys_listen S fd 1024 (kern w)
      in if r \<noteq> 0 then Inl ExitFailure else Inr (w\<lparr>kern := k'\<rparr>))"

text \<open>The peer's address is stored only when the call succeeds.\<close>

definition Socket_accept ::
  "'k sys \<Rightarrow> int \<Rightarrow> sockaddr \<Rightarrow> ('k, 'z) machine_scheme \<Rightarrow> int \<times> sockaddr \<times> ('k, 'z) machine_scheme" where
  "Socket_accept S fd peeraddr w =
     (let (connfd, addr, k') = sys_accept4 S fd (kern w)
      in (connfd, if 0 \<le> connfd then addr else peeraddr, w\<lparr>kern := k'\<rparr>))"

definition Socket_shutdownWrite ::
  "'k sys \<Rightarrow> int \<Rightarrow> ('k, 'z) machine_scheme \<Rightarrow> ('k, 'z) machine_scheme" where
  "Socket_shutdownWrite S fd w =
     (let (r, k') = sys_shutdown_wr S fd (kern w); w = w\<lparr>kern := k'\<rparr>
      in if r < 0 then log_line ERROR ''shutdownWrite error'' w else w)"

definition Socket_setopt ::
  "'k sys \<Rightarrow> int \<Rightarrow> sockopt \<Rightarrow> bool \<Rightarrow> ('k, 'z) machine_scheme \<Rightarrow> ('k, 'z) machine_scheme" where
  "Socket_setopt S fd opt on w = w\<lparr>kern := sys_setsockopt S fd opt (if on then 1 else 0) (kern w)\<rparr>"

definition setTcpNoDelay :: "'k sys \<Rightarrow> int \<Rightarrow> bool \<Rightarrow> ('k, 'z) machine_scheme \<Rightarrow> ('k, 'z) machine_scheme" where
  "setTcpNoDelay S fd on w = Socket_setopt S fd TCP_NODELAY on w"

definition setReuseAddr :: "'k sys \<Rightarrow> int \<Rightarrow> bool \<Rightarrow> ('k, 'z) machine_scheme \<Rightarrow> ('k, 'z) machine_scheme" where
  "setReuseAddr S fd on w = Socket_setopt S fd SO_REUSEADDR on w"

definition setReusePort :: "'k sys \<Rightarrow> int \<Rightarrow> bool \<Rightarrow> ('k, 'z) machine_scheme \<Rightarrow> ('k, 'z) machine_scheme" where
  "setReusePort S fd on w = Socket_setopt S fd SO_REUSEPORT on w"

definition setKeepAlive :: "'k sys \<Rightarrow> int \<Rightarrow> bool \<Rightarrow> ('k, 'z) machine_scheme \<Rightarrow> ('k, 'z) machine_scheme" where
  "setKeepAlive S fd on w = Socket_setopt S fd SO_KEEPALIVE on w"

section \<open>What the operations leave alone\<close>

text \<open>
  Only the kernel and the log change: \<open>same_objects\<close> says that two states of the process hold the same
  \<open>Filed\<close>s and pollers, and that the kernel watches the same events.
\<close>

definition same_objects ::
  "'k interest \<Rightarrow> ('k, 'z) machine_scheme \<Rightarrow> ('k, 'z) machine_scheme \<Rightarrow> bool" where
  "same_objects itst w w' \<longleftrightarrow> filedOf w' = filedOf w \<and> epollerOf w' = epollerOf w \<and>
     itst (kern w') = itst (kern w)"

lemma same_objects_refl [simp]: "same_objects itst w w"
  by (simp add: same_objects_def)

lemma same_objects_trans: "same_objects itst u v \<Longrightarrow> same_objects itst v w \<Longrightarrow> same_objects itst u w"
  by (simp add: same_objects_def)

lemma same_objects_registry:
  assumes "same_objects itst w w'" and "registry_inv itst L live w"
  shows "registry_inv itst L live w'"
proof (rule registry_frame [OF assms(2)])
  show "itst (kern w') = itst (kern w)" using assms(1) by (simp add: same_objects_def)
  show "same_registration (filedOf w fp) (filedOf w' fp)" for fp
    using assms(1) by (simp add: same_objects_def same_registration_def)
qed (use assms(1) in \<open>simp_all add: same_objects_def\<close>)

lemma same_objects_log: "same_objects itst w (log_line lv m w')  \<longleftrightarrow> same_objects itst w w'"
  by (simp add: same_objects_def log_line_def)

lemma shutdownWrite_objects:
  assumes "interest_frame S itst"
  shows "same_objects itst w (Socket_shutdownWrite S fd w)"
proof -
  obtain r k' where "sys_shutdown_wr S fd (kern w) = (r, k')" by fastforce
  with interest_frameD(4) [OF assms this] show ?thesis
    by (simp add: Socket_shutdownWrite_def same_objects_def log_line_def Let_def)
qed

lemma setopt_objects: "interest_frame S itst \<Longrightarrow> same_objects itst w (Socket_setopt S fd opt on w)"
  by (simp add: Socket_setopt_def same_objects_def interest_frameD(6))

end
