(* ===== verification/ByteBuffer.thy ===== *)
theory ByteBuffer
  imports Kernel
begin

text \<open>
  \<open>Buffer\<close> (\<open>include/Buffer.h\<close>, \<open>src/Buffer.cpp\<close>): a byte vector with a reader and a writer
  index. All index arithmetic is done in \<open>size_t\<close>, so it wraps where the code's does.
\<close>

section \<open>State and observers\<close>

definition kCheapPrepend :: size_t where "kCheapPrepend = 8"
definition kInitialSize :: size_t where "kInitialSize = 1024"

record buffer =
  storage :: "byte list"
  readerIndex :: size_t
  writerIndex :: size_t

definition mkBuffer :: "size_t \<Rightarrow> buffer" where
  "mkBuffer initialSize =
     \<lparr>storage = replicate (unat (kCheapPrepend + initialSize)) 0,
      readerIndex = kCheapPrepend, writerIndex = kCheapPrepend\<rparr>"

definition readableBytes :: "buffer \<Rightarrow> size_t" where
  "readableBytes b = writerIndex b - readerIndex b"

definition writableBytes :: "buffer \<Rightarrow> size_t" where
  "writableBytes b = of_nat (length (storage b)) - writerIndex b"

definition prependableBytes :: "buffer \<Rightarrow> size_t" where
  "prependableBytes b = readerIndex b"

text \<open>\<open>peek\<close> and \<open>beginWrite\<close> are pointers into the vector: offsets from \<open>begin()\<close>.\<close>

definition peek :: "buffer \<Rightarrow> nat" where
  "peek b = unat (readerIndex b)"

definition beginWrite :: "buffer \<Rightarrow> nat" where
  "beginWrite b = unat (writerIndex b)"

section \<open>Operations\<close>

definition retrieveAll :: "buffer \<Rightarrow> buffer" where
  "retrieveAll b = b\<lparr>readerIndex := kCheapPrepend, writerIndex := kCheapPrepend\<rparr>"

definition retrieve :: "size_t \<Rightarrow> buffer \<Rightarrow> buffer" where
  "retrieve len b =
     (if len < readableBytes b then b\<lparr>readerIndex := readerIndex b + len\<rparr> else retrieveAll b)"

definition retrieveAsString :: "size_t \<Rightarrow> buffer \<Rightarrow> fault + byte list \<times> buffer" where
  "retrieveAsString len b =
     bindE (read_block (int (peek b)) (unat len) (storage b)) (\<lambda>result. Inr (result, retrieve len b))"

definition retrieveAllAsString :: "buffer \<Rightarrow> fault + byte list \<times> buffer" where
  "retrieveAllAsString b = retrieveAsString (readableBytes b) b"

text \<open>\<open>std::vector<char>::resize\<close>: beyond \<open>max_size()\<close> (\<open>PTRDIFF_MAX\<close>) it throws \<open>std::length_error\<close>.\<close>

definition vector_resize :: "size_t \<Rightarrow> byte list \<Rightarrow> fault + byte list" where
  "vector_resize n v =
     (if unat n < 2 ^ 63 then Inr (take (unat n) v @ replicate (unat n - length v) 0)
      else Inl LengthError)"

definition makeSpace :: "size_t \<Rightarrow> buffer \<Rightarrow> fault + buffer" where
  "makeSpace len b =
     (if writableBytes b + prependableBytes b < len + kCheapPrepend
      then bindE (vector_resize (writerIndex b + len) (storage b)) (\<lambda>v. Inr (b\<lparr>storage := v\<rparr>))
      else let readable = readableBytes b in
        Inr (b\<lparr>storage := copy_within (unat readable) (unat (readerIndex b)) (unat kCheapPrepend)
                             (storage b),
               readerIndex := kCheapPrepend,
               writerIndex := kCheapPrepend + readable\<rparr>))"

definition ensureWritableBytes :: "size_t \<Rightarrow> buffer \<Rightarrow> fault + buffer" where
  "ensureWritableBytes len b = (if writableBytes b < len then makeSpace len b else Inr b)"

definition buffer_append :: "byte list \<Rightarrow> buffer \<Rightarrow> fault + buffer" where
  "buffer_append d b =
     bindE (ensureWritableBytes (of_nat (length d)) b) (\<lambda>b.
     bindE (write_block (beginWrite b) d (storage b)) (\<lambda>v.
       Inr (b\<lparr>storage := v, writerIndex := writerIndex b + of_nat (length d)\<rparr>)))"

text \<open>
  \<open>readFd\<close> reads into the free tail of the vector and, when that tail is shorter than 64 KiB, into a
  64 KiB array on the stack as well. \<open>readv\<close> fills the vectors in order, so of the bytes \<open>d\<close> it placed
  the first \<open>writable\<close> are in the vector and the others at the start of \<open>extrabuff\<close>.
\<close>

definition kExtraSize :: nat where "kExtraSize = 65536"

definition readFd_iov :: "buffer \<Rightarrow> nat list" where
  "readFd_iov b = (if unat (writableBytes b) < kExtraSize then [unat (writableBytes b), kExtraSize]
     else [unat (writableBytes b)])"

definition readFd ::
  "'k sys \<Rightarrow> int \<Rightarrow> int \<Rightarrow> buffer \<Rightarrow> 'k \<Rightarrow> fault + int \<times> int \<times> buffer \<times> 'k" where
  "readFd S fd saveErrno b k =
     (let writable = writableBytes b;
          iov = readFd_iov b;
          (n, d, k') = sys_readv S fd iov k;
          filled = overwrite (beginWrite b) (take (unat writable) d) (storage b);
          extrabuff = overwrite 0 (drop (unat writable) d) (replicate kExtraSize 0)
      in if n < 0 then Inr (n, sys_errno S k', b, k')
         else if of_int n \<le> writable
         then Inr (n, saveErrno,
                b\<lparr>storage := filled, writerIndex := writerIndex b + of_int n\<rparr>, k')
         else bindE (read_block 0 (unat (of_int n - writable :: size_t)) extrabuff) (\<lambda>extra.
              bindE (buffer_append extra
                       (b\<lparr>storage := filled, writerIndex := of_nat (length (storage b))\<rparr>)) (\<lambda>b'.
                Inr (n, saveErrno, b', k'))))"

definition writeFd ::
  "'k sys \<Rightarrow> int \<Rightarrow> int \<Rightarrow> buffer \<Rightarrow> 'k \<Rightarrow> fault + int \<times> int \<times> 'k" where
  "writeFd S fd saveErrno b k =
     bindE (read_block (int (peek b)) (unat (readableBytes b)) (storage b)) (\<lambda>d.
       let (n, k') = sys_write S fd d k
       in Inr (n, if n < 0 then sys_errno S k' else saveErrno, k'))"

section \<open>Invariant and abstraction\<close>

text \<open>
  The picture of \<open>Buffer.h\<close>: \<open>0 <= kCheapPrepend <= readerIndex <= writerIndex <= size\<close>, in a vector
  no longer than \<open>max_size()\<close>. The content is what lies between the two indices.
\<close>

definition buffer_inv :: "buffer \<Rightarrow> bool" where
  "buffer_inv b \<longleftrightarrow> 8 \<le> unat (readerIndex b) \<and> unat (readerIndex b) \<le> unat (writerIndex b) \<and>
     unat (writerIndex b) \<le> length (storage b) \<and> length (storage b) < 2 ^ 63"

definition content :: "buffer \<Rightarrow> byte list" where
  "content b = take (unat (writerIndex b) - unat (readerIndex b))
                 (drop (unat (readerIndex b)) (storage b))"

definition has_room :: "nat \<Rightarrow> buffer \<Rightarrow> bool" where
  "has_room n b \<longleftrightarrow> unat (writerIndex b) + n < 2 ^ 63"

lemma unat_kCheapPrepend [simp]: "unat kCheapPrepend = 8"
  by (simp add: kCheapPrepend_def)

lemma buffer_inv_bounds:
  assumes "buffer_inv b"
  shows "unat (readableBytes b) = unat (writerIndex b) - unat (readerIndex b)"
    and "unat (writableBytes b) = length (storage b) - unat (writerIndex b)"
    and "unat (prependableBytes b) = unat (readerIndex b)"
  using assms
  by (simp_all add: buffer_inv_def readableBytes_def writableBytes_def prependableBytes_def size_simps)

lemma length_content: "buffer_inv b \<Longrightarrow> length (content b) = unat (readableBytes b)"
  by (auto simp: buffer_inv_bounds content_def buffer_inv_def)

lemma mkBuffer_inv: "unat n < 2 ^ 62 \<Longrightarrow> buffer_inv (mkBuffer n) \<and> content (mkBuffer n) = []"
  by (simp add: mkBuffer_def buffer_inv_def content_def size_simps)

lemma retrieveAll_inv:
  "buffer_inv b \<Longrightarrow> buffer_inv (retrieveAll b) \<and> content (retrieveAll b) = []"
  by (auto simp: buffer_inv_def retrieveAll_def content_def)

lemma retrieve_inv:
  assumes "buffer_inv b"
  shows "buffer_inv (retrieve n b) \<and> content (retrieve n b) = drop (unat n) (content b)"
proof (cases "n < readableBytes b")
  case True
  with assms have n: "unat n < unat (writerIndex b) - unat (readerIndex b)"
    by (simp add: size_less_iff buffer_inv_bounds)
  with assms have "unat (readerIndex b + n) = unat (readerIndex b) + unat n"
    by (intro unat_size_add) (auto simp: buffer_inv_def)
  with True assms n show ?thesis
    by (auto simp: retrieve_def buffer_inv_def content_def drop_take add.commute)
next
  case False
  with assms have "length (content b) \<le> unat n"
    by (simp add: length_content size_less_iff)
  with False assms show ?thesis
    by (simp add: retrieve_def retrieveAll_inv)
qed

section \<open>Making room and appending\<close>

text \<open>
  The two branches of \<open>makeSpace\<close>, when \<open>len\<close> does not fit in the tail: growing the vector keeps both
  indices, sliding the content to the front keeps the vector's size.
\<close>

lemma makeSpace_grow:
  assumes "buffer_inv b" and "unat (writableBytes b) < unat len" and "has_room (unat len) b"
    and "unat (writableBytes b) + unat (prependableBytes b) < unat len + 8"
  shows "\<exists>v. makeSpace len b = Inr (b\<lparr>storage := storage b @ v\<rparr>) \<and>
    length (storage b @ v) = unat (writerIndex b) + unat len"
proof -
  have bounds: "unat (writerIndex b) + unat len < 2 ^ 63" "unat (readerIndex b) \<le> unat (writerIndex b)"
    "unat (writerIndex b) \<le> length (storage b)" "length (storage b) < 2 ^ 63"
    using assms by (auto simp: has_room_def buffer_inv_def)
  have sum: "unat (writerIndex b + len) = unat (writerIndex b) + unat len"
    using bounds by (intro unat_size_add) simp
  have "writableBytes b + prependableBytes b < len + kCheapPrepend"
    using assms bounds by (simp add: size_simps buffer_inv_bounds)
  moreover have "length (storage b) \<le> unat (writerIndex b) + unat len"
    using assms by (simp add: buffer_inv_bounds)
  ultimately show ?thesis
    using bounds
    by (intro exI [of _ "replicate (unat (writerIndex b) + unat len - length (storage b)) 0"])
      (simp add: makeSpace_def vector_resize_def sum)
qed

lemma makeSpace_slide:
  assumes "buffer_inv b" and "unat len + 8 \<le> unat (writableBytes b) + unat (prependableBytes b)"
  shows "makeSpace len b = Inr (b\<lparr>
     storage := copy_within (unat (readableBytes b)) (unat (readerIndex b)) 8 (storage b),
     readerIndex := kCheapPrepend, writerIndex := kCheapPrepend + readableBytes b\<rparr>)"
proof -
  have "unat (writableBytes b + prependableBytes b) = unat (writableBytes b) + unat (prependableBytes b)"
    using assms(1) by (intro unat_size_add) (auto simp: buffer_inv_bounds buffer_inv_def)
  moreover have "unat len + 8 < 2 ^ 64"
    using assms by (auto simp: buffer_inv_bounds buffer_inv_def)
  then have "unat (len + kCheapPrepend) = unat len + 8"
    by (simp add: size_simps)
  ultimately have "\<not> writableBytes b + prependableBytes b < len + kCheapPrepend"
    using assms(2) by (simp add: size_less_iff)
  then show ?thesis by (simp add: makeSpace_def Let_def)
qed

lemma slide_inv:
  assumes "buffer_inv b"
    and "b' = b\<lparr>storage := copy_within (unat (readableBytes b)) (unat (readerIndex b)) 8 (storage b),
           readerIndex := kCheapPrepend, writerIndex := kCheapPrepend + readableBytes b\<rparr>"
  shows "buffer_inv b'" and "content b' = content b"
    and "unat (writerIndex b') = 8 + unat (readableBytes b)"
proof -
  have r: "8 \<le> unat (readerIndex b)" "unat (readerIndex b) \<le> unat (writerIndex b)"
    "unat (writerIndex b) \<le> length (storage b)" "length (storage b) < 2 ^ 63"
    using assms(1) by (auto simp: buffer_inv_def)
  then show w: "unat (writerIndex b') = 8 + unat (readableBytes b)"
    using assms by (simp add: size_simps buffer_inv_bounds)
  show "buffer_inv b'"
    using assms r w by (auto simp: buffer_inv_def buffer_inv_bounds)
  show "content b' = content b"
    using assms r w by (simp add: content_def buffer_inv_bounds take_drop_copy_within)
qed

lemma makeSpace_inv:
  assumes inv: "buffer_inv b" and short: "unat (writableBytes b) < unat len"
    and room: "has_room (unat len) b"
  obtains b' where "makeSpace len b = Inr b'" and "buffer_inv b'" and "content b' = content b"
    and "unat len \<le> unat (writableBytes b')" and "unat (writerIndex b') \<le> unat (writerIndex b)"
proof (cases "unat (writableBytes b) + unat (prependableBytes b) < unat len + 8")
  case True
  then obtain v where v: "makeSpace len b = Inr (b\<lparr>storage := storage b @ v\<rparr>)"
    "length (storage b @ v) = unat (writerIndex b) + unat len"
    using makeSpace_grow inv short room by blast
  let ?b = "b\<lparr>storage := storage b @ v\<rparr>"
  have inv': "buffer_inv ?b" and "content ?b = content b"
    using inv room v(2) by (auto simp: buffer_inv_def content_def has_room_def)
  moreover have "unat len \<le> unat (writableBytes ?b)"
    using v(2) buffer_inv_bounds(2) [OF inv'] by simp
  ultimately show ?thesis using that v(1) by simp
next
  case False
  let ?b = "b\<lparr>storage := copy_within (unat (readableBytes b)) (unat (readerIndex b)) 8 (storage b),
           readerIndex := kCheapPrepend, writerIndex := kCheapPrepend + readableBytes b\<rparr>"
  note slid = slide_inv [OF inv refl]
  have "unat len \<le> unat (writableBytes ?b)"
    using False inv slid by (auto simp: buffer_inv_bounds buffer_inv_def)
  moreover have "unat (writerIndex ?b) \<le> unat (writerIndex b)"
    using inv slid(3) by (auto simp: buffer_inv_bounds buffer_inv_def)
  ultimately show ?thesis
    using that makeSpace_slide [OF inv] slid False by simp
qed

lemma ensureWritableBytes_inv:
  assumes "buffer_inv b" and "has_room (unat len) b"
  obtains b' where "ensureWritableBytes len b = Inr b'" and "buffer_inv b'"
    and "content b' = content b" and "unat len \<le> unat (writableBytes b')"
    and "unat (writerIndex b') \<le> unat (writerIndex b)"
proof (cases "writableBytes b < len")
  case True
  with assms makeSpace_inv [of b len] that show ?thesis
    by (metis ensureWritableBytes_def size_less_iff)
next
  case False
  with assms that show ?thesis by (simp add: ensureWritableBytes_def size_less_iff)
qed

lemma store_tail:
  assumes "buffer_inv b" and "length d \<le> unat (writableBytes b)"
    and "b' = b\<lparr>storage := overwrite (beginWrite b) d (storage b),
             writerIndex := writerIndex b + of_nat (length d)\<rparr>"
  shows "buffer_inv b'" and "content b' = content b @ d"
    and "unat (writerIndex b') = unat (writerIndex b) + length d"
proof -
  have b: "unat (readerIndex b) \<le> unat (writerIndex b)"
    "unat (writerIndex b) + length d \<le> length (storage b)" "length (storage b) < 2 ^ 63"
    using assms(1,2) by (auto simp: buffer_inv_def buffer_inv_bounds)
  show w: "unat (writerIndex b') = unat (writerIndex b) + length d"
    using assms(3) b by (simp add: size_simps)
  show "buffer_inv b'"
    using assms(1,3) b w by (simp add: buffer_inv_def beginWrite_def)
  have "unat (writerIndex b) \<le> length (storage b)" using b(2) by simp
  from take_drop_overwrite [OF b(1) this, of d] show "content b' = content b @ d"
    using assms(3) b w by (simp add: content_def beginWrite_def)
qed

lemma buffer_append_ok:
  assumes "buffer_inv b" and "has_room (length d) b"
  obtains b' where "buffer_append d b = Inr b'" and "buffer_inv b'" and "content b' = content b @ d"
    and "unat (writerIndex b') \<le> unat (writerIndex b) + length d"
proof -
  have len: "unat (of_nat (length d) :: size_t) = length d"
    using assms(2) by (intro unat_size_of_nat) (simp add: has_room_def)
  obtain e where e: "ensureWritableBytes (of_nat (length d)) b = Inr e" "buffer_inv e"
    "content e = content b" "length d \<le> unat (writableBytes e)"
    "unat (writerIndex e) \<le> unat (writerIndex b)"
    using ensureWritableBytes_inv [of b "of_nat (length d)"] assms len by metis
  have fits: "beginWrite e + length d \<le> length (storage e)"
    using e by (auto simp: beginWrite_def buffer_inv_bounds buffer_inv_def)
  then have "buffer_append d b = Inr (e\<lparr>storage := overwrite (beginWrite e) d (storage e),
             writerIndex := writerIndex e + of_nat (length d)\<rparr>)"
    by (simp add: buffer_append_def e(1) write_block_def)
  then show ?thesis
    using that store_tail [OF e(2,4) refl] e(3,5) by simp
qed

text \<open>
  Whenever \<open>append\<close> returns at all it has appended: the copy is bounds-checked by the model, so a block
  that does not fit after \<open>ensureWritableBytes\<close> is a fault, never a silent truncation.
\<close>

lemma ensureWritableBytes_cases:
  assumes "ensureWritableBytes len b = Inr e"
  shows "e = b \<or> (\<exists>v. vector_resize (writerIndex b + len) (storage b) = Inr v \<and> e = b\<lparr>storage := v\<rparr>) \<or>
    e = b\<lparr>storage := copy_within (unat (readableBytes b)) (unat (readerIndex b)) 8 (storage b),
           readerIndex := kCheapPrepend, writerIndex := kCheapPrepend + readableBytes b\<rparr>"
proof (cases "vector_resize (writerIndex b + len) (storage b)")
  case (Inl f)
  with assms show ?thesis
    by (simp add: ensureWritableBytes_def makeSpace_def Let_def split: if_split_asm)
next
  case (Inr v)
  with assms show ?thesis
    by (simp add: ensureWritableBytes_def makeSpace_def Let_def split: if_split_asm)
qed

lemma buffer_append_Inr:
  assumes inv: "buffer_inv b" and ret: "buffer_append d b = Inr b'"
  shows "buffer_inv b'" and "content b' = content b @ d"
proof -
  let ?len = "of_nat (length d) :: size_t"
  obtain e where e: "ensureWritableBytes ?len b = Inr e"
    and fits: "beginWrite e + length d \<le> length (storage e)"
    and b': "b' = e\<lparr>storage := overwrite (beginWrite e) d (storage e),
                  writerIndex := writerIndex e + ?len\<rparr>"
    using ret by (auto simp: buffer_append_def write_block_def bind_simps split: if_splits)
  have "buffer_inv e \<and> content e = content b"
  proof (cases "has_room (length d) b")
    case True
    then have "unat ?len = length d"
      by (intro unat_size_of_nat) (simp add: has_room_def)
    then show ?thesis
      using ensureWritableBytes_inv [OF inv, of ?len] True e by (metis Inr_inject)
  next
    case False
    then have far: "2 ^ 63 \<le> unat (writerIndex b) + length d" by (simp add: has_room_def)
    consider (same) "e = b" | (grow) v where "vector_resize (writerIndex b + ?len) (storage b) = Inr v"
        "e = b\<lparr>storage := v\<rparr>"
      | (slide) "e = b\<lparr>storage := copy_within (unat (readableBytes b)) (unat (readerIndex b)) 8 (storage b),
           readerIndex := kCheapPrepend, writerIndex := kCheapPrepend + readableBytes b\<rparr>"
      using ensureWritableBytes_cases [OF e] by blast
    then show ?thesis
    proof cases
      case same
      with inv show ?thesis by simp
    next
      case slide
      with slide_inv [OF inv slide] show ?thesis by simp
    next
      case grow
      then have "length (storage e) < 2 ^ 63"
        by (auto simp: vector_resize_def split: if_splits)
      with fits far grow show ?thesis by (simp add: beginWrite_def)
    qed
  qed
  moreover from this fits have "length d \<le> unat (writableBytes e)"
    by (simp add: buffer_inv_bounds beginWrite_def)
  ultimately show "buffer_inv b'" and "content b' = content b @ d"
    using store_tail [of e d b'] b' by simp_all
qed

section \<open>Reading from and writing to a descriptor\<close>

text \<open>\<open>readFd\<close> never reads more than the free tail plus 64 KiB; this is the room it may need.\<close>

definition readFd_room :: "buffer \<Rightarrow> bool" where
  "readFd_room b \<longleftrightarrow> length (storage b) + kExtraSize < 2 ^ 63"

lemma readFd_error:
  "sys_readv S fd (readFd_iov b) k = (n, d, k') \<Longrightarrow> n < 0 \<Longrightarrow>
     readFd S fd saved b k = Inr (n, sys_errno S k', b, k')"
  by (simp add: readFd_def)

text \<open>
  A successful read either fits the free tail, or fills it and appends the rest from the stack array;
  \<open>filled\<close> is the buffer in between.
\<close>

definition filled :: "byte list \<Rightarrow> buffer \<Rightarrow> buffer" where
  "filled d b = b\<lparr>storage := overwrite (beginWrite b) d (storage b),
     writerIndex := writerIndex b + of_nat (length d)\<rparr>"

lemma filled_inv:
  assumes "buffer_inv b" and "length d \<le> unat (writableBytes b)"
  shows "buffer_inv (filled d b)" and "content (filled d b) = content b @ d"
    and "unat (writerIndex (filled d b)) = unat (writerIndex b) + length d"
  using store_tail [OF assms filled_def] by simp_all

lemma readFd_split:
  assumes inv: "buffer_inv b" and law: "readv_law S"
    and rd: "sys_readv S fd (readFd_iov b) k = (n, d, k')" and "0 \<le> n"
    and w: "w = unat (writableBytes b)"
  shows "readFd S fd saved b k =
    (if length d \<le> w then Inr (n, saved, filled d b, k')
     else bindE (buffer_append (drop w d) (filled (take w d) b)) (\<lambda>b'. Inr (n, saved, b', k')))"
    and "length d \<le> w + kExtraSize"
proof -
  have n: "n = int (length d)" and le: "length d \<le> sum_list (readFd_iov b)"
    using readv_lawD [OF law rd \<open>0 \<le> n\<close>] by simp_all
  then show small: "length d \<le> w + kExtraSize"
    by (auto simp: w readFd_iov_def split: if_splits)
  have "w < 2 ^ 63" using inv by (auto simp: w buffer_inv_def buffer_inv_bounds)
  with small have un: "unat (of_int n :: size_t) = length d"
    using n by (simp add: size_simps kExtraSize_def)
  show "readFd S fd saved b k =
    (if length d \<le> w then Inr (n, saved, filled d b, k')
     else bindE (buffer_append (drop w d) (filled (take w d) b)) (\<lambda>b'. Inr (n, saved, b', k')))"
  proof (cases "length d \<le> w")
    case True
    then show ?thesis
      using rd n un w by (simp add: readFd_def filled_def Let_def size_le_iff)
  next
    case False
    have top: "writerIndex b + of_nat (length (take w d)) = of_nat (length (storage b))"
      using False w by (simp add: writableBytes_def)
    have "filled (take w d) b = b\<lparr>storage := overwrite (beginWrite b) (take w d) (storage b),
        writerIndex := of_nat (length (storage b))\<rparr>"
      unfolding filled_def top ..
    moreover have "unat (of_int n - writableBytes b) = length (drop w d)"
      using un False w by (simp add: size_simps)
    moreover have "read_block 0 (length (drop w d)) (overwrite 0 (drop w d) (replicate kExtraSize 0)) =
        Inr (drop w d)"
      using small by (simp add: read_block_def overwrite_def)
    ultimately show ?thesis
      using rd n un False w \<open>0 \<le> n\<close> by (simp add: readFd_def Let_def size_le_iff)
  qed
qed

lemma readFd_ok:
  assumes inv: "buffer_inv b" and room: "readFd_room b" and law: "readv_law S"
    and rd: "sys_readv S fd (readFd_iov b) k = (n, d, k')" and "0 \<le> n"
  obtains b' where "readFd S fd saved b k = Inr (n, saved, b', k')" and "buffer_inv b'"
    and "content b' = content b @ d"
proof -
  let ?w = "unat (writableBytes b)"
  note cases = readFd_split [OF inv law rd \<open>0 \<le> n\<close> refl]
  show ?thesis
  proof (cases "length d \<le> ?w")
    case True
    with cases(1) that filled_inv [OF inv True] show ?thesis by simp
  next
    case False
    note f = filled_inv [OF inv, of "take ?w d"]
    have "unat (writerIndex (filled (take ?w d) b)) \<le> length (storage b)"
      using f(3) False inv by (auto simp: buffer_inv_def buffer_inv_bounds)
    with cases(2) room have "has_room (length (drop ?w d)) (filled (take ?w d) b)"
      by (simp add: has_room_def readFd_room_def)
    then obtain b' where "buffer_append (drop ?w d) (filled (take ?w d) b) = Inr b'" "buffer_inv b'"
      "content b' = content (filled (take ?w d) b) @ drop ?w d"
      using buffer_append_ok f(1) by (metis length_take min.cobounded2)
    with cases(1) that f(2) False show ?thesis by simp
  qed
qed

lemma readFd_Inr:
  assumes inv: "buffer_inv b" and law: "readv_law S" and ret: "readFd S fd saved b k = Inr (n, e, b', k')"
  shows "buffer_inv b'"
proof -
  obtain m d k1 where rd: "sys_readv S fd (readFd_iov b) k = (m, d, k1)" by (metis prod_cases3)
  show ?thesis
  proof (cases "m < 0")
    case True
    with readFd_error [OF rd True] ret inv show ?thesis by simp
  next
    case False
    let ?w = "unat (writableBytes b)"
    have "0 \<le> m" using False by simp
    from readFd_split(1) [OF inv law rd this refl, of saved] ret
      filled_inv(1) [OF inv, of d] filled_inv(1) [OF inv, of "take ?w d"] buffer_append_Inr(1)
    show ?thesis
      by (cases "buffer_append (drop ?w d) (filled (take ?w d) b)") (auto split: if_splits)
  qed
qed

lemma writeFd_ok:
  "buffer_inv b \<Longrightarrow> sys_write S fd (content b) k = (n, k') \<Longrightarrow>
     writeFd S fd saved b k = Inr (n, if n < 0 then sys_errno S k' else saved, k')"
  by (simp add: writeFd_def read_block_def peek_def content_def buffer_inv_bounds)
    (auto simp: buffer_inv_def)

section \<open>The buffer as a byte queue\<close>

text \<open>
  What the connections rely on: a queue of bytes that is filled at the back and emptied at the front.
  \<open>fifo_step\<close> runs one such operation and collects in its first component the bytes taken out.
\<close>

datatype fifo_op = Put "byte list" | Get size_t

fun fifo_step ::
  "(byte list \<Rightarrow> 'b \<Rightarrow> fault + 'b) \<Rightarrow> (size_t \<Rightarrow> 'b \<Rightarrow> 'b) \<Rightarrow> ('b \<Rightarrow> byte list) \<Rightarrow>
     fifo_op \<Rightarrow> byte list \<times> 'b \<Rightarrow> fault + byte list \<times> 'b" where
  "fifo_step put get view (Put d) (out, b) = bindE (put d b) (\<lambda>b'. Inr (out, b'))"
| "fifo_step put get view (Get n) (out, b) = Inr (out @ take (unat n) (view b), get n b)"

fun put_bytes :: "fifo_op \<Rightarrow> byte list" where
  "put_bytes (Put d) = d"
| "put_bytes (Get n) = []"

locale byte_fifo =
  fixes inv :: "'b \<Rightarrow> bool"
    and view :: "'b \<Rightarrow> byte list"
    and put :: "byte list \<Rightarrow> 'b \<Rightarrow> fault + 'b"
    and get :: "size_t \<Rightarrow> 'b \<Rightarrow> 'b"
  assumes put_inv: "inv b \<Longrightarrow> put d b = Inr b' \<Longrightarrow> inv b'"
    and put_view: "inv b \<Longrightarrow> put d b = Inr b' \<Longrightarrow> view b' = view b @ d"
    and get_inv: "inv b \<Longrightarrow> inv (get n b)"
    and get_view: "inv b \<Longrightarrow> view (get n b) = drop (unat n) (view b)"
begin

lemma step_stream:
  assumes "inv b" and "fifo_step put get view x (out, b) = Inr (out', b')"
  shows "inv b' \<and> out' @ view b' = out @ view b @ put_bytes x"
  using assms by (cases x) (auto simp: bind_simps put_inv put_view get_inv get_view)

lemma run_stream:
  assumes "inv b" and "runE (fifo_step put get view) xs (out, b) = Inr (out', b')"
  shows "inv b' \<and> out' @ view b' = out @ view b @ concat (map put_bytes xs)"
  using assms
proof (induction xs arbitrary: out b)
  case Nil
  then show ?case by simp
next
  case (Cons x xs)
  then obtain out1 b1 where one: "fifo_step put get view x (out, b) = Inr (out1, b1)"
    and rest: "runE (fifo_step put get view) xs (out1, b1) = Inr (out', b')"
    by (auto simp: bind_simps)
  from step_stream [OF Cons.prems(1) one] have "inv b1"
    and s: "out1 @ view b1 = out @ view b @ put_bytes x" by simp_all
  with Cons.IH [OF \<open>inv b1\<close> rest] show ?case
    by (metis (no_types, lifting) append.assoc concat.simps(2) list.simps(9))
qed

end

text \<open>A bounded queue also says when filling it succeeds, and how much it holds.\<close>

locale bounded_fifo = byte_fifo +
  fixes room :: "nat \<Rightarrow> 'a \<Rightarrow> bool"
    and avail :: "'a \<Rightarrow> size_t"
  assumes put_total: "inv b \<Longrightarrow> room (length d) b \<Longrightarrow> \<exists>b'. put d b = Inr b'"
    and avail_view: "inv b \<Longrightarrow> unat (avail b) = length (view b)"
begin

lemma put_some:
  assumes "inv b" and "room (length d) b"
  obtains b' where "put d b = Inr b'" and "inv b'" and "view b' = view b @ d"
  using assms put_total put_inv put_view by metis

lemma avail_zero: "inv b \<Longrightarrow> avail b = 0 \<longleftrightarrow> view b = []"
  using avail_view [of b] by (metis length_0_conv unat_eq_0)

lemma get_all: "inv b \<Longrightarrow> avail b \<le> n \<Longrightarrow> view (get n b) = []"
  by (simp add: get_view avail_view size_le_iff)

end

interpretation buf: bounded_fifo buffer_inv content buffer_append retrieve has_room readableBytes
proof unfold_locales
  show "\<exists>b'. buffer_append d b = Inr b'" if "buffer_inv b" "has_room (length d) b" for b d
    using buffer_append_ok [OF that] by blast
qed (auto simp: buffer_append_Inr retrieve_inv length_content)

lemmas buffer_facts = buffer_append_Inr retrieve_inv retrieveAll_inv length_content buf.avail_zero

section \<open>Properties\<close>

text \<open>
  C17. \<open>Buffer::append\<close> implements adding at the back of a byte queue: as long as the writer index plus
  the length stays below \<open>max_size()\<close> it returns, keeps the layout invariant and the content becomes
  the old content followed by exactly the given bytes, whether it fits, slides or grows.
\<close>

theorem buffer_append_refines:
  assumes "buffer_inv b" and "has_room (length d) b"
  shows "\<exists>b'. buffer_append d b = Inr b' \<and> buffer_inv b' \<and> content b' = content b @ d"
  using buf.put_some [OF assms] by metis

theorem buffer_append_refines_witness:
  "\<exists>b'. buffer_append [104, 105] (mkBuffer 1) = Inr b' \<and> buffer_inv b' \<and>
     content b' = content (mkBuffer 1) @ [104, 105]"
  by (rule buffer_append_refines, simp add: mkBuffer_inv, simp add: has_room_def mkBuffer_def)

text \<open>
  C27. Any sequence of appends and retrieves that returns keeps the byte stream: the bytes taken
  out so far followed by the bytes still in the buffer are the initial content followed by everything
  appended, in order, with nothing lost, duplicated or reordered.
\<close>

theorem buffer_stream:
  assumes "buffer_inv b"
    and "runE (fifo_step buffer_append retrieve content) xs ([], b) = Inr (out, b')"
  shows "buffer_inv b' \<and> out @ content b' = content b @ concat (map put_bytes xs)"
  using buf.run_stream [OF assms] by simp

theorem buffer_stream_witness:
  "[1, 2] @ content \<lparr>storage = [0, 0, 0, 0, 0, 0, 0, 0, 1, 2, 3, 4], readerIndex = 10, writerIndex = 12\<rparr>
     = content (mkBuffer 4) @ concat (map put_bytes [Put [1, 2, 3], Get 2, Put [4]])"
proof -
  have "buffer_inv (mkBuffer 4)" by (simp add: mkBuffer_inv)
  moreover have "runE (fifo_step buffer_append retrieve content) [Put [1, 2, 3], Get 2, Put [4]]
      ([], mkBuffer 4) = Inr ([1, 2], \<lparr>storage = [0, 0, 0, 0, 0, 0, 0, 0, 1, 2, 3, 4],
        readerIndex = 10, writerIndex = 12\<rparr>)"
    by code_simp
  ultimately show ?thesis by (rule buffer_stream [THEN conjunct2])
qed

lemma retrieveAllAsString_content:
  assumes "buffer_inv b"
  shows "retrieveAllAsString b = Inr (content b, retrieveAll b)"
  using assms by (auto simp: retrieveAllAsString_def retrieveAsString_def read_block_def peek_def
      content_def buffer_inv_bounds retrieve_def buffer_inv_def)

text \<open>
  \<open>retrieveAsString(len)\<close> on every branch. It does not clamp \<open>len\<close> to the readable bytes: within the
  vector it returns \<open>len\<close> bytes that start with the content and go on with stale bytes of the writable
  area, and beyond the vector it reads out of bounds. With \<open>len\<close> the readable count, as in
  \<open>retrieveAllAsString\<close>, it returns exactly the content and leaves an empty buffer.
\<close>

theorem retrieveAsString_cases:
  assumes "buffer_inv b"
  shows "retrieveAllAsString b = Inr (content b, retrieveAll b) \<and>
    retrieveAsString len b =
      (if unat (readerIndex b) + unat len \<le> length (storage b)
       then Inr (take (unat len) (content b) @
              take (unat len - length (content b)) (drop (unat (writerIndex b)) (storage b)),
              retrieve len b)
       else Inl OutOfBounds)"
proof -
  have b: "unat (readerIndex b) \<le> unat (writerIndex b)" "unat (writerIndex b) \<le> length (storage b)"
    using assms by (auto simp: buffer_inv_def)
  note retrieveAllAsString_content [OF assms]
  moreover have "take n (drop (unat (readerIndex b)) (storage b)) =
      take n (content b) @ take (n - length (content b)) (drop (unat (writerIndex b)) (storage b))" for n
    using b take_split_at [of n "drop (unat (readerIndex b)) (storage b)" "length (content b)"]
    by (simp add: content_def drop_take)
  ultimately show ?thesis
    by (simp add: retrieveAsString_def read_block_def peek_def)
qed

theorem retrieveAsString_cases_witness:
  "retrieveAsString 5 (mkBuffer 4) = Inl OutOfBounds"
  using retrieveAsString_cases [of "mkBuffer 4" 5] by (simp add: mkBuffer_inv) (simp add: mkBuffer_def size_simps)

text \<open>
  \<open>ensureWritableBytes(len)\<close> on every branch: the content survives, at least \<open>len\<close> bytes are
  writable afterwards, and the vector grows (to exactly \<open>writerIndex + len\<close>) only when the free tail
  and the consumed prefix together do not suffice.
\<close>

theorem ensureWritableBytes_contract:
  assumes "buffer_inv b" and "has_room (unat len) b"
  shows "\<exists>b'. ensureWritableBytes len b = Inr b' \<and> buffer_inv b' \<and> content b' = content b \<and>
    unat len \<le> unat (writableBytes b') \<and>
    length (storage b') =
      (if unat len + 8 \<le> unat (writableBytes b) + unat (prependableBytes b)
       then length (storage b) else unat (writerIndex b) + unat len)"
proof -
  obtain b' where b': "ensureWritableBytes len b = Inr b'" "buffer_inv b'" "content b' = content b"
    "unat len \<le> unat (writableBytes b')"
    using ensureWritableBytes_inv [OF assms] by metis
  have "length (storage b') = (if unat len + 8 \<le> unat (writableBytes b) + unat (prependableBytes b)
       then length (storage b) else unat (writerIndex b) + unat len)"
  proof (cases "unat (writableBytes b) < unat len")
    case True
    then show ?thesis
      using b'(1) makeSpace_grow [OF assms(1) True assms(2)] makeSpace_slide [OF assms(1), of len]
      by (cases "unat len + 8 \<le> unat (writableBytes b) + unat (prependableBytes b)")
        (auto simp: ensureWritableBytes_def size_less_iff)
  next
    case False
    with assms b'(1) show ?thesis
      by (auto simp: ensureWritableBytes_def size_less_iff buffer_inv_def buffer_inv_bounds(3))
  qed
  with b' show ?thesis by blast
qed

theorem ensureWritableBytes_contract_witness:
  "\<exists>b'. ensureWritableBytes 20 (mkBuffer 4) = Inr b' \<and> length (storage b') = 28"
  using ensureWritableBytes_contract [of "mkBuffer 4" 20]
  by (simp add: mkBuffer_inv) (auto simp: has_room_def mkBuffer_def writableBytes_def
      prependableBytes_def kCheapPrepend_def)

text \<open>
  The test of \<open>makeSpace\<close> is computed in \<open>size_t\<close>: for a length within eight of \<open>2 ^ 64\<close> the sum
  \<open>len + kCheapPrepend\<close> wraps, the code takes the sliding branch, and \<open>ensureWritableBytes\<close> returns
  normally although the requested room is not there.
\<close>

theorem ensureWritableBytes_wraps:
  assumes "buffer_inv b" and "2 ^ 64 - 8 \<le> unat len"
  shows "\<exists>b'. ensureWritableBytes len b = Inr b' \<and> content b' = content b \<and>
    unat (writableBytes b') < unat len"
proof -
  have b: "8 \<le> unat (readerIndex b)" "length (storage b) < 2 ^ 63"
    "unat (readerIndex b) \<le> unat (writerIndex b)" "unat (writerIndex b) \<le> length (storage b)"
    using assms(1) by (auto simp: buffer_inv_def)
  have "unat (len + kCheapPrepend) < 8"
    using assms(2) unat_size_bound [of len] by (simp add: unat_word_ariths le_mod_geq)
  moreover have "unat (writableBytes b + prependableBytes b) \<ge> 8"
    using b assms(1) by (subst unat_size_add) (auto simp: buffer_inv_bounds)
  ultimately have slide: "\<not> writableBytes b + prependableBytes b < len + kCheapPrepend"
    by (simp add: size_less_iff)
  have "writableBytes b < len"
    using b assms by (simp add: size_less_iff buffer_inv_bounds)
  with slide obtain b' where b': "ensureWritableBytes len b = Inr b'"
    "b' = b\<lparr>storage := copy_within (unat (readableBytes b)) (unat (readerIndex b)) 8 (storage b),
           readerIndex := kCheapPrepend, writerIndex := kCheapPrepend + readableBytes b\<rparr>"
    by (simp add: ensureWritableBytes_def makeSpace_def Let_def)
  note slid = slide_inv [OF assms(1) b'(2)]
  have "length (storage b') = length (storage b)" using b'(2) by simp
  then have "unat (writableBytes b') < unat len"
    using slid(1) b(2) assms(2) by (simp add: buffer_inv_bounds)
  with b'(1) slid(2) show ?thesis by blast
qed

theorem ensureWritableBytes_wraps_witness:
  "\<exists>b'. ensureWritableBytes 18446744073709551615 (mkBuffer 4) = Inr b' \<and>
     unat (writableBytes b') < unat (18446744073709551615 :: size_t)"
  using ensureWritableBytes_wraps [of "mkBuffer 4" "18446744073709551615"] 
  by (simp add: mkBuffer_inv) auto

text \<open>
  C28. \<open>readFd\<close> on every branch, for any kernel whose \<open>readv\<close> behaves as documented: an error is reported
  with its \<open>errno\<close> and leaves the buffer alone; otherwise exactly the bytes received, whether they
  fit in the vector or spill into the stack array, are appended to the content and their number returned.
\<close>

theorem readFd_appends_received:
  assumes "buffer_inv b" and "readFd_room b" and "readv_law S"
    and "sys_readv S fd (readFd_iov b) k = (n, d, k')"
  shows "if n < 0 then readFd S fd saved b k = Inr (n, sys_errno S k', b, k')
    else \<exists>b'. readFd S fd saved b k = Inr (n, saved, b', k') \<and> buffer_inv b' \<and>
      content b' = content b @ d \<and> n = int (length d)"
proof (cases "n < 0")
  case True
  with assms(4) show ?thesis by (simp add: readFd_error)
next
  case False
  then have "0 \<le> n" by simp
  from readFd_ok [OF assms this, of saved] show ?thesis
    using False readv_lawD [OF assms(3,4) \<open>0 \<le> n\<close>] by metis
qed

theorem readFd_appends_received_witness:
  "\<exists>b'. readFd sim_sys 5 0 (mkBuffer 2) (ksim0\<lparr>sim_input := [1, 2, 3]\<rparr>) = Inr (3, 0, b', ksim0) \<and>
     content b' = [1, 2, 3]"
proof -
  have iov: "readFd_iov (mkBuffer 2) = [2, 65536]"
    by (simp add: readFd_iov_def writableBytes_def mkBuffer_def kCheapPrepend_def kExtraSize_def)
  have "sys_readv sim_sys 5 (readFd_iov (mkBuffer 2)) (ksim0\<lparr>sim_input := [1, 2, 3]\<rparr>) = (3, [1, 2, 3], ksim0)"
    by (simp add: iov sim_sys_def sim_readv_def ksim0_def)
  moreover have "readFd_room (mkBuffer 2)"
    by (simp add: readFd_room_def mkBuffer_def kCheapPrepend_def kExtraSize_def)
  moreover have "buffer_inv (mkBuffer 2)" and "content (mkBuffer 2) = []"
    using mkBuffer_inv [of 2] by simp_all
  ultimately show ?thesis
    using readFd_appends_received [of "mkBuffer 2" sim_sys 5 "ksim0\<lparr>sim_input := [1, 2, 3]\<rparr>" 3
      "[1, 2, 3]" ksim0 0] sim_readv_law by auto
qed

end
