(* ===== verification/Connection.thy ===== *)
theory Connection
  imports EventLoop Socket ByteBuffer
begin

text \<open>
  \<open>Connection\<close> (\<open>include/Connection.h\<close>, \<open>src/Connection.cpp\<close>): one TCP connection, its socket and
  \<open>Filed\<close>, its two buffers, its state and the user's callbacks. Here are its operations; their lemmas and
  properties are in \<open>ConnectionInv\<close> and \<open>ConnectionStream\<close>.
\<close>

section \<open>State\<close>

datatype conn_state = kDisconnected | kConnecting | kConnected | kDisconnecting

text \<open>
  A \<open>std::function\<close> member is empty or a handle, a number that stands for the closure it holds. The
  socket's descriptor is the \<open>Filed\<close>'s.
\<close>

record connection =
  conn_loop :: nat
  conn_name :: string
  conn_state :: conn_state
  conn_reading :: bool
  conn_fd :: int
  conn_filed :: nat
  localAddr :: sockaddr
  peerAddr :: sockaddr
  connectionCallback :: "nat option"
  messageCallback :: "nat option"
  writeCompleteCallback :: "nat option"
  conn_closeCallback :: "nat option"
  highWaterMarkCallback :: "nat option"
  highWaterMark :: size_t
  inputBuffer :: buffer
  outputBuffer :: buffer

text \<open>
  The process with its connections and the memory blocks of the \<open>std::string\<close>s that are passed to \<open>send\<close>,
  both by address; an address with no entry is an object that has been destroyed.
\<close>

record 'k process = "'k reactor" +
  conns :: "nat \<Rightarrow> connection option"
  strings :: "nat \<Rightarrow> byte list option"

definition upd_conn ::
  "nat \<Rightarrow> (connection \<Rightarrow> connection) \<Rightarrow> ('k, 'z) process_scheme \<Rightarrow> ('k, 'z) process_scheme" where
  "upd_conn c g w = w\<lparr>conns := (conns w)(c := map_option g (conns w c))\<rparr>"

definition with_conn ::
  "nat \<Rightarrow> ('k, 'z) process_scheme \<Rightarrow> (connection \<Rightarrow> fault + 'a) \<Rightarrow> fault + 'a" where
  "with_conn c w f = (case conns w c of None \<Rightarrow> Inl UseAfterFree | Some x \<Rightarrow> f x)"

text \<open>Reading \<open>n\<close> bytes at offset \<open>off\<close> of the string block at an address.\<close>

definition read_string ::
  "nat \<Rightarrow> int \<Rightarrow> size_t \<Rightarrow> ('k, 'z) process_scheme \<Rightarrow> fault + byte list" where
  "read_string a off n w =
     (case strings w a of None \<Rightarrow> Inl UseAfterFree | Some d \<Rightarrow> read_block off (unat n) d)"

definition CheckLoop :: "nat option \<Rightarrow> fault + nat" where
  "CheckLoop loop = (case loop of None \<Rightarrow> Inl ExitFailure | Some l \<Rightarrow> Inr l)"

definition setState :: "conn_state \<Rightarrow> nat \<Rightarrow> ('k, 'z) process_scheme \<Rightarrow> ('k, 'z) process_scheme" where
  "setState st c w = upd_conn c (\<lambda>x. x\<lparr>conn_state := st\<rparr>) w"

definition isConnect :: "connection \<Rightarrow> bool" where
  "isConnect x \<longleftrightarrow> conn_state x = kConnected"

text \<open>
  A connection owns its \<open>Filed\<close>, whose handlers are its own; the \<open>Filed\<close> is gone with it. The others outlive the loops.
\<close>

definition filed_owner :: "filed \<Rightarrow> nat option" where
  "filed_owner f = (case readCallback f of Some (HConnRead c) \<Rightarrow> Some c | _ \<Rightarrow> None)"

definition find_filed :: "nat \<Rightarrow> ('k, 'z) process_scheme \<Rightarrow> filed option" where
  "find_filed fp w = (case filed_owner (filedOf w fp) of
     Some c \<Rightarrow> if conns w c = None then None else Some (filedOf w fp) | None \<Rightarrow> Some (filedOf w fp))"

section \<open>Creation and destruction\<close>

text \<open>The constructor of the connection at address \<open>c\<close>, whose \<open>Filed\<close> is allocated at \<open>fp\<close>.\<close>

definition mkConnection ::
  "'k sys \<Rightarrow> nat \<Rightarrow> nat \<Rightarrow> nat option \<Rightarrow> string \<Rightarrow> int \<Rightarrow> sockaddr \<Rightarrow> sockaddr \<Rightarrow>
     ('k, 'z) process_scheme \<Rightarrow> fault + ('k, 'z) process_scheme" where
  "mkConnection S c fp loop nm sockfd local peer w =
     bindE (CheckLoop loop) (\<lambda>l.
       let w = w\<lparr>conns := (conns w)(c \<mapsto> \<lparr>conn_loop = l, conn_name = nm, conn_state = kConnecting,
                 conn_reading = True, conn_fd = sockfd, conn_filed = fp, localAddr = local, peerAddr = peer,
                 connectionCallback = None, messageCallback = None, writeCompleteCallback = None,
                 conn_closeCallback = None, highWaterMarkCallback = None,
                 highWaterMark = 64 * 1024 * 1024,
                 inputBuffer = mkBuffer kInitialSize, outputBuffer = mkBuffer kInitialSize\<rparr>)\<rparr>;
           w = upd_filed fp (\<lambda>_. mkFiled l sockfd) w;
           w = upd_filed fp (setReadCallback (HConnRead c)) w;
           w = upd_filed fp (setWriteCallback (HConnWrite c)) w;
           w = upd_filed fp (setCloseCallback (HConnClose c)) w;
           w = upd_filed fp (setErrorCallback (HConnError c)) w
       in Inr (setKeepAlive S sockfd True w))"

text \<open>The destructor: the socket member closes its descriptor, and the object is gone.\<close>

definition destroyConnection :: "'k sys \<Rightarrow> nat \<Rightarrow> ('k, 'z) process_scheme \<Rightarrow> fault + ('k, 'z) process_scheme" where
  "destroyConnection S c w =
     with_conn c w (\<lambda>x. Inr (Socket_destroy S (conn_fd x) (w\<lparr>conns := (conns w)(c := None)\<rparr>)))"

definition setConnectionCallback :: "nat option \<Rightarrow> nat \<Rightarrow> ('k, 'z) process_scheme \<Rightarrow> ('k, 'z) process_scheme" where
  "setConnectionCallback cb c w = upd_conn c (\<lambda>x. x\<lparr>connectionCallback := cb\<rparr>) w"

definition setMessageCallback :: "nat option \<Rightarrow> nat \<Rightarrow> ('k, 'z) process_scheme \<Rightarrow> ('k, 'z) process_scheme" where
  "setMessageCallback cb c w = upd_conn c (\<lambda>x. x\<lparr>messageCallback := cb\<rparr>) w"

definition setWriteCompleteCallback :: "nat option \<Rightarrow> nat \<Rightarrow> ('k, 'z) process_scheme \<Rightarrow> ('k, 'z) process_scheme" where
  "setWriteCompleteCallback cb c w = upd_conn c (\<lambda>x. x\<lparr>writeCompleteCallback := cb\<rparr>) w"

definition setConnCloseCallback :: "nat option \<Rightarrow> nat \<Rightarrow> ('k, 'z) process_scheme \<Rightarrow> ('k, 'z) process_scheme" where
  "setConnCloseCallback cb c w = upd_conn c (\<lambda>x. x\<lparr>conn_closeCallback := cb\<rparr>) w"

definition setHighWaterMarkCallback ::
  "nat option \<Rightarrow> size_t \<Rightarrow> nat \<Rightarrow> ('k, 'z) process_scheme \<Rightarrow> ('k, 'z) process_scheme" where
  "setHighWaterMarkCallback cb m c w = upd_conn c (\<lambda>x. x\<lparr>highWaterMarkCallback := cb, highWaterMark := m\<rparr>) w"

section \<open>Sending\<close>

text \<open>
  \<open>sendinLoop\<close> first tries to write directly. The \<open>else\<close> that handles a failed \<open>write\<close> is attached to the
  inner \<open>if\<close> of the source: it runs after a write that took some bytes, and resets \<open>nwrote\<close>; after a
  failed write nothing resets it.
\<close>

definition sendinLoop_write ::
  "'k sys \<Rightarrow> int \<Rightarrow> nat \<Rightarrow> nat \<Rightarrow> size_t \<Rightarrow> connection \<Rightarrow> ('k, 'z) process_scheme \<Rightarrow>
     fault + int \<times> size_t \<times> bool \<times> ('k, 'z) process_scheme" where
  "sendinLoop_write S tid c a len x w =
     bindE (read_string a 0 len w) (\<lambda>d.
       let (nwrote, k') = sys_write S (filed_fd (filedOf w (conn_filed x))) d (kern w);
           w = w\<lparr>kern := k'\<rparr>
       in if nwrote > 0
          then let remaining = len - of_int nwrote in
            (case writeCompleteCallback x of
               Some cb \<Rightarrow>
                 if remaining = 0
                 then Inr (nwrote, remaining, False, queueinLoop S tid (conn_loop x) (TWriteComplete cb c) w)
                 else Inr (0, remaining, sys_errno S k' \<noteq> EWOULDBLOCK, w)
             | None \<Rightarrow> Inr (0, remaining, sys_errno S k' \<noteq> EWOULDBLOCK, w))
          else Inr (nwrote, len, False, w))"

text \<open>The high-water check, and the rest of the function: append what is left and ask for write events.\<close>

definition check_high_water ::
  "'k sys \<Rightarrow> int \<Rightarrow> nat \<Rightarrow> size_t \<Rightarrow> connection \<Rightarrow> ('k, 'z) process_scheme \<Rightarrow> ('k, 'z) process_scheme" where
  "check_high_water S tid c remaining x w =
     (let oldLen = readableBytes (outputBuffer x)
      in case highWaterMarkCallback x of
           Some cb \<Rightarrow>
             if highWaterMark x \<le> oldLen + remaining \<and> oldLen < highWaterMark x
             then queueinLoop S tid (conn_loop x) (THighWaterMark cb c (oldLen + remaining)) w else w
         | None \<Rightarrow> w)"

definition sendinLoop_queue ::
  "'k sys \<Rightarrow> int \<Rightarrow> nat \<Rightarrow> nat \<Rightarrow> int \<Rightarrow> size_t \<Rightarrow> connection \<Rightarrow> ('k, 'z) process_scheme \<Rightarrow>
     fault + ('k, 'z) process_scheme" where
  "sendinLoop_queue S tid c a nwrote remaining x w =
     (let w = check_high_water S tid c remaining x w
      in bindE (read_string a nwrote remaining w) (\<lambda>d.
         bindE (buffer_append d (outputBuffer x)) (\<lambda>b.
           let w = upd_conn c (\<lambda>x. x\<lparr>outputBuffer := b\<rparr>) w
           in if \<not> isWriting (filedOf w (conn_filed x)) then enableWriting S (conn_filed x) w else Inr w)))"

definition sendinLoop ::
  "'k sys \<Rightarrow> int \<Rightarrow> nat \<Rightarrow> nat \<Rightarrow> size_t \<Rightarrow> ('k, 'z) process_scheme \<Rightarrow> fault + ('k, 'z) process_scheme" where
  "sendinLoop S tid c a len w =
     with_conn c w (\<lambda>x.
       if conn_state x = kDisconnected then Inr (log_line ERROR ''disconnected, give up writing'' w)
       else bindE (if \<not> isWriting (filedOf w (conn_filed x)) \<and> readableBytes (outputBuffer x) = 0
                   then sendinLoop_write S tid c a len x w else Inr (0, len, False, w))
              (\<lambda>(nwrote, remaining, faultError, w).
                 if \<not> faultError \<and> remaining > 0 then sendinLoop_queue S tid c a nwrote remaining x w
                 else Inr w))"

text \<open>
  \<open>send\<close>: from another thread it queues a closure with the bare \<open>this\<close> and the string's address and length.
\<close>

definition send ::
  "'k sys \<Rightarrow> int \<Rightarrow> nat \<Rightarrow> nat \<Rightarrow> ('k, 'z) process_scheme \<Rightarrow> fault + ('k, 'z) process_scheme" where
  "send S tid c a w =
     with_conn c w (\<lambda>x.
       if conn_state x = kConnected
       then case strings w a of
              None \<Rightarrow> Inl UseAfterFree
            | Some d \<Rightarrow>
                let len = of_nat (length d) in
                if isLoopThread tid (conn_loop x) w then sendinLoop S tid c a len w
                else runinLoop S tid (conn_loop x) (TSendInLoop c a len) (sendinLoop S tid c a len) w
       else Inr w)"

section \<open>Closing\<close>

definition shutdownInLoop :: "'k sys \<Rightarrow> nat \<Rightarrow> ('k, 'z) process_scheme \<Rightarrow> fault + ('k, 'z) process_scheme" where
  "shutdownInLoop S c w =
     with_conn c w (\<lambda>x. Inr (if \<not> isWriting (filedOf w (conn_filed x))
                              then Socket_shutdownWrite S (conn_fd x) w else w))"

definition shutdown :: "'k sys \<Rightarrow> int \<Rightarrow> nat \<Rightarrow> ('k, 'z) process_scheme \<Rightarrow> fault + ('k, 'z) process_scheme" where
  "shutdown S tid c w =
     with_conn c w (\<lambda>x.
       if conn_state x = kConnected
       then runinLoop S tid (conn_loop x) (TShutdownInLoop c) (shutdownInLoop S c) (setState kDisconnecting c w)
       else Inr w)"

text \<open>
  What the two operations still do once they have found the connection connected. They are one step of a thread only as
  long as no other thread moves between the test and the rest.
\<close>

definition send_rest ::
  "'k sys \<Rightarrow> int \<Rightarrow> nat \<Rightarrow> nat \<Rightarrow> ('k, 'z) process_scheme \<Rightarrow> fault + ('k, 'z) process_scheme" where
  "send_rest S tid c a w =
     with_conn c w (\<lambda>x.
       case strings w a of
         None \<Rightarrow> Inl UseAfterFree
       | Some d \<Rightarrow>
           let len = of_nat (length d) in
           if isLoopThread tid (conn_loop x) w then sendinLoop S tid c a len w
           else runinLoop S tid (conn_loop x) (TSendInLoop c a len) (sendinLoop S tid c a len) w)"

definition shutdown_rest :: "'k sys \<Rightarrow> int \<Rightarrow> nat \<Rightarrow> ('k, 'z) process_scheme \<Rightarrow> fault + ('k, 'z) process_scheme" where
  "shutdown_rest S tid c w =
     with_conn c w (\<lambda>x. runinLoop S tid (conn_loop x) (TShutdownInLoop c) (shutdownInLoop S c) (setState kDisconnecting c w))"

lemma send_split: "send S tid c a w = with_conn c w (\<lambda>x. if conn_state x = kConnected then send_rest S tid c a w else Inr w)"
  by (simp add: send_def send_rest_def with_conn_def split: option.split)

lemma shutdown_split: "shutdown S tid c w = with_conn c w (\<lambda>x. if conn_state x = kConnected then shutdown_rest S tid c w else Inr w)"
  by (simp add: shutdown_def shutdown_rest_def with_conn_def split: option.split)

section \<open>The application\<close>

text \<open>
  A user callback may call the public operations below, in any order and on any object; \<open>app h ev w\<close> is the
  list of the calls the callback \<open>h\<close> makes when it is called with \<open>ev\<close> in the state \<open>w\<close>. No operation in the
  list calls a callback synchronously.
\<close>

datatype api =
    ApiString nat "byte list"   \<comment> \<open>a \<open>std::string\<close> comes into being at an address\<close>
  | ApiFree nat
  | ApiSend nat nat
  | ApiShutdown nat
  | ApiRetrieve nat size_t      \<comment> \<open>\<open>Buffer::retrieve\<close> on a connection's input buffer\<close>
  | ApiTakeAll nat nat          \<comment> \<open>\<open>Buffer::retrieveAllAsString\<close> on it, into a string at an address\<close>
  | ApiSetMessage nat "nat option"
  | ApiSetWriteComplete nat "nat option"
  | ApiSetHighWaterMark nat "nat option" size_t
  | ApiQueue nat nat            \<comment> \<open>\<open>EventLoop::queueinLoop\<close> of a function of the application\<close>
  | ApiQuit nat

datatype app_event =
    EvConnection nat
  | EvMessage nat int
  | EvWriteComplete nat
  | EvHighWaterMark nat size_t
  | EvUser
  | EvThreadInit nat

fun do_api :: "'k sys \<Rightarrow> int \<Rightarrow> api \<Rightarrow> ('k, 'z) process_scheme \<Rightarrow> fault + ('k, 'z) process_scheme" where
  "do_api S tid (ApiString a d) w = Inr (w\<lparr>strings := (strings w)(a \<mapsto> d)\<rparr>)"
| "do_api S tid (ApiFree a) w = Inr (w\<lparr>strings := (strings w)(a := None)\<rparr>)"
| "do_api S tid (ApiSend c a) w = send S tid c a w"
| "do_api S tid (ApiShutdown c) w = shutdown S tid c w"
| "do_api S tid (ApiRetrieve c n) w =
     with_conn c w (\<lambda>_. Inr (upd_conn c (\<lambda>x. x\<lparr>inputBuffer := retrieve n (inputBuffer x)\<rparr>) w))"
| "do_api S tid (ApiTakeAll c a) w =
     with_conn c w (\<lambda>x. bindE (retrieveAllAsString (inputBuffer x)) (\<lambda>(d, b).
       Inr (upd_conn c (\<lambda>x. x\<lparr>inputBuffer := b\<rparr>) (w\<lparr>strings := (strings w)(a \<mapsto> d)\<rparr>))))"
| "do_api S tid (ApiSetMessage c cb) w = with_conn c w (\<lambda>_. Inr (setMessageCallback cb c w))"
| "do_api S tid (ApiSetWriteComplete c cb) w = with_conn c w (\<lambda>_. Inr (setWriteCompleteCallback cb c w))"
| "do_api S tid (ApiSetHighWaterMark c cb m) w = with_conn c w (\<lambda>_. Inr (setHighWaterMarkCallback cb m c w))"
| "do_api S tid (ApiQueue l n) w = Inr (queueinLoop S tid l (TUser n) w)"
| "do_api S tid (ApiQuit l) w = Inr (quit_loop S tid l w)"

type_synonym ('k, 'z) app = "nat \<Rightarrow> app_event \<Rightarrow> ('k, 'z) process_scheme \<Rightarrow> api list"

definition call_app ::
  "'k sys \<Rightarrow> ('k, 'z) app \<Rightarrow> int \<Rightarrow> nat option \<Rightarrow> app_event \<Rightarrow> ('k, 'z) process_scheme \<Rightarrow>
     fault + ('k, 'z) process_scheme" where
  "call_app S app tid cb ev w =
     (case cb of None \<Rightarrow> Inl BadFunctionCall | Some h \<Rightarrow> runE (do_api S tid) (app h ev w) w)"

section \<open>Handlers\<close>

text \<open>
  \<open>closecb\<close> is the meaning of the closure in \<open>closeCallback_\<close>, which \<open>Server\<close> sets: it takes the calling thread,
  the handle and the connection.
\<close>

type_synonym ('k, 'z) closecb =
  "int \<Rightarrow> nat \<Rightarrow> nat \<Rightarrow> ('k, 'z) process_scheme \<Rightarrow> fault + ('k, 'z) process_scheme"

definition handleClose ::
  "'k sys \<Rightarrow> ('k, 'z) app \<Rightarrow> ('k, 'z) closecb \<Rightarrow> int \<Rightarrow> nat \<Rightarrow> ('k, 'z) process_scheme \<Rightarrow>
     fault + ('k, 'z) process_scheme" where
  "handleClose S app closecb tid c w =
     with_conn c w (\<lambda>x.
       bindE (disableAll S (conn_filed x) (setState kDisconnected c w)) (\<lambda>w.
       bindE (call_app S app tid (connectionCallback x) (EvConnection c) w) (\<lambda>w.
         with_conn c w (\<lambda>x. case conn_closeCallback x of
             None \<Rightarrow> Inl BadFunctionCall | Some h \<Rightarrow> closecb tid h c w))))"

definition handleError :: "'k sys \<Rightarrow> nat \<Rightarrow> ('k, 'z) process_scheme \<Rightarrow> fault + ('k, 'z) process_scheme" where
  "handleError S c w =
     with_conn c w (\<lambda>x.
       let (r, optval, k') = sys_getsockopt_error S (filed_fd (filedOf w (conn_filed x))) (kern w)
       in Inr (log_line ERROR ''TcpConnection::handleError name:%s - SO_ERROR:%d'' (w\<lparr>kern := k'\<rparr>)))"

definition handleRead ::
  "'k sys \<Rightarrow> ('k, 'z) app \<Rightarrow> ('k, 'z) closecb \<Rightarrow> int \<Rightarrow> nat \<Rightarrow> int \<Rightarrow> ('k, 'z) process_scheme \<Rightarrow>
     fault + ('k, 'z) process_scheme" where
  "handleRead S app closecb tid c receiveTime w =
     with_conn c w (\<lambda>x.
       bindE (readFd S (filed_fd (filedOf w (conn_filed x))) 0 (inputBuffer x) (kern w)) (\<lambda>(n, savedErrno, b, k').
         let w = upd_conn c (\<lambda>x. x\<lparr>inputBuffer := b\<rparr>) (w\<lparr>kern := k'\<rparr>) in
         if n > 0 then call_app S app tid (messageCallback x) (EvMessage c receiveTime) w
         else if n = 0 then handleClose S app closecb tid c w
         else handleError S c (log_line ERROR ''TcpConnection::handleRead''
                (w\<lparr>kern := sys_set_errno S savedErrno (kern w)\<rparr>))))"

definition handleWrite ::
  "'k sys \<Rightarrow> int \<Rightarrow> nat \<Rightarrow> ('k, 'z) process_scheme \<Rightarrow> fault + ('k, 'z) process_scheme" where
  "handleWrite S tid c w =
     with_conn c w (\<lambda>x.
       if isWriting (filedOf w (conn_filed x))
       then bindE (writeFd S (filed_fd (filedOf w (conn_filed x))) 0 (outputBuffer x) (kern w)) (\<lambda>(n, savedErrno, k').
         let w = w\<lparr>kern := k'\<rparr> in
         if n > 0
         then let b = retrieve (of_int n) (outputBuffer x); w = upd_conn c (\<lambda>x. x\<lparr>outputBuffer := b\<rparr>) w in
           if readableBytes b = 0
           then bindE (disableWriting S (conn_filed x) w) (\<lambda>w.
             let w = (case writeCompleteCallback x of
                        Some cb \<Rightarrow> queueinLoop S tid (conn_loop x) (TWriteComplete cb c) w | None \<Rightarrow> w)
             in if conn_state x = kDisconnecting then shutdownInLoop S c w else Inr w)
           else Inr (log_line ERROR ''TcpConnection::handleWrite'' w)
         else Inr (log_line ERROR ''TcpConnection fd=%d is down, no more writing'' w))
       else Inr w)"

section \<open>Life cycle\<close>

definition connectEstablished ::
  "'k sys \<Rightarrow> ('k, 'z) app \<Rightarrow> int \<Rightarrow> nat \<Rightarrow> ('k, 'z) process_scheme \<Rightarrow> fault + ('k, 'z) process_scheme" where
  "connectEstablished S app tid c w =
     with_conn c w (\<lambda>x.
       bindE (enableReading S (conn_filed x) (upd_filed (conn_filed x) (tie c) (setState kConnected c w))) (\<lambda>w.
         call_app S app tid (connectionCallback x) (EvConnection c) w))"

definition connectDestroyed ::
  "'k sys \<Rightarrow> ('k, 'z) app \<Rightarrow> int \<Rightarrow> nat \<Rightarrow> ('k, 'z) process_scheme \<Rightarrow> fault + ('k, 'z) process_scheme" where
  "connectDestroyed S app tid c w =
     with_conn c w (\<lambda>x.
       bindE (if conn_state x = kConnected
              then bindE (disableAll S (conn_filed x) (setState kDisconnected c w)) (\<lambda>w.
                call_app S app tid (connectionCallback x) (EvConnection c) w)
              else Inr w) (\<lambda>w.
         Filed_remove S (conn_filed x) w))"

text \<open>What the closures queued on a connection's behalf do when the loop runs them.\<close>

fun conn_task ::
  "'k sys \<Rightarrow> ('k, 'z) app \<Rightarrow> int \<Rightarrow> task \<Rightarrow> ('k, 'z) process_scheme \<Rightarrow>
     (fault + ('k, 'z) process_scheme) option" where
  "conn_task S app tid (TConnectEstablished c) w = Some (connectEstablished S app tid c w)"
| "conn_task S app tid (TConnectDestroyed c) w = Some (connectDestroyed S app tid c w)"
| "conn_task S app tid (TSendInLoop c a len) w = Some (sendinLoop S tid c a len w)"
| "conn_task S app tid (TShutdownInLoop c) w = Some (shutdownInLoop S c w)"
| "conn_task S app tid (TWriteComplete cb c) w = Some (call_app S app tid (Some cb) (EvWriteComplete c) w)"
| "conn_task S app tid (THighWaterMark cb c n) w =
     Some (call_app S app tid (Some cb) (EvHighWaterMark c n) w)"
| "conn_task S app tid (TUser n) w = Some (call_app S app tid (Some n) EvUser w)"
| "conn_task S app tid TListen w = None"
| "conn_task S app tid (TRemoveConnection c) w = None"

fun conn_handler ::
  "'k sys \<Rightarrow> ('k, 'z) app \<Rightarrow> ('k, 'z) closecb \<Rightarrow> int \<Rightarrow> int \<Rightarrow> handler \<Rightarrow> ('k, 'z) process_scheme \<Rightarrow>
     (fault + ('k, 'z) process_scheme) option" where
  "conn_handler S app closecb tid now (HConnRead c) w = Some (handleRead S app closecb tid c now w)"
| "conn_handler S app closecb tid now (HConnWrite c) w = Some (handleWrite S tid c w)"
| "conn_handler S app closecb tid now (HConnClose c) w = Some (handleClose S app closecb tid c w)"
| "conn_handler S app closecb tid now (HConnError c) w = Some (handleError S c w)"
| "conn_handler S app closecb tid now (HWakeupRead l) w = None"
| "conn_handler S app closecb tid now HAcceptRead w = None"

end
