(* ===== verification/ConnectionInv.thy ===== *)
theory ConnectionInv
  imports Connection
begin

text \<open>
  The invariant of the connections and their state machine: every operation, handler, task and user call
  keeps it, none ends the process or fails an assertion, and a connection's state only moves forward.
\<close>

section \<open>The invariant\<close>

text \<open>
  Per connection: both buffers are well formed, the \<open>Filed\<close> belongs to the connection's loop and descriptor
  and, until the connection is closed, write events are asked for exactly while output is waiting.
\<close>

definition conn_ok :: "('k, 'z) process_scheme \<Rightarrow> connection \<Rightarrow> bool" where
  "conn_ok w x \<longleftrightarrow> buffer_inv (inputBuffer x) \<and> buffer_inv (outputBuffer x) \<and>
     filed_fd (filedOf w (conn_filed x)) = conn_fd x \<and> filed_loop (filedOf w (conn_filed x)) = conn_loop x \<and>
     (conn_state x \<noteq> kDisconnected \<longrightarrow>
        (isWriting (filedOf w (conn_filed x)) \<longleftrightarrow> content (outputBuffer x) \<noteq> []))"

definition process_inv :: "'k interest \<Rightarrow> nat set \<Rightarrow> nat set \<Rightarrow> ('k, 'z) process_scheme \<Rightarrow> bool" where
  "process_inv itst L live w \<longleftrightarrow> registry_inv itst L live w \<and>
     (\<forall>c x. conns w c = Some x \<longrightarrow> conn_filed x \<in> live \<and> conn_ok w x) \<and>
     (\<forall>c x d y. conns w c = Some x \<longrightarrow> conns w d = Some y \<longrightarrow> conn_filed x = conn_filed y \<longrightarrow> c = d)"

lemma process_invD:
  assumes "process_inv itst L live w"
  shows "registry_inv itst L live w"
    and "conns w c = Some x \<Longrightarrow> conn_filed x \<in> live"
    and "conns w c = Some x \<Longrightarrow> conn_ok w x"
    and "conns w c = Some x \<Longrightarrow> conns w d = Some y \<Longrightarrow> conn_filed x = conn_filed y \<Longrightarrow> c = d"
  using assms unfolding process_inv_def by blast+

text \<open>The order in which a connection goes through its states.\<close>

fun state_rank :: "conn_state \<Rightarrow> nat" where
  "state_rank kConnecting = 0"
| "state_rank kConnected = 1"
| "state_rank kDisconnecting = 2"
| "state_rank kDisconnected = 3"

instantiation conn_state :: linorder
begin

definition less_eq_conn_state :: "conn_state \<Rightarrow> conn_state \<Rightarrow> bool" where
  [simp]: "less_eq_conn_state s t \<longleftrightarrow> state_rank s \<le> state_rank t"

definition less_conn_state :: "conn_state \<Rightarrow> conn_state \<Rightarrow> bool" where
  [simp]: "less_conn_state s t \<longleftrightarrow> state_rank s < state_rank t"

instance
proof
  fix s t :: conn_state
  assume "s \<le> t" "t \<le> s"
  then show "s = t" by (cases s; cases t) simp_all
qed auto

end

definition conn_forward :: "connection \<Rightarrow> connection \<Rightarrow> bool" where
  "conn_forward x y \<longleftrightarrow> conn_state x \<le> conn_state y \<and>
     conn_filed y = conn_filed x \<and> conn_fd y = conn_fd x \<and> conn_loop y = conn_loop x \<and>
     conn_name y = conn_name x"

definition forward :: "('k, 'z) process_scheme \<Rightarrow> ('k, 'z) process_scheme \<Rightarrow> bool" where
  "forward w w' \<longleftrightarrow> (\<forall>c x. conns w c = Some x \<longrightarrow> (\<exists>y. conns w' c = Some y \<and> conn_forward x y))"

lemma conn_forward_refl [simp]: "conn_forward x x"
  by (simp add: conn_forward_def)

lemma conn_forward_trans: "conn_forward x y \<Longrightarrow> conn_forward y z \<Longrightarrow> conn_forward x z"
  by (auto simp: conn_forward_def)

lemma forward_refl [simp]: "forward w w"
  by (simp add: forward_def)

lemma forwardD: "forward w w' \<Longrightarrow> conns w c = Some x \<Longrightarrow> \<exists>y. conns w' c = Some y \<and> conn_forward x y"
  unfolding forward_def by blast

lemma forward_trans: "forward u v \<Longrightarrow> forward v w \<Longrightarrow> forward u w"
  unfolding forward_def by (meson conn_forward_trans)

text \<open>What every operation is shown to keep, relative to the state \<open>w0\<close> before.\<close>

definition good ::
  "'k interest \<Rightarrow> nat set \<Rightarrow> nat set \<Rightarrow> ('k, 'z) process_scheme \<Rightarrow> ('k, 'z) process_scheme \<Rightarrow> bool" where
  "good itst L live w0 w \<longleftrightarrow> process_inv itst L live w \<and> forward w0 w"

lemma goodD:
  assumes "good itst L live w0 w"
  shows "process_inv itst L live w" and "registry_inv itst L live w" and "forward w0 w"
    and "conns w c = Some x \<Longrightarrow> conn_ok w x" and "conns w c = Some x \<Longrightarrow> conn_filed x \<in> live"
  using assms process_invD unfolding good_def by blast+

text \<open>The faults that remain possible: none of them is a fatal log line or a failed assertion.\<close>

definition not_fatal :: "fault \<Rightarrow> bool" where
  "not_fatal e \<longleftrightarrow> e \<noteq> ExitFailure \<and> e \<noteq> AssertionFailure"

lemma not_fatal_simps [simp]:
  "not_fatal OutOfBounds" "not_fatal LengthError" "not_fatal BadFunctionCall" "not_fatal UseAfterFree"
  "not_fatal SignedOverflow"
  by (simp_all add: not_fatal_def)

abbreviation keeps :: "'k interest \<Rightarrow> nat set \<Rightarrow> nat set \<Rightarrow> ('k, 'z) process_scheme \<Rightarrow>
    fault + ('k, 'z) process_scheme \<Rightarrow> bool" where
  "keeps itst L live w0 \<equiv> outcome not_fatal (good itst L live w0)"

section \<open>Steps that only touch one connection\<close>

lemma good_frame:
  assumes "good itst L live w0 w" and "same_objects itst w w'" and "conns w' = conns w"
  shows "good itst L live w0 w'"
proof -
  have "conn_ok w' x \<longleftrightarrow> conn_ok w x" for x
    using assms(2) by (simp add: conn_ok_def same_objects_def)
  moreover have "registry_inv itst L live w'"
    by (rule same_objects_registry [OF assms(2) goodD(2) [OF assms(1)]])
  ultimately show ?thesis
    using assms(1,3) by (simp add: good_def process_inv_def forward_def)
qed

lemma good_step:
  assumes inv: "good itst L live w0 w" and c: "conns w c = Some x"
    and reg: "registry_inv itst L live w'"
    and conns: "conns w' = (conns w)(c \<mapsto> y)" and fwd: "conn_forward x y"
    and others: "\<And>q. q \<noteq> conn_filed x \<Longrightarrow> filedOf w' q = filedOf w q"
    and ok: "conn_ok w' y"
  shows "good itst L live w0 w'"
proof -
  have pinv: "process_inv itst L live w" and f0: "forward w0 w"
    using inv by (simp_all add: good_def)
  have y: "conn_filed y = conn_filed x" using fwd by (simp add: conn_forward_def)
  have "conn_filed z \<in> live \<and> conn_ok w' z" if z: "conns w' d = Some z" for d z
  proof (cases "d = c")
    case True
    with z conns ok y process_invD(2) [OF pinv c] show ?thesis by simp
  next
    case False
    with z conns have zd: "conns w d = Some z" by simp
    with False process_invD(4) [OF pinv c zd] have "conn_filed z \<noteq> conn_filed x" by metis
    with others process_invD(2,3) [OF pinv zd] show ?thesis by (simp add: conn_ok_def)
  qed
  moreover have "d = e" if "conns w' d = Some z" "conns w' e = Some v" "conn_filed z = conn_filed v" for d e z v
  proof -
    have old: "\<exists>z'. conns w d = Some z' \<and> conn_filed z' = conn_filed z" if "conns w' d = Some z" for d z
      using that conns c y by (cases "d = c") auto
    from old [OF that(1)] old [OF that(2)] that(3) show ?thesis
      using process_invD(4) [OF pinv] by metis
  qed
  moreover have "forward w w'"
    using conns c fwd by (auto simp: forward_def)
  ultimately show ?thesis
    using reg forward_trans [OF f0] by (auto simp: good_def process_inv_def)
qed

text \<open>The frame facts of the operations of other components.\<close>

lemma upd_loop_frame [simp]:
  "same_objects itst w (upd_loop l g w')  \<longleftrightarrow> same_objects itst w w'" "conns (upd_loop l g w') = conns w'"
  "filedOf (upd_loop l g w') = filedOf w'" "strings (upd_loop l g w') = strings w'"
  "epollerOf (upd_loop l g w') = epollerOf w'" "kern (upd_loop l g w') = kern w'"
  by (simp_all add: same_objects_def upd_loop_def)

lemma log_line_frame [simp]:
  "same_objects itst w (log_line lv m w') \<longleftrightarrow> same_objects itst w w'" "conns (log_line lv m w') = conns w'"
  "filedOf (log_line lv m w') = filedOf w'" "strings (log_line lv m w') = strings w'"
  "epollerOf (log_line lv m w') = epollerOf w'" "kern (log_line lv m w') = kern w'"
  by (simp_all add: same_objects_def log_line_def)

lemma wakeup_frame:
  assumes "interest_frame S itst"
  shows "same_objects itst w (wakeup S l w)" and "conns (wakeup S l w) = conns w"
    and "filedOf (wakeup S l w) = filedOf w" and "strings (wakeup S l w) = strings w"
proof -
  obtain n k' where "sys_write S (wakeupFd (loopOf w l)) wake_bytes (kern w) = (n, k')" by fastforce
  with interest_frameD(3) [OF assms this] show "same_objects itst w (wakeup S l w)"
    "conns (wakeup S l w) = conns w" "filedOf (wakeup S l w) = filedOf w" "strings (wakeup S l w) = strings w"
    by (simp_all add: wakeup_def same_objects_def log_line_def Let_def)
qed

lemma queueinLoop_frame:
  assumes "interest_frame S itst"
  shows "same_objects itst w (queueinLoop S tid l t w)" and "conns (queueinLoop S tid l t w) = conns w"
    and "filedOf (queueinLoop S tid l t w) = filedOf w" and "strings (queueinLoop S tid l t w) = strings w"
  using wakeup_frame [OF assms, where w = "post_func l t w" and l = l]
  by (simp_all add: queueinLoop_def wake_after_post_def post_func_def same_objects_def)

lemma check_high_water_frame:
  assumes "interest_frame S itst"
  shows "same_objects itst w (check_high_water S tid c r x w)"
    and "conns (check_high_water S tid c r x w) = conns w"
    and "filedOf (check_high_water S tid c r x w) = filedOf w"
    and "strings (check_high_water S tid c r x w) = strings w"
  by (simp_all add: queueinLoop_frame [OF assms] check_high_water_def Let_def split: option.split)

lemma quit_loop_frame:
  assumes "interest_frame S itst"
  shows "same_objects itst w (quit_loop S tid l w)" and "conns (quit_loop S tid l w) = conns w"
  using wakeup_frame [OF assms, where w = "upd_loop l (\<lambda>e. e\<lparr>quit := True\<rparr>) w" and l = l]
  by (simp_all add: quit_loop_def same_objects_def Let_def)

lemma shutdownWrite_frame:
  assumes "interest_frame S itst"
  shows "same_objects itst w (Socket_shutdownWrite S fd w)" and "conns (Socket_shutdownWrite S fd w) = conns w"
proof -
  obtain r k' where "sys_shutdown_wr S fd (kern w) = (r, k')" by fastforce
  then show "conns (Socket_shutdownWrite S fd w) = conns w"
    by (simp add: Socket_shutdownWrite_def Let_def)
qed (rule shutdownWrite_objects [OF assms])

lemmas frames = wakeup_frame queueinLoop_frame quit_loop_frame shutdownWrite_frame


lemma upd_conn_some: "conns w c = Some x \<Longrightarrow> conns (upd_conn c g w) = (conns w)(c \<mapsto> g x)"
  by (simp add: upd_conn_def)

lemma upd_conn_frame [simp]:
  "same_objects itst w (upd_conn c g w') \<longleftrightarrow> same_objects itst w w'" "filedOf (upd_conn c g w') = filedOf w'"
  "strings (upd_conn c g w') = strings w'" "kern (upd_conn c g w') = kern w'"
  "epollerOf (upd_conn c g w') = epollerOf w'" "loopOf (upd_conn c g w') = loopOf w'"
  by (simp_all add: same_objects_def upd_conn_def)

lemma good_conn:
  assumes "good itst L live w0 w" and "conns w c = Some x" and "conn_forward x (g x)" and "conn_ok w (g x)"
  shows "good itst L live w0 (upd_conn c g w)"
proof (rule good_step [OF assms(1,2) _ _ assms(3)])
  show "conns (upd_conn c g w) = (conns w)(c \<mapsto> g x)" by (rule upd_conn_some [OF assms(2)])
  show "registry_inv itst L live (upd_conn c g w)"
    by (rule same_objects_registry [OF _ goodD(2) [OF assms(1)]]) simp
qed (use assms(4) in \<open>simp_all add: conn_ok_def\<close>)

text \<open>An event request on a connection's \<open>Filed\<close>, together with a change of the connection.\<close>

lemma good_request:
  assumes law: "epoll_ctl_law S itst" and good: "good itst L live w0 w" and c: "conns w c = Some x"
    and fwd: "conn_forward x (g x)"
    and ok: "buffer_inv (inputBuffer (g x))" "buffer_inv (outputBuffer (g x))"
      "conn_state (g x) \<noteq> kDisconnected \<Longrightarrow>
         writing_mask (m (events (filedOf w (conn_filed x)))) \<longleftrightarrow> content (outputBuffer (g x)) \<noteq> []"
  shows "keeps itst L live w0 (set_mask S (conn_filed x) m (upd_conn c g w))"
proof -
  let ?fp = "conn_filed x" and ?w = "upd_conn c g w"
  have pinv: "process_inv itst L live w" using good by (simp add: good_def)
  have reg: "registry_inv itst L live ?w"
    by (rule same_objects_registry [OF _ process_invD(1) [OF pinv]]) simp
  obtain k' where k': "set_mask S ?fp m ?w = Inr (updated ?fp (m (events (filedOf ?w ?fp))) k' ?w)"
    "registry_inv itst L live (updated ?fp (m (events (filedOf ?w ?fp))) k' ?w)"
    using set_mask_exact [OF law reg process_invD(2) [OF pinv c]] by metis
  let ?w' = "updated ?fp (m (events (filedOf ?w ?fp))) k' ?w"
  have "good itst L live w0 ?w'"
  proof (rule good_step [OF good c k'(2) _ fwd])
    show "conns ?w' = (conns w)(c \<mapsto> g x)"
      by (simp add: updated_def upd_conn_some [OF c] Let_def)
    show "filedOf ?w' q = filedOf w q" if "q \<noteq> ?fp" for q
      using that by (simp add: updated_def Let_def)
    have x: "conn_ok w x" by (rule process_invD(3) [OF pinv c])
    show "conn_ok ?w' (g x)"
      using x ok fwd by (auto simp: conn_ok_def conn_forward_def updated_def Let_def isWriting_mask)
  qed
  with k'(1) show ?thesis by simp
qed

section \<open>Operations keep the invariant\<close>

text \<open>The documented behaviour the invariant rests on.\<close>

definition io_laws :: "'k sys \<Rightarrow> 'k interest \<Rightarrow> bool" where
  "io_laws S itst \<longleftrightarrow> epoll_ctl_law S itst \<and> interest_frame S itst \<and> readv_law S"

lemma io_lawsD:
  assumes "io_laws S itst"
  shows "epoll_ctl_law S itst" and "interest_frame S itst" and "readv_law S"
  using assms by (simp_all add: io_laws_def)

lemma read_string_outcome: "outcome not_fatal (\<lambda>d. length d = unat n) (read_string a off n w)"
  by (auto simp: read_string_def read_block_def split: option.split)

lemma buffer_append_outcome:
  assumes "buffer_inv b"
  shows "outcome not_fatal (\<lambda>b'. buffer_inv b' \<and> content b' = content b @ d) (buffer_append d b)"
proof (cases "buffer_append d b")
  case (Inr b')
  with buffer_append_Inr [OF assms Inr] show ?thesis by simp
next
  case (Inl e)
  then have "e = OutOfBounds \<or> e = LengthError"
    by (auto simp: buffer_append_def ensureWritableBytes_def makeSpace_def vector_resize_def write_block_def
        Let_def bindE_Inl_iff split: if_splits)
  with Inl show ?thesis by auto
qed

lemma sendinLoop_queue_keeps:
  assumes law: "io_laws S itst" and good: "good itst L live w0 w" and c: "conns w c = Some x"
    and open_: "conn_state x \<noteq> kDisconnected" and pos: "remaining > 0"
  shows "keeps itst L live w0 (sendinLoop_queue S tid c a nwrote remaining x w)"
proof -
  define w1 where "w1 = check_high_water S tid c remaining x w"
  have w1: "same_objects itst w w1" "conns w1 = conns w" "filedOf w1 = filedOf w"
    using check_high_water_frame [OF io_lawsD(2) [OF law]] by (simp_all add: w1_def)
  note g1 = good_frame [OF good w1(1,2)]
  have c1: "conns w1 c = Some x" using c w1(2) by simp
  note ok = goodD(4) [OF g1 c1]
  have "keeps itst L live w0
      (bindE (read_string a nwrote remaining w1) (\<lambda>d. bindE (buffer_append d (outputBuffer x)) (\<lambda>b.
         let w = upd_conn c (\<lambda>x. x\<lparr>outputBuffer := b\<rparr>) w1
         in if \<not> isWriting (filedOf w (conn_filed x)) then enableWriting S (conn_filed x) w else Inr w)))"
  proof (rule outcome_bind [OF read_string_outcome], rule outcome_bind [OF buffer_append_outcome])
    show "buffer_inv (outputBuffer x)" using ok by (simp add: conn_ok_def)
    fix d b
    assume d: "length d = unat remaining" and b: "buffer_inv b \<and> content b = content (outputBuffer x) @ d"
    have "0 < unat remaining" using pos by (simp add: word_less_nat_alt)
    with d have ne: "d \<noteq> []" by auto
    have fwd: "conn_forward x (x\<lparr>outputBuffer := b\<rparr>)" by (simp add: conn_forward_def)
    show "keeps itst L live w0 (let w = upd_conn c (\<lambda>x. x\<lparr>outputBuffer := b\<rparr>) w1
        in if \<not> isWriting (filedOf w (conn_filed x)) then enableWriting S (conn_filed x) w else Inr w)"
    proof (cases "isWriting (filedOf w1 (conn_filed x))")
      case True
      then have "conn_ok w1 (x\<lparr>outputBuffer := b\<rparr>)" using ok b ne by (simp add: conn_ok_def)
      with True good_conn [where g = "\<lambda>x. x\<lparr>outputBuffer := b\<rparr>", OF g1 c1 fwd] show ?thesis by simp
    next
      case False
      have "keeps itst L live w0 (set_mask S (conn_filed x) mask_enableWriting
          (upd_conn c (\<lambda>x. x\<lparr>outputBuffer := b\<rparr>) w1))"
        using ok b ne
        by (intro good_request [OF io_lawsD(1) [OF law] g1 c1]) (simp_all add: conn_forward_def conn_ok_def mask_test)
      with False show ?thesis by (simp add: set_mask_eqs)
    qed
  qed
  then show ?thesis by (simp add: sendinLoop_queue_def Let_def flip: w1_def)
qed

lemma sendinLoop_write_keeps:
  assumes law: "io_laws S itst" and good: "good itst L live w0 w"
  shows "outcome not_fatal (\<lambda>(n, r, e, w'). good itst L live w0 w' \<and> conns w' = conns w)
    (sendinLoop_write S tid c a len x w)"
proof -
  have "outcome not_fatal (\<lambda>(n, r, e, w'). good itst L live w0 w' \<and> conns w' = conns w)
      (let (nwrote, k') = sys_write S (filed_fd (filedOf w (conn_filed x))) d (kern w); w = w\<lparr>kern := k'\<rparr>
       in if nwrote > 0
          then let remaining = len - of_int nwrote in
            (case writeCompleteCallback x of
               Some cb \<Rightarrow>
                 if remaining = 0
                 then Inr (nwrote, remaining, False, queueinLoop S tid (conn_loop x) (TWriteComplete cb c) w)
                 else Inr (0, remaining, sys_errno S k' \<noteq> EWOULDBLOCK, w)
             | None \<Rightarrow> Inr (0, remaining, sys_errno S k' \<noteq> EWOULDBLOCK, w))
          else Inr (nwrote, len, False, w))" for d
  proof -
    obtain n k' where wr: "sys_write S (filed_fd (filedOf w (conn_filed x))) d (kern w) = (n, k')" by fastforce
    let ?w = "w\<lparr>kern := k'\<rparr>"
    have "same_objects itst w ?w"
      using interest_frameD(3) [OF io_lawsD(2) [OF law] wr] by (simp add: same_objects_def)
    from good_frame [OF good this] have g: "good itst L live w0 ?w" by simp
    moreover have "good itst L live w0 (queueinLoop S tid l t ?w) \<and> conns (queueinLoop S tid l t ?w) = conns w" for l t
      using good_frame [OF g] queueinLoop_frame [OF io_lawsD(2) [OF law], where w = ?w] by simp
    ultimately show ?thesis by (simp add: wr Let_def split: option.split)
  qed
  then show ?thesis
    unfolding sendinLoop_write_def by (intro outcome_bind [OF read_string_outcome]) blast
qed

lemma sendinLoop_keeps:
  assumes law: "io_laws S itst" and good: "good itst L live w0 w"
  shows "keeps itst L live w0 (sendinLoop S tid c a len w)"
proof (cases "conns w c")
  case None
  then show ?thesis by (simp add: sendinLoop_def with_conn_def)
next
  case (Some x)
  have log: "good itst L live w0 (log_line ERROR m w)" for m
    by (rule good_frame [OF good]) simp_all
  have "outcome not_fatal (\<lambda>(n, r, e, w'). good itst L live w0 w' \<and> conns w' = conns w)
      (if \<not> isWriting (filedOf w (conn_filed x)) \<and> readableBytes (outputBuffer x) = 0
       then sendinLoop_write S tid c a len x w else Inr (0, len, False, w))"
    using sendinLoop_write_keeps [OF law good] good by simp
  then have "keeps itst L live w0 (bindE (if \<not> isWriting (filedOf w (conn_filed x)) \<and> readableBytes (outputBuffer x) = 0
       then sendinLoop_write S tid c a len x w else Inr (0, len, False, w))
       (\<lambda>(nwrote, remaining, faultError, w).
                 if \<not> faultError \<and> remaining > 0 then sendinLoop_queue S tid c a nwrote remaining x w
                 else Inr w))" if "conn_state x \<noteq> kDisconnected"
    by (rule outcome_bind)
      (use Some that in \<open>auto simp del: word_neq_0_conv intro!: sendinLoop_queue_keeps [OF law]\<close>)
  with Some log show ?thesis by (simp add: sendinLoop_def with_conn_def)
qed

lemma shutdownInLoop_keeps:
  assumes law: "io_laws S itst" and good: "good itst L live w0 w"
  shows "keeps itst L live w0 (shutdownInLoop S c w)"
  using good good_frame [OF good shutdownWrite_frame [OF io_lawsD(2) [OF law]]]
  by (simp add: shutdownInLoop_def with_conn_def split: option.split)

lemma queue_keeps:
  assumes law: "io_laws S itst" and good: "good itst L live w0 w"
  shows "good itst L live w0 (queueinLoop S tid l t w)"
  by (rule good_frame [OF good queueinLoop_frame(1,2) [OF io_lawsD(2) [OF law]]])

lemma runinLoop_keeps:
  assumes law: "io_laws S itst" and good: "good itst L live w0 w" and "keeps itst L live w0 (call w)"
  shows "keeps itst L live w0 (runinLoop S tid l t call w)"
  using queue_keeps [OF law good] assms(3) by (simp add: runinLoop_def)

lemma send_keeps:
  assumes law: "io_laws S itst" and good: "good itst L live w0 w"
  shows "keeps itst L live w0 (send S tid c a w)"
  using good sendinLoop_keeps [OF law good] runinLoop_keeps [OF law good]
  by (simp add: send_def with_conn_def Let_def split: option.split)

lemma shutdown_keeps:
  assumes law: "io_laws S itst" and good: "good itst L live w0 w"
  shows "keeps itst L live w0 (shutdown S tid c w)"
proof (cases "conns w c")
  case None
  then show ?thesis by (simp add: shutdown_def with_conn_def)
next
  case (Some x)
  let ?g = "\<lambda>x. x\<lparr>conn_state := kDisconnecting\<rparr>"
  have "good itst L live w0 (setState kDisconnecting c w)" if "conn_state x = kConnected"
    unfolding setState_def
    using that goodD(4) [OF good Some]
    by (intro good_conn [where g = ?g, OF good Some]) (simp_all add: conn_forward_def conn_ok_def)
  with Some good show ?thesis
    by (auto simp: shutdown_def with_conn_def intro!: runinLoop_keeps [OF law] shutdownInLoop_keeps [OF law])
qed

lemma conn_tweak:
  assumes good: "good itst L live w0 w"
    and "\<And>x. conn_ok w x \<Longrightarrow> conn_forward x (g x) \<and> conn_ok w (g x)"
  shows "keeps itst L live w0 (with_conn c w (\<lambda>_. Inr (upd_conn c g w)))"
proof (cases "conns w c")
  case (Some x)
  have "conn_forward x (g x) \<and> conn_ok w (g x)" by (rule assms(2) [OF goodD(4) [OF good Some]])
  with good_conn [where g = g, OF good Some] Some show ?thesis by (simp add: with_conn_def)
qed (simp add: with_conn_def)

lemma strings_frame [simp]: "same_objects itst w (w'\<lparr>strings := m\<rparr>) \<longleftrightarrow> same_objects itst w w'"
  by (simp add: same_objects_def)

lemma do_api_keeps:
  assumes law: "io_laws S itst" and good: "good itst L live w0 w"
  shows "keeps itst L live w0 (do_api S tid x w)"
proof (cases x)
  case (ApiString a d)
  with good_frame [OF good, of "w\<lparr>strings := (strings w)(a \<mapsto> d)\<rparr>"] show ?thesis by simp
next
  case (ApiFree a)
  with good_frame [OF good, of "w\<lparr>strings := (strings w)(a := None)\<rparr>"] show ?thesis by simp
next
  case (ApiRetrieve c n)
  with conn_tweak [OF good, where g = "\<lambda>x. x\<lparr>inputBuffer := retrieve n (inputBuffer x)\<rparr>"] show ?thesis
    by (simp add: conn_forward_def conn_ok_def retrieve_inv)
next
  case (ApiTakeAll c a)
  show ?thesis
  proof (cases "conns w c")
    case None
    with ApiTakeAll show ?thesis by (simp add: with_conn_def)
  next
    case (Some y)
    let ?g = "\<lambda>x. x\<lparr>inputBuffer := retrieveAll (inputBuffer y)\<rparr>"
    have b: "buffer_inv (inputBuffer y)" using goodD(4) [OF good Some] by (simp add: conn_ok_def)
    have "good itst L live w0 (upd_conn c ?g (w\<lparr>strings := (strings w)(a \<mapsto> content (inputBuffer y))\<rparr>))"
      by (rule good_conn [OF good_frame [OF good]])
        (use Some goodD(4) [OF good Some] in \<open>auto simp: conn_forward_def conn_ok_def retrieveAll_inv\<close>)
    with ApiTakeAll Some show ?thesis by (simp add: with_conn_def retrieveAllAsString_content [OF b])
  qed
next
  case (ApiSetMessage c cb)
  with conn_tweak [OF good, where g = "\<lambda>x. x\<lparr>messageCallback := cb\<rparr>"] show ?thesis
    by (simp add: setMessageCallback_def conn_forward_def conn_ok_def)
next
  case (ApiSetWriteComplete c cb)
  with conn_tweak [OF good, where g = "\<lambda>x. x\<lparr>writeCompleteCallback := cb\<rparr>"] show ?thesis
    by (simp add: setWriteCompleteCallback_def conn_forward_def conn_ok_def)
next
  case (ApiSetHighWaterMark c cb m)
  with conn_tweak [OF good, where g = "\<lambda>x. x\<lparr>highWaterMarkCallback := cb, highWaterMark := m\<rparr>"]
  show ?thesis by (simp add: setHighWaterMarkCallback_def conn_forward_def conn_ok_def)
next
  case (ApiQuit l)
  with good_frame [OF good quit_loop_frame [OF io_lawsD(2) [OF law]]] show ?thesis by simp
qed (use send_keeps [OF law good] shutdown_keeps [OF law good] queue_keeps [OF law good] in simp_all)

lemma call_app_keeps:
  assumes law: "io_laws S itst" and good: "good itst L live w0 w"
  shows "keeps itst L live w0 (call_app S app tid cb ev w)"
  using good do_api_keeps [OF law]
  by (auto simp: call_app_def split: option.split intro!: outcome_runE)

lemma good_same_registration:
  assumes good: "good itst L live w0 w" and "itst (kern w') = itst (kern w)" and conns: "conns w' = conns w"
    and f: "\<And>fp. same_registration (filedOf w fp) (filedOf w' fp)"
    and e: "\<And>l. fileds (epollerOf w' l) = fileds (epollerOf w l)"
      "\<And>l. epollfd (epollerOf w' l) = epollfd (epollerOf w l)"
  shows "good itst L live w0 w'"
proof -
  have "registry_inv itst L live w'"
    by (rule registry_frame [OF goodD(2) [OF good] assms(2) f e])
  moreover have "conn_ok w' x \<longleftrightarrow> conn_ok w x" for x
    using f [of "conn_filed x"] by (simp add: conn_ok_def same_registration_def isWriting_mask)
  ultimately show ?thesis
    using good conns by (simp add: good_def process_inv_def forward_def)
qed

lemma good_remove:
  assumes law: "io_laws S itst" and good: "good itst L live w0 w" and fp: "fp \<in> live"
  shows "keeps itst L live w0 (Filed_remove S fp w)"
proof -
  obtain k' where k': "Filed_remove S fp w = Inr (removed fp k' w)" "registry_inv itst L live (removed fp k' w)"
    using Filed_remove_exact [OF io_lawsD(1) [OF law] goodD(2) [OF good] fp] by metis
  have "conn_ok (removed fp k' w) x \<longleftrightarrow> conn_ok w x" for x
    by (simp add: conn_ok_def removed_def Let_def isWriting_mask)
  moreover have "conns (removed fp k' w) = conns w" by (simp add: removed_def Let_def)
  ultimately have "good itst L live w0 (removed fp k' w)"
    using good k'(2) by (simp add: good_def process_inv_def forward_def)
  with k'(1) show ?thesis by simp
qed

text \<open>Closing the \<open>Filed\<close> of a connection and marking it disconnected.\<close>

lemma disconnect_keeps:
  assumes law: "io_laws S itst" and good: "good itst L live w0 w" and c: "conns w c = Some x"
  shows "keeps itst L live w0 (disableAll S (conn_filed x) (setState kDisconnected c w))"
proof -
  have "state_rank s \<le> 3" for s by (cases s) simp_all
  then show ?thesis
    unfolding set_mask_eqs setState_def
    using goodD(4) [OF good c]
    by (intro good_request [OF io_lawsD(1) [OF law] good c]) (simp_all add: conn_forward_def conn_ok_def)
qed

lemma establish_keeps:
  assumes law: "io_laws S itst" and good: "good itst L live w0 w" and c: "conns w c = Some x"
    and new: "conn_state x = kConnecting \<or> conn_state x = kConnected"
  shows "keeps itst L live w0
    (set_mask S (conn_filed x) mask_enableReading (upd_filed (conn_filed x) (tie c) (setState kConnected c w)))"
proof -
  let ?v = "upd_filed (conn_filed x) (tie c) w"
  have swap: "upd_filed (conn_filed x) (tie c) (setState kConnected c w) = setState kConnected c ?v"
    by (simp add: upd_filed_def setState_def upd_conn_def)
  have v: "good itst L live w0 ?v"
    by (rule good_same_registration [OF good]) (simp_all add: upd_filed_def same_registration_def tie_def)
  have cv: "conns ?v c = Some x" using c by (simp add: upd_filed_def)
  have st: "conn_state x \<noteq> kDisconnected" "state_rank (conn_state x) \<le> 1" using new by auto
  show ?thesis
    unfolding swap unfolding setState_def
    using goodD(4) [OF v cv] st
    by (intro good_request [OF io_lawsD(1) [OF law] v cv])
      (simp_all add: conn_forward_def conn_ok_def mask_test isWriting_mask)
qed

lemma connectEstablished_keeps:
  assumes law: "io_laws S itst" and good: "good itst L live w0 w"
    and new: "\<And>x. conns w c = Some x \<Longrightarrow> conn_state x = kConnecting \<or> conn_state x = kConnected"
  shows "keeps itst L live w0 (connectEstablished S app tid c w)"
  using establish_keeps [OF law good _ new] call_app_keeps [OF law]
  by (auto simp: connectEstablished_def with_conn_def set_mask_eqs split: option.split intro!: outcome_bind)

lemma connectDestroyed_keeps:
  assumes law: "io_laws S itst" and good: "good itst L live w0 w"
  shows "keeps itst L live w0 (connectDestroyed S app tid c w)"
proof (cases "conns w c")
  case None
  then show ?thesis by (simp add: connectDestroyed_def with_conn_def)
next
  case (Some x)
  note fp = goodD(5) [OF good Some]
  have "keeps itst L live w0 (bindE (disableAll S (conn_filed x) (setState kDisconnected c w)) (\<lambda>w.
      call_app S app tid (connectionCallback x) (EvConnection c) w))"
    by (rule outcome_bind [OF disconnect_keeps [OF law good Some]]) (rule call_app_keeps [OF law])
  then have "keeps itst L live w0 (if conn_state x = kConnected
      then bindE (disableAll S (conn_filed x) (setState kDisconnected c w)) (\<lambda>w.
        call_app S app tid (connectionCallback x) (EvConnection c) w) else Inr w)"
    using good by simp
  from outcome_bind [OF this good_remove [OF law _ fp]] show ?thesis
    by (simp only: connectDestroyed_def with_conn_def Some option.case)
qed

lemma readFd_outcome:
  assumes law: "io_laws S itst" and b: "buffer_inv b"
  shows "outcome not_fatal (\<lambda>(n, e, b', k'). buffer_inv b' \<and> itst k' = itst k) (readFd S fd saved b k)"
proof -
  obtain m d k1 where rd: "sys_readv S fd (readFd_iov b) k = (m, d, k1)" by (metis prod_cases3)
  note k1 = interest_frameD(2) [OF io_lawsD(2) [OF law] rd]
  show ?thesis
  proof (cases "m < 0")
    case True
    with readFd_error [OF rd True] b k1 show ?thesis by simp
  next
    case False
    let ?w = "unat (writableBytes b)"
    have "0 \<le> m" using False by simp
    from readFd_split(1) [OF b io_lawsD(3) [OF law] rd this refl, of saved] k1
      filled_inv(1) [OF b, of d] filled_inv(1) [OF b, of "take ?w d"] buffer_append_outcome
    show ?thesis by (auto intro!: outcome_bind)
  qed
qed

lemma handleError_keeps:
  assumes law: "io_laws S itst" and good: "good itst L live w0 w"
  shows "keeps itst L live w0 (handleError S c w)"
proof (cases "conns w c")
  case (Some x)
  obtain r v k' where so: "sys_getsockopt_error S (filed_fd (filedOf w (conn_filed x))) (kern w) = (r, v, k')"
    by (metis prod_cases3)
  have "same_objects itst w (w\<lparr>kern := k'\<rparr>)"
    using interest_frameD(5) [OF io_lawsD(2) [OF law] so] by (simp add: same_objects_def)
  with Some so good_frame [OF good, of "log_line lv m (w\<lparr>kern := k'\<rparr>)" for lv m] show ?thesis
    by (simp add: handleError_def with_conn_def)
qed (simp add: handleError_def with_conn_def)

lemma handleWrite_keeps:
  assumes law: "io_laws S itst" and good: "good itst L live w0 w"
  shows "keeps itst L live w0 (handleWrite S tid c w)"
proof (cases "conns w c")
  case None
  then show ?thesis by (simp add: handleWrite_def with_conn_def)
next
  case (Some x)
  show ?thesis
  proof (cases "isWriting (filedOf w (conn_filed x))")
    case False
    with Some good show ?thesis by (simp add: handleWrite_def with_conn_def)
  next
    case True
    note ok = goodD(4) [OF good Some]
    then have b: "buffer_inv (outputBuffer x)" by (simp add: conn_ok_def)
    obtain n k' where wr: "sys_write S (filed_fd (filedOf w (conn_filed x))) (content (outputBuffer x)) (kern w) = (n, k')"
      by fastforce
    let ?w = "w\<lparr>kern := k'\<rparr>"
    have same: "same_objects itst w ?w"
      using interest_frameD(3) [OF io_lawsD(2) [OF law] wr] by (simp add: same_objects_def)
    from good_frame [OF good same] have g: "good itst L live w0 ?w" by simp
    have cw: "conns ?w c = Some x" using Some by simp
    let ?b = "retrieve (of_int n) (outputBuffer x)"
    let ?g = "\<lambda>x. x\<lparr>outputBuffer := ?b\<rparr>"
    have fwd: "conn_forward x (?g x)" by (simp add: conn_forward_def)
    have bi: "buffer_inv ?b" using retrieve_inv [OF b] by blast
    have log: "good itst L live w0 (log_line lv m v)" if "good itst L live w0 v" for lv m v
      by (rule good_frame [OF that]) simp_all
    have part: "good itst L live w0 (upd_conn c ?g ?w)" if "content ?b \<noteq> []"
      by (rule good_conn [where g = ?g, OF g cw fwd]) (use ok bi that True in \<open>simp add: conn_ok_def\<close>)
    have "keeps itst L live w0 (set_mask S (conn_filed x) mask_disableWriting (upd_conn c ?g ?w))"
      if "content ?b = []"
      using ok bi that by (intro good_request [OF io_lawsD(1) [OF law] g cw])
        (simp_all add: conn_forward_def conn_ok_def mask_test)
    then have drained: "keeps itst L live w0 (bindE (disableWriting S (conn_filed x) (upd_conn c ?g ?w)) (\<lambda>w.
         let w = (case writeCompleteCallback x of
                    Some cb \<Rightarrow> queueinLoop S tid (conn_loop x) (TWriteComplete cb c) w | None \<Rightarrow> w)
         in if conn_state x = kDisconnecting then shutdownInLoop S c w else Inr w))" if "content ?b = []"
      unfolding set_mask_eqs using that
      by (auto simp: Let_def split: option.split
          intro!: outcome_bind queue_keeps [OF law] shutdownInLoop_keeps [OF law])
    show ?thesis
      using Some True log part drained g
      by (simp add: handleWrite_def with_conn_def writeFd_ok [OF b wr] buf.avail_zero [OF bi] Let_def)
  qed
qed

section \<open>The closing contract\<close>

text \<open>
  What a connection relies on when it calls \<open>closeCallback_\<close>: the callee keeps the invariant too.
\<close>

locale connection_owner =
  fixes S :: "'k sys" and itst :: "'k interest" and L live :: "nat set"
    and closecb :: "('k, 'z) closecb"
  assumes closecb_keeps: "io_laws S itst \<Longrightarrow> good itst L live w0 w \<Longrightarrow> keeps itst L live w0 (closecb tid h c w)"
begin

lemma handleClose_keeps:
  assumes laws: "io_laws S itst" and good: "good itst L live w0 w"
  shows "keeps itst L live w0 (handleClose S app closecb tid c w)"
proof (cases "conns w c")
  case None
  then show ?thesis by (simp add: handleClose_def with_conn_def)
next
  case (Some x)
  have "keeps itst L live w0 (with_conn c v (\<lambda>x. case conn_closeCallback x of
      None \<Rightarrow> Inl BadFunctionCall | Some h \<Rightarrow> closecb tid h c v))" if "good itst L live w0 v" for v
    using closecb_keeps [OF laws that] by (simp add: with_conn_def split: option.split)
  with Some show ?thesis
    by (auto simp: handleClose_def with_conn_def
        intro!: outcome_bind [OF disconnect_keeps [OF laws good Some]] outcome_bind [OF call_app_keeps [OF laws]])
qed

lemma handleRead_keeps:
  assumes laws: "io_laws S itst" and good: "good itst L live w0 w"
  shows "keeps itst L live w0 (handleRead S app closecb tid c now w)"
proof (cases "conns w c")
  case None
  then show ?thesis by (simp add: handleRead_def with_conn_def)
next
  case (Some x)
  have b: "buffer_inv (inputBuffer x)" using goodD(4) [OF good Some] by (simp add: conn_ok_def)
  let ?fd = "filed_fd (filedOf w (conn_filed x))"
  have "outcome not_fatal (\<lambda>(n, e, b', k'). buffer_inv b' \<and> itst k' = itst (kern w))
      (readFd S ?fd 0 (inputBuffer x) (kern w))"
    by (rule readFd_outcome [OF laws b])
  then have "keeps itst L live w0 (bindE (readFd S ?fd 0 (inputBuffer x) (kern w)) (\<lambda>(n, savedErrno, b, k').
         let w = upd_conn c (\<lambda>x. x\<lparr>inputBuffer := b\<rparr>) (w\<lparr>kern := k'\<rparr>) in
         if n > 0 then call_app S app tid (messageCallback x) (EvMessage c now) w
         else if n = 0 then handleClose S app closecb tid c w
         else handleError S c (log_line ERROR ''TcpConnection::handleRead''
                (w\<lparr>kern := sys_set_errno S savedErrno (kern w)\<rparr>))))"
  proof (rule outcome_bind, clarify)
    fix n e b' k'
    assume b': "buffer_inv b'" and k': "itst k' = itst (kern w)"
    let ?w = "w\<lparr>kern := k'\<rparr>" and ?g = "\<lambda>x. x\<lparr>inputBuffer := b'\<rparr>"
    have "same_objects itst w ?w" using k' by (simp add: same_objects_def)
    from good_frame [OF good this] have g: "good itst L live w0 ?w" by simp
    have gw: "good itst L live w0 (upd_conn c ?g ?w)"
      by (rule good_conn [where g = ?g, OF g])
        (use Some b' goodD(4) [OF good Some] in \<open>auto simp: conn_ok_def conn_forward_def\<close>)
    have "good itst L live w0 (v\<lparr>kern := sys_set_errno S e (kern v)\<rparr>)" if "good itst L live w0 v" for v
      by (rule good_frame [OF that]) (simp_all add: same_objects_def interest_frameD(1) [OF io_lawsD(2) [OF laws]])
    moreover have "good itst L live w0 (log_line lv m v)" if "good itst L live w0 v" for lv m v
      by (rule good_frame [OF that]) simp_all
    ultimately have err: "keeps itst L live w0 (handleError S c (log_line lv m
        (upd_conn c ?g ?w\<lparr>kern := sys_set_errno S e (kern (upd_conn c ?g ?w))\<rparr>)))" for lv m
      using gw by (intro handleError_keeps [OF laws]) blast
    show "keeps itst L live w0 (let w = upd_conn c ?g ?w in
         if n > 0 then call_app S app tid (messageCallback x) (EvMessage c now) w
         else if n = 0 then handleClose S app closecb tid c w
         else handleError S c (log_line ERROR ''TcpConnection::handleRead''
                (w\<lparr>kern := sys_set_errno S e (kern w)\<rparr>)))"
      using err call_app_keeps [OF laws gw] handleClose_keeps [OF laws gw] by (simp add: Let_def)
  qed
  with Some show ?thesis by (simp add: handleRead_def with_conn_def)
qed

lemma conn_handler_keeps:
  assumes laws: "io_laws S itst" and "good itst L live w0 w" and "conn_handler S app closecb tid now h w = Some r"
  shows "keeps itst L live w0 r"
  using assms handleRead_keeps [OF laws] handleClose_keeps [OF laws] handleWrite_keeps [OF laws]
    handleError_keeps [OF laws]
  by (cases h) auto

end

lemma conn_task_keeps:
  assumes law: "io_laws S itst" and good: "good itst L live w0 w" and "conn_task S app tid t w = Some r"
    and "\<And>c x. t = TConnectEstablished c \<Longrightarrow> conns w c = Some x \<Longrightarrow>
      conn_state x = kConnecting \<or> conn_state x = kConnected"
  shows "keeps itst L live w0 r"
  using assms(3,4) connectEstablished_keeps [OF law good] connectDestroyed_keeps [OF law good]
    sendinLoop_keeps [OF law good] shutdownInLoop_keeps [OF law good] call_app_keeps [OF law good]
  by (cases t) auto

end
