(* ===== verification/ConnectionStream.thy ===== *)
theory ConnectionStream
  imports ConnectionInv
begin

text \<open>
  The byte stream a connection sends: what the kernel was handed followed by what waits in the output
  buffer. The theorems say which branches of \<open>sendinLoop\<close> and \<open>handleWrite\<close> extend it by exactly the bytes
  sent, and what the other branches do to it.
\<close>

section \<open>What the operations hand to the kernel\<close>

definition delivered ::
  "('k \<Rightarrow> int \<Rightarrow> byte list) \<Rightarrow> connection \<Rightarrow> ('k, 'z) process_scheme \<Rightarrow> byte list" where
  "delivered sent x w = sent (kern w) (conn_fd x) @ content (outputBuffer x)"

lemma updateHelper_sent:
  assumes "stream_law S sent" and "updateHelper S l op fp w = Inr w'"
  shows "sent (kern w') = sent (kern w)"
proof -
  obtain r k' where ctl: "sys_epoll_ctl S (epollfd (epollerOf w l)) op (filed_fd (filedOf w fp))
      (events (filedOf w fp), fp) (kern w) = (r, k')" by fastforce
  show ?thesis
    using assms(2) stream_lawD(2) [OF assms(1) ctl]
    by (auto simp: updateHelper_def Let_def ctl log_line_def split: if_splits)
qed

lemma kern_upd [simp]:
  "kern (upd_filed fp g w) = kern w" "kern (upd_epoller l h w) = kern w" "kern (setState st c v) = kern v"
  by (simp_all add: upd_filed_def upd_epoller_def setState_def)

lemma set_mask_sent:
  assumes "stream_law S sent" and "set_mask S fp m w = Inr w'"
  shows "sent (kern w') = sent (kern w)"
  using assms(2)
  by (auto simp: set_mask_def Filed_update_def EventLoop_update_def Epoller_update_def Let_def bind_simps
      dest!: updateHelper_sent [OF assms(1)] split: if_splits)

lemma updateHelper_shut:
  assumes "shutdown_law S shut" and "updateHelper S l op fp w = Inr w'"
  shows "shut (kern w') = shut (kern w)"
proof -
  obtain r k' where ctl: "sys_epoll_ctl S (epollfd (epollerOf w l)) op (filed_fd (filedOf w fp))
      (events (filedOf w fp), fp) (kern w) = (r, k')" by fastforce
  show ?thesis
    using assms(2) shutdown_lawD(2) [OF assms(1) ctl]
    by (auto simp: updateHelper_def Let_def ctl log_line_def split: if_splits)
qed

lemma set_mask_shut:
  assumes "shutdown_law S shut" and "set_mask S fp m w = Inr w'"
  shows "shut (kern w') = shut (kern w)"
  using assms(2)
  by (auto simp: set_mask_def Filed_update_def EventLoop_update_def Epoller_update_def Let_def bind_simps
      dest!: updateHelper_shut [OF assms(1)] split: if_splits)

lemma queueinLoop_shut:
  assumes "shutdown_law S shut"
  shows "shut (kern (queueinLoop S tid l t w)) = shut (kern w)"
proof -
  obtain n k' where wr: "sys_write S (wakeupFd (loopOf w l)) wake_bytes (kern w) = (n, k')" by fastforce
  show ?thesis
    using shutdown_lawD(1) [OF assms wr] wr
    by (simp add: queueinLoop_def wake_after_post_def post_func_def wakeup_def upd_loop_def log_line_def Let_def)
qed

lemma shutdownWrite_sent_shut:
  assumes "stream_law S sent" and "shutdown_law S shut"
  shows "sent (kern (Socket_shutdownWrite S fd w)) = sent (kern w)"
    and "shut (kern (Socket_shutdownWrite S fd w)) = (shut (kern w))(fd := True)"
proof -
  obtain r k' where sh: "sys_shutdown_wr S fd (kern w) = (r, k')" by fastforce
  show "sent (kern (Socket_shutdownWrite S fd w)) = sent (kern w)"
    "shut (kern (Socket_shutdownWrite S fd w)) = (shut (kern w))(fd := True)"
    using stream_lawD(3) [OF assms(1) sh] shutdown_lawD(3) [OF assms(2) sh] sh
    by (simp_all add: Socket_shutdownWrite_def log_line_def Let_def)
qed

text \<open>The same of waking a loop, for every descriptor but its event descriptor.\<close>

lemma queueinLoop_sent:
  assumes "stream_law S sent" and "wakeupFd (loopOf w l) \<noteq> fd"
  shows "sent (kern (queueinLoop S tid l t w)) fd = sent (kern w) fd"
proof -
  obtain n k' where wr: "sys_write S (wakeupFd (loopOf w l)) wake_bytes (kern w) = (n, k')" by fastforce
  show ?thesis
    using stream_lawD(1) [OF assms(1) wr] assms(2) wr
    by (simp add: queueinLoop_def wake_after_post_def post_func_def wakeup_def upd_loop_def log_line_def Let_def)
qed

lemma queueinLoop_strings: "strings (queueinLoop S tid l t w) = strings w"
  by (simp add: queueinLoop_def wake_after_post_def post_func_def wakeup_def upd_loop_def log_line_def
      Let_def split: prod.split)

lemma check_high_water_sent:
  assumes "stream_law S sent" and "wakeupFd (loopOf w (conn_loop x)) \<noteq> fd"
  shows "sent (kern (check_high_water S tid c r x w)) fd = sent (kern w) fd"
  using queueinLoop_sent [OF assms] by (simp add: check_high_water_def Let_def split: option.split)

lemma conns_set_mask:
  assumes "io_laws S itst" and "registry_inv itst L live w" and "fp \<in> live"
  obtains w' where "set_mask S fp m w = Inr w'" and "conns w' = conns w" and "strings w' = strings w"
    and "events (filedOf w' fp) = m (events (filedOf w fp))" and "loopOf w' = loopOf w"
proof -
  obtain k' where "set_mask S fp m w = Inr (updated fp (m (events (filedOf w fp))) k' w)"
    using set_mask_exact [OF io_lawsD(1) [OF assms(1)] assms(2,3)] by metis
  with that show ?thesis by (simp add: updated_def Let_def)
qed

section \<open>The two halves of \<open>sendinLoop\<close>\<close>

definition stream_laws :: "'k sys \<Rightarrow> 'k interest \<Rightarrow> ('k \<Rightarrow> int \<Rightarrow> byte list) \<Rightarrow> bool" where
  "stream_laws S itst sent \<longleftrightarrow> io_laws S itst \<and> stream_law S sent \<and> write_law S"

lemma stream_lawsD:
  assumes "stream_laws S itst sent"
  shows "io_laws S itst" and "stream_law S sent" and "write_law S"
  using assms by (simp_all add: stream_laws_def)

text \<open>
  \<open>quiet\<close>: the connection is at \<open>c\<close>, and the loop's event descriptor is not its socket.
\<close>

definition quiet ::
  "'k interest \<Rightarrow> nat set \<Rightarrow> nat set \<Rightarrow> nat \<Rightarrow> connection \<Rightarrow> ('k, 'z) process_scheme \<Rightarrow> bool" where
  "quiet itst L live c x w \<longleftrightarrow> process_inv itst L live w \<and> conns w c = Some x \<and>
     wakeupFd (loopOf w (conn_loop x)) \<noteq> conn_fd x"

lemma quietD:
  assumes "quiet itst L live c x w"
  shows "process_inv itst L live w" and "conns w c = Some x" and "wakeupFd (loopOf w (conn_loop x)) \<noteq> conn_fd x"
    and "buffer_inv (outputBuffer x)" and "filed_fd (filedOf w (conn_filed x)) = conn_fd x"
    and "conn_filed x \<in> live" and "registry_inv itst L live w"
    and "conn_state x \<noteq> kDisconnected \<Longrightarrow>
      isWriting (filedOf w (conn_filed x)) \<longleftrightarrow> content (outputBuffer x) \<noteq> []"
proof -
  have inv: "process_inv itst L live w" "conns w c = Some x" "wakeupFd (loopOf w (conn_loop x)) \<noteq> conn_fd x"
    using assms by (simp_all add: quiet_def)
  then show "process_inv itst L live w" "conns w c = Some x" "wakeupFd (loopOf w (conn_loop x)) \<noteq> conn_fd x"
    by simp_all
  show "conn_filed x \<in> live" "registry_inv itst L live w" using process_invD [OF inv(1)] inv(2) by blast+
  show "buffer_inv (outputBuffer x)" "filed_fd (filedOf w (conn_filed x)) = conn_fd x"
    "conn_state x \<noteq> kDisconnected \<Longrightarrow> isWriting (filedOf w (conn_filed x)) \<longleftrightarrow> content (outputBuffer x) \<noteq> []"
    using process_invD(3) [OF inv(1,2)] by (simp_all add: conn_ok_def)
qed

lemma sendinLoop_queue_exact:
  assumes law: "stream_laws S itst sent" and reg: "registry_inv itst L live w" and fp: "conn_filed x \<in> live"
    and c: "conns w c = Some x" and b: "buffer_inv (outputBuffer x)"
    and wk: "wakeupFd (loopOf w (conn_loop x)) \<noteq> conn_fd x"
    and s: "read_string a off remaining w = Inr d" and room: "has_room (length d) (outputBuffer x)"
  shows "\<exists>w' y. sendinLoop_queue S tid c a off remaining x w = Inr w' \<and> conns w' c = Some y \<and>
    content (outputBuffer y) = content (outputBuffer x) @ d \<and> conn_fd y = conn_fd x \<and> inputBuffer y = inputBuffer x \<and>
    sent (kern w') (conn_fd x) = sent (kern w) (conn_fd x)"
proof -
  let ?w1 = "check_high_water S tid c remaining x w"
  note frame = io_lawsD(2) [OF stream_lawsD(1) [OF law]]
  have w1: "conns ?w1 c = Some x" "read_string a off remaining ?w1 = Inr d"
    using c s check_high_water_frame [OF frame, where w = w] by (simp_all add: read_string_def)
  have sent1: "sent (kern ?w1) (conn_fd x) = sent (kern w) (conn_fd x)"
    by (rule check_high_water_sent [OF stream_lawsD(2) [OF law] wk])
  obtain b' where b': "buffer_append d (outputBuffer x) = Inr b'" "content b' = content (outputBuffer x) @ d"
    using buffer_append_ok [OF b room] by metis
  let ?w2 = "upd_conn c (\<lambda>x. x\<lparr>outputBuffer := b'\<rparr>) ?w1"
  have c2: "conns ?w2 c = Some (x\<lparr>outputBuffer := b'\<rparr>)" using upd_conn_some [OF w1(1)] by simp
  have "registry_inv itst L live ?w2"
    using check_high_water_frame(1) [OF frame] by (intro same_objects_registry [OF _ reg]) simp
  then obtain w' where w': "set_mask S (conn_filed x) mask_enableWriting ?w2 = Inr w'" "conns w' = conns ?w2"
    using conns_set_mask [OF stream_lawsD(1) [OF law] _ fp] by blast
  note set_mask_sent [OF stream_lawsD(2) [OF law] w'(1)]
  then show ?thesis
    using b' w1 c2 w' sent1
    by (auto simp: sendinLoop_queue_def Let_def set_mask_eqs)
qed

lemma whole_string:
  "strings w a = Some d \<Longrightarrow> unat n \<le> length d \<Longrightarrow> read_string a 0 n w = Inr (take (unat n) d)"
  by (simp add: read_string_def read_block_def)

section \<open>The direct write\<close>

text \<open>
  \<open>idle c a d x w\<close>: the connection has no output waiting and is asked, in its loop, to send the string \<open>d\<close>
  at address \<open>a\<close>; then \<open>sendinLoop\<close> writes directly, and what the kernel answers decides what happens.
\<close>

definition idle ::
  "'k interest \<Rightarrow> nat set \<Rightarrow> nat set \<Rightarrow> nat \<Rightarrow> nat \<Rightarrow> byte list \<Rightarrow> connection \<Rightarrow> ('k, 'z) process_scheme \<Rightarrow> bool" where
  "idle itst L live c a d x w \<longleftrightarrow> quiet itst L live c x w \<and> conn_state x \<noteq> kDisconnected \<and>
     content (outputBuffer x) = [] \<and> strings w a = Some d \<and> has_room (length d) (outputBuffer x)"

lemma idleD:
  assumes "idle itst L live c a d x w"
  shows "quiet itst L live c x w" and "conn_state x \<noteq> kDisconnected" and "content (outputBuffer x) = []"
    and "strings w a = Some d" and "has_room (length d) (outputBuffer x)" and "length d < 2 ^ 63"
    and "\<not> isWriting (filedOf w (conn_filed x))" and "readableBytes (outputBuffer x) = 0"
proof -
  have basic: "quiet itst L live c x w" "conn_state x \<noteq> kDisconnected" "content (outputBuffer x) = []"
    "strings w a = Some d" "has_room (length d) (outputBuffer x)"
    using assms by (simp_all add: idle_def)
  then show "quiet itst L live c x w" "conn_state x \<noteq> kDisconnected" "content (outputBuffer x) = []"
    "strings w a = Some d" "has_room (length d) (outputBuffer x)" by simp_all
  show "length d < 2 ^ 63" using basic(5) by (simp add: has_room_def)
  show "\<not> isWriting (filedOf w (conn_filed x))" using quietD(8) [OF basic(1,2)] basic(3) by simp
  show "readableBytes (outputBuffer x) = 0"
    using buf.avail_zero [OF quietD(4) [OF basic(1)]] basic(3) by simp
qed

lemma unat_len: "length d < 2 ^ 63 \<Longrightarrow> unat (of_nat (length d) :: size_t) = length d"
  by (rule unat_size_of_nat) simp

lemma unat_remaining:
  assumes "length d < 2 ^ 63" and "0 \<le> n" and "n \<le> int (length d)"
  shows "unat (of_nat (length d) - of_int n :: size_t) = length d - nat n"
proof -
  have "(of_int n :: size_t) = of_nat (nat n)" using assms(2) by simp
  moreover have le: "nat n \<le> length d" using assms(3) by linarith
  moreover have "unat (of_nat (nat n) :: size_t) = nat n"
    using assms(1) le by (intro unat_size_of_nat) simp
  ultimately show ?thesis using unat_len [OF assms(1)] by (simp add: unat_size_sub)
qed

lemma sendinLoop_idle:
  assumes i: "idle itst L live c a d x w"
    and wr: "sys_write S (conn_fd x) d (kern w) = (n, k')"
  shows "sendinLoop S tid c a (of_nat (length d)) w =
    (if n > 0
     then let remaining = of_nat (length d) - of_int n in
       if remaining = 0 \<and> writeCompleteCallback x \<noteq> None
       then Inr (queueinLoop S tid (conn_loop x) (TWriteComplete (the (writeCompleteCallback x)) c) (w\<lparr>kern := k'\<rparr>))
       else if sys_errno S k' = EWOULDBLOCK \<and> remaining > 0
       then sendinLoop_queue S tid c a 0 remaining x (w\<lparr>kern := k'\<rparr>)
       else Inr (w\<lparr>kern := k'\<rparr>)
     else if (of_nat (length d) :: size_t) > 0
     then sendinLoop_queue S tid c a n (of_nat (length d)) x (w\<lparr>kern := k'\<rparr>)
     else Inr (w\<lparr>kern := k'\<rparr>))"
proof -
  note q = idleD(1) [OF i]
  have rd: "read_string a 0 (of_nat (length d)) w = Inr d"
    using whole_string [OF idleD(4) [OF i], of "of_nat (length d)"] unat_len [OF idleD(6) [OF i]] by simp
  have w: "sendinLoop_write S tid c a (of_nat (length d)) x w =
      (let w = w\<lparr>kern := k'\<rparr>
       in if n > 0
          then let remaining = of_nat (length d) - of_int n in
            (case writeCompleteCallback x of
               Some cb \<Rightarrow>
                 if remaining = 0
                 then Inr (n, remaining, False, queueinLoop S tid (conn_loop x) (TWriteComplete cb c) w)
                 else Inr (0, remaining, sys_errno S k' \<noteq> EWOULDBLOCK, w)
             | None \<Rightarrow> Inr (0, remaining, sys_errno S k' \<noteq> EWOULDBLOCK, w))
          else Inr (n, of_nat (length d), False, w))"
    by (simp add: sendinLoop_write_def rd quietD(5) [OF q] wr Let_def)
  show ?thesis
    using idleD(2,7,8) [OF i]
    by (simp add: sendinLoop_def with_conn_def quietD(2) [OF q] w Let_def split: option.split)
qed

lemma idle_queue:
  assumes law: "stream_laws S itst sent" and i: "idle itst L live c a d x w"
    and wr: "sys_write S (conn_fd x) d (kern w) = (n, k')" and r: "unat remaining \<le> length d"
  shows "\<exists>w' y. sendinLoop_queue S tid c a 0 remaining x (w\<lparr>kern := k'\<rparr>) = Inr w' \<and> conns w' c = Some y \<and>
    delivered sent y w' = delivered sent x w @ take (nat n) d @ take (unat remaining) d \<and>
    inputBuffer y = inputBuffer x"
proof -
  let ?w = "w\<lparr>kern := k'\<rparr>"
  note q = idleD(1) [OF i]
  have itst: "itst k' = itst (kern w)"
    by (rule interest_frameD(3) [OF io_lawsD(2) [OF stream_lawsD(1) [OF law]] wr])
  have reg: "registry_inv itst L live ?w"
    by (rule same_objects_registry [OF _ quietD(7) [OF q]]) (simp add: same_objects_def itst)
  have rd: "read_string a 0 remaining ?w = Inr (take (unat remaining) d)"
    using idleD(4) [OF i] by (intro whole_string [OF _ r]) simp
  have sent: "sent k' (conn_fd x) = sent (kern w) (conn_fd x) @ take (nat n) d"
    using stream_lawD(1) [OF stream_lawsD(2) [OF law] wr] by simp
  have room: "has_room (length (take (unat remaining) d)) (outputBuffer x)"
    using idleD(5) [OF i] by (simp add: has_room_def)
  have "conns ?w c = Some x" "wakeupFd (loopOf ?w (conn_loop x)) \<noteq> conn_fd x"
    using quietD(2,3) [OF q] by simp_all
  from sendinLoop_queue_exact [OF law reg quietD(6) [OF q] this(1) quietD(4) [OF q] this(2) rd room, of tid]
  obtain w' y where "sendinLoop_queue S tid c a 0 remaining x ?w = Inr w'" "conns w' c = Some y"
    "content (outputBuffer y) = content (outputBuffer x) @ take (unat remaining) d" "conn_fd y = conn_fd x"
    "inputBuffer y = inputBuffer x"
    "sent (kern w') (conn_fd x) = sent (kern ?w) (conn_fd x)" by blast
  with sent idleD(3) [OF i] show ?thesis by (simp add: delivered_def)
qed

lemma sendinLoop_extends:
  assumes law: "stream_laws S itst sent" and q: "quiet itst L live c x w"
    and open_: "conn_state x \<noteq> kDisconnected" and s: "strings w a = Some d"
    and room: "has_room (length d) (outputBuffer x)"
    and wr: "sys_write S (conn_fd x) d (kern w) = (n, k')"
    and whole: "content (outputBuffer x) \<noteq> [] \<or> n = int (length d) \<or> n = 0"
  shows "\<exists>w' y. sendinLoop S tid c a (of_nat (length d)) w = Inr w' \<and> conns w' c = Some y \<and>
    delivered sent y w' = delivered sent x w @ d \<and> inputBuffer y = inputBuffer x"
proof (cases "content (outputBuffer x) = []")
  case False
  note rd = whole_string [OF s, of "of_nat (length d)"]
  have len: "unat (of_nat (length d) :: size_t) = length d"
    using room by (intro unat_len) (simp add: has_room_def)
  have wait: "isWriting (filedOf w (conn_filed x))" using quietD(8) [OF q open_] False by simp
  show ?thesis
  proof (cases "d = []")
    case True
    then show ?thesis
      using wait open_ quietD(2) [OF q] by (auto simp: sendinLoop_def with_conn_def delivered_def)
  next
    case False
    with len have "(of_nat (length d) :: size_t) > 0" by (simp add: word_less_nat_alt)
    with wait open_ len sendinLoop_queue_exact [OF law quietD(7,6,2,4,3) [OF q] rd, of tid] room
    show ?thesis by (auto simp: sendinLoop_def with_conn_def delivered_def quietD(2) [OF q])
  qed
next
  case emp: True
  with q open_ s room have i: "idle itst L live c a d x w" by (simp add: idle_def)
  note len = unat_len [OF idleD(6) [OF i]]
  have stream: "sent k' (conn_fd x) = sent (kern w) (conn_fd x) @ take (nat n) d"
    using stream_lawD(1) [OF stream_lawsD(2) [OF law] wr] by simp
  have c: "conns w c = Some x" by (rule quietD(2) [OF q])
  show ?thesis
  proof (cases "n > 0")
    case True
    with whole emp have n: "n = int (length d)" by auto
    have "sent (kern (queueinLoop S tid (conn_loop x) t (w\<lparr>kern := k'\<rparr>))) (conn_fd x) = sent k' (conn_fd x)" for t
      using queueinLoop_sent [OF stream_lawsD(2) [OF law], of "w\<lparr>kern := k'\<rparr>"] quietD(3) [OF q] by simp
    with True n c stream queueinLoop_frame(2) [OF io_lawsD(2) [OF stream_lawsD(1) [OF law]], where w = "w\<lparr>kern := k'\<rparr>"]
    show ?thesis
      by (auto simp: sendinLoop_idle [OF i wr] delivered_def emp Let_def)
  next
    case False
    with whole emp have n: "n = 0" by auto
    show ?thesis
    proof (cases "d = []")
      case True
      with n c stream show ?thesis
        unfolding sendinLoop_idle [OF i wr] by (auto simp: delivered_def emp)
    next
      case False
      with len have "(of_nat (length d) :: size_t) > 0" by (simp add: word_less_nat_alt)
      with n idle_queue [OF law i wr, of "of_nat (length d)" tid] len
      show ?thesis by (auto simp: sendinLoop_idle [OF i wr])
    qed
  qed
qed

section \<open>Properties\<close>

text \<open>
  C1. What \<open>sendinLoop\<close> promises, where it keeps the promise: with output already waiting, or when the
  direct \<open>write\<close> returns the length of the whole block or zero, the call returns and the bytes handed to the kernel
  followed by the bytes waiting are extended by exactly the block, in order; no byte is lost or repeated. When it
  returns \<open>-1\<close> or a part of the length, the code does not keep it: see \<open>failed_write_out_of_bounds\<close> and
  \<open>short_write_corrupts\<close>.
\<close>

theorem send_extends_stream:
  assumes law: "stream_laws S itst sent" and q: "quiet itst L live c x w"
    and open_: "conn_state x \<noteq> kDisconnected" and s: "strings w a = Some d"
    and room: "has_room (length d) (outputBuffer x)"
    and wr: "sys_write S (conn_fd x) d (kern w) = (n, k')"
    and whole: "content (outputBuffer x) \<noteq> [] \<or> n = int (length d) \<or> n = 0"
  shows "\<exists>w' y. sendinLoop S tid c a (of_nat (length d)) w = Inr w' \<and> conns w' c = Some y \<and>
    delivered sent y w' = delivered sent x w @ d"
  using sendinLoop_extends [OF assms] by blast

text \<open>A process with one loop and one connected connection on descriptor 7, for the witnesses.\<close>

definition demo_conn :: connection where
  "demo_conn = \<lparr>conn_loop = 0, conn_name = ''a'', conn_state = kConnected, conn_reading = True, conn_fd = 7,
     conn_filed = 1, localAddr = \<lparr>sin_family = 2, sin_port = 0, sin_addr = 0\<rparr>,
     peerAddr = \<lparr>sin_family = 2, sin_port = 0, sin_addr = 0\<rparr>, connectionCallback = Some 0,
     messageCallback = Some 1, writeCompleteCallback = None, conn_closeCallback = None,
     highWaterMarkCallback = None, highWaterMark = 67108864, inputBuffer = mkBuffer kInitialSize,
     outputBuffer = mkBuffer kInitialSize\<rparr>"

definition demo_process :: "nat \<Rightarrow> int \<Rightarrow> ksim process" where
  "demo_process space err = \<lparr>kern = ksim0\<lparr>sim_event := (\<lambda>_. None)(4 \<mapsto> 0), sim_space := space, sim_errno := err\<rparr>,
     logs = [], filedOf = (\<lambda>_. mkFiled 0 7),
     epollerOf = (\<lambda>_. \<lparr>eventList = replicate 16 (0, 0), fileds = Map.empty, epollfd = 3, ownerLoop = 0\<rparr>),
     loopOf = (\<lambda>_. \<lparr>looping = False, quit = False, threadId = 1, epollReturnTime = 0, wakeupFd = 4,
       wakeupFiled = 0, activeFileds = [], isCallPendFunc = False, pendFuncs = []\<rparr>),
     loopInThread = (\<lambda>_. None)(1 \<mapsto> 0), conns = (\<lambda>_. None)(5 \<mapsto> demo_conn), strings = (\<lambda>_. None)(9 \<mapsto> [1, 2, 3])\<rparr>"

lemma demo_buffer: "buffer_inv (mkBuffer kInitialSize)" "content (mkBuffer kInitialSize) = []"
  using mkBuffer_inv [of kInitialSize] by (simp_all add: kInitialSize_def)

lemma demo_process_inv: "process_inv sim_interest {0} {1} (demo_process space err)"
  by (simp add: process_inv_def conn_ok_def demo_process_def demo_conn_def mkFiled_def demo_buffer isWriting_def
      registry_inv_def filed_ok_def kNew_def ksim0_def)

lemma demo_idle: "idle sim_interest {0} {1} 5 9 [1, 2, 3] demo_conn (demo_process space err)"
proof -
  have "has_room (Suc (Suc (Suc 0))) (mkBuffer kInitialSize)" by (simp add: has_room_def mkBuffer_def)
  then show ?thesis
    using demo_process_inv
    by (simp add: idle_def quiet_def demo_buffer) (simp add: demo_process_def demo_conn_def demo_buffer)
qed

lemma sim_stream_laws: "stream_laws sim_sys sim_interest sim_sent"
  by (simp add: stream_laws_def io_laws_def sim_laws sim_stream_law sim_interest_frame)

theorem send_extends_stream_witness:
  "\<exists>w' y. sendinLoop sim_sys 1 5 9 3 (demo_process 16 0) = Inr w' \<and> conns w' 5 = Some y \<and>
     delivered sim_sent y w' = [1, 2, 3]"
proof -
  note i = demo_idle [of 16 0]
  have "sys_write sim_sys (conn_fd demo_conn) [1, 2, 3] (kern (demo_process 16 0)) =
      (3, snd (sys_write sim_sys (conn_fd demo_conn) [1, 2, 3] (kern (demo_process 16 0))))"
    by (simp add: sim_sys_def sim_write_def demo_process_def demo_conn_def wake_bytes_def ksim0_def Let_def)
  from send_extends_stream [OF sim_stream_laws idleD(1,2,4,5) [OF i] this, of 1]
  show ?thesis
    by (simp add: delivered_def demo_process_def demo_conn_def demo_buffer ksim0_def)
qed

text \<open>
  C24. A short direct write corrupts the stream. When \<open>write\<close> takes some but not all of the block, the
  \<open>else\<close> meant for a failed write runs: it forgets how much was written and tests \<open>errno\<close>, which a successful
  call leaves alone. If the stale value is not \<open>EWOULDBLOCK\<close> the rest of the block is dropped without a
  trace; if it is, as many bytes as remain are queued from the start of the block, so that its beginning is
  sent twice. Either way the call returns normally.
\<close>

theorem short_write_corrupts:
  assumes law: "stream_laws S itst sent" and i: "idle itst L live c a d x w"
    and wr: "sys_write S (conn_fd x) d (kern w) = (n, k')" and n: "0 < n" "n < int (length d)"
  shows "\<exists>w' y. sendinLoop S tid c a (of_nat (length d)) w = Inr w' \<and> conns w' c = Some y \<and>
    delivered sent y w' = delivered sent x w @ take (nat n) d @
      (if sys_errno S k' = EWOULDBLOCK then take (length d - nat n) d else [])"
proof -
  let ?r = "of_nat (length d) - of_int n :: size_t"
  have r: "unat ?r = length d - nat n"
    using idleD(6) [OF i] n by (intro unat_remaining) simp_all
  moreover have "nat n < length d" using n by linarith
  ultimately have pos: "?r > 0" "?r \<noteq> 0" "unat ?r \<le> length d" by (auto simp: word_less_nat_alt)
  show ?thesis
  proof (cases "sys_errno S k' = EWOULDBLOCK")
    case True
    with pos n idle_queue [OF law i wr pos(3), of tid] r show ?thesis
      unfolding sendinLoop_idle [OF i wr] by (auto simp: Let_def)
  next
    case False
    have "sent k' (conn_fd x) = sent (kern w) (conn_fd x) @ take (nat n) d"
      using stream_lawD(1) [OF stream_lawsD(2) [OF law] wr] by simp
    with False pos n show ?thesis
      unfolding sendinLoop_idle [OF i wr]
      by (auto simp: Let_def delivered_def quietD(2) [OF idleD(1) [OF i]] idleD(3) [OF i])
  qed
qed

theorem short_write_corrupts_witness:
  "\<exists>w' y. sendinLoop sim_sys 1 5 9 3 (demo_process 2 0) = Inr w' \<and> conns w' 5 = Some y \<and>
     delivered sim_sent y w' = [1, 2]"
proof -
  note i = demo_idle [of 2 0]
  obtain k' where wr: "sys_write sim_sys (conn_fd demo_conn) [1, 2, 3] (kern (demo_process 2 0)) = (2, k')"
    and err: "sys_errno sim_sys k' = 0"
    by (simp add: sim_sys_def sim_write_def demo_process_def demo_conn_def wake_bytes_def ksim0_def Let_def)
  from short_write_corrupts [OF sim_stream_laws i wr, of 1] err show ?thesis
    by (simp add: delivered_def demo_process_def demo_conn_def demo_buffer ksim0_def EWOULDBLOCK_def)
qed

text \<open>
  C23. A direct write that fails, which is what a full socket buffer does (\<open>EAGAIN\<close>), makes \<open>sendinLoop\<close>
  read one byte before the string: \<open>nwrote\<close> is still \<open>-1\<close> when \<open>data + nwrote\<close> is appended, because the
  branch that should reset it hangs on the wrong \<open>if\<close>.
\<close>

theorem failed_write_out_of_bounds:
  assumes i: "idle itst L live c a d x w"
    and wr: "sys_write S (conn_fd x) d (kern w) = (n, k')" and n: "n < 0" and d: "d \<noteq> []"
  shows "sendinLoop S tid c a (of_nat (length d)) w = Inl OutOfBounds"
proof -
  have "unat (of_nat (length d) :: size_t) > 0"
    using unat_len [OF idleD(6) [OF i]] d by simp
  then have pos: "(of_nat (length d) :: size_t) > 0" by (simp add: word_less_nat_alt)
  have str: "strings (check_high_water S tid c r x (w\<lparr>kern := k'\<rparr>)) a = Some d" for r
    using idleD(4) [OF i] by (simp add: check_high_water_def queueinLoop_strings Let_def split: option.split)
  have "read_string a n r (check_high_water S tid c r x (w\<lparr>kern := k'\<rparr>)) = Inl OutOfBounds" for r
    using n by (simp add: read_string_def str read_block_def)
  with n pos show ?thesis
    unfolding sendinLoop_idle [OF i wr] by (simp add: sendinLoop_queue_def Let_def)
qed

theorem failed_write_out_of_bounds_witness:
  "sendinLoop sim_sys 1 5 9 3 (demo_process 0 0) = Inl OutOfBounds"
proof -
  obtain k' where "sys_write sim_sys (conn_fd demo_conn) [1, 2, 3] (kern (demo_process 0 0)) = (- 1, k')"
    by (simp add: sim_sys_def sim_write_def demo_process_def demo_conn_def wake_bytes_def ksim0_def Let_def)
  from failed_write_out_of_bounds [OF demo_idle this, of 1] show ?thesis by simp
qed

text \<open>What a write event that moves bytes does, in full.\<close>

lemma handleWrite_exact:
  assumes law: "stream_laws S itst sent" and shl: "shutdown_law S shut" and q: "quiet itst L live c x w"
    and open_: "conn_state x \<noteq> kDisconnected" and ne: "content (outputBuffer x) \<noteq> []"
    and wr: "sys_write S (conn_fd x) (content (outputBuffer x)) (kern w) = (n, k')" and n: "0 < n"
    and b': "b' = retrieve (of_int n) (outputBuffer x)"
  shows "\<exists>w' y. handleWrite S tid c w = Inr w' \<and> conns w' c = Some y \<and> outputBuffer y = b' \<and>
      conn_fd y = conn_fd x \<and> conn_state y = conn_state x \<and> sent (kern w') (conn_fd x) = sent k' (conn_fd x) \<and>
      (shut (kern w') (conn_fd x) \<longleftrightarrow> shut k' (conn_fd x) \<or> conn_state x = kDisconnecting \<and> content b' = [])"
proof -
  let ?fp = "conn_filed x" and ?fd = "conn_fd x" and ?out = "outputBuffer x" and ?b = b'
  note io = stream_lawsD(1) [OF law] and st = stream_lawsD(2) [OF law]
  note b = quietD(4) [OF q] and c = quietD(2) [OF q]
  have isw: "isWriting (filedOf w ?fp)" using quietD(8) [OF q open_] ne by simp
  have rb: "buffer_inv ?b" using retrieve_inv [OF b, of "of_int n"] b' by simp
  let ?w = "upd_conn c (\<lambda>x. x\<lparr>outputBuffer := ?b\<rparr>) (w\<lparr>kern := k'\<rparr>)"
  have cw: "conns ?w c = Some (x\<lparr>outputBuffer := ?b\<rparr>)" using c by (simp add: upd_conn_def)
  have step: "handleWrite S tid c w =
      (if content ?b = []
       then bindE (set_mask S ?fp mask_disableWriting ?w) (\<lambda>w.
         let w = (case writeCompleteCallback x of
                    Some cb \<Rightarrow> queueinLoop S tid (conn_loop x) (TWriteComplete cb c) w | None \<Rightarrow> w)
         in if conn_state x = kDisconnecting then shutdownInLoop S c w else Inr w)
       else Inr (log_line ERROR ''TcpConnection::handleWrite'' ?w))"
    using isw c n writeFd_ok [OF b wr]
    by (simp add: handleWrite_def with_conn_def quietD(5) [OF q] b' [symmetric] buf.avail_zero [OF rb] set_mask_eqs Let_def)
  show ?thesis
  proof (cases "content ?b = []")
    case False
    with step cw show ?thesis by auto
  next
    case True
    have reg: "registry_inv itst L live ?w"
      by (rule same_objects_registry [OF _ quietD(7) [OF q]])
        (simp add: same_objects_def interest_frameD(3) [OF io_lawsD(2) [OF io] wr])
    obtain w2 where w2: "set_mask S ?fp mask_disableWriting ?w = Inr w2" "conns w2 = conns ?w"
      "events (filedOf w2 ?fp) = mask_disableWriting (events (filedOf ?w ?fp))" "loopOf w2 = loopOf ?w"
      by (rule conns_set_mask [OF io reg quietD(6) [OF q]])
    define w3 where "w3 = (case writeCompleteCallback x of
        Some cb \<Rightarrow> queueinLoop S tid (conn_loop x) (TWriteComplete cb c) w2 | None \<Rightarrow> w2)"
    have wk: "wakeupFd (loopOf w2 (conn_loop x)) \<noteq> ?fd"
      using quietD(3) [OF q] w2(4) by (simp add: upd_conn_def)
    have s2: "sent (kern w2) = sent k'" "shut (kern w2) = shut k'"
      using set_mask_sent [OF st w2(1)] set_mask_shut [OF shl w2(1)] by simp_all
    have w3: "conns w3 c = Some (x\<lparr>outputBuffer := ?b\<rparr>)" "filedOf w3 = filedOf w2"
      "sent (kern w3) ?fd = sent k' ?fd" "shut (kern w3) = shut k'"
      using cw w2(2) s2 queueinLoop_frame [OF io_lawsD(2) [OF io], where w = w2]
        queueinLoop_sent [OF st wk] queueinLoop_shut [OF shl, where w = w2]
      by (simp_all add: w3_def split: option.split)
    have "\<not> isWriting (filedOf w3 ?fp)" using w2(3) w3(2) by (simp add: isWriting_mask mask_test)
    with w3(1) have sd: "shutdownInLoop S c w3 = Inr (Socket_shutdownWrite S ?fd w3)"
      by (simp add: shutdownInLoop_def with_conn_def)
    have "handleWrite S tid c w = (if conn_state x = kDisconnecting then shutdownInLoop S c w3 else Inr w3)"
      using step True w2(1) by (simp add: Let_def flip: w3_def)
    with sd w3 shutdownWrite_sent_shut [OF st shl, of ?fd w3] shutdownWrite_frame(2) [OF io_lawsD(2) [OF io], of ?fd w3] True
    show ?thesis by auto
  qed
qed

lemma handleWrite_idle:
  assumes q: "quiet itst L live c x w" and open_: "conn_state x \<noteq> kDisconnected" and "content (outputBuffer x) = []"
  shows "handleWrite S tid c w = Inr w"
  using quietD(8) [OF q open_] assms(3) by (simp add: handleWrite_def with_conn_def quietD(2) [OF q])

lemma handleWrite_takes_nothing:
  assumes q: "quiet itst L live c x w" and open_: "conn_state x \<noteq> kDisconnected" and ne: "content (outputBuffer x) \<noteq> []"
    and wr: "sys_write S (conn_fd x) (content (outputBuffer x)) (kern w) = (n, k')" and n: "n \<le> 0"
  shows "handleWrite S tid c w = Inr (log_line ERROR ''TcpConnection fd=%d is down, no more writing'' (w\<lparr>kern := k'\<rparr>))"
  using quietD(8) [OF q open_] ne n
  by (simp add: handleWrite_def with_conn_def quietD(2,5) [OF q] writeFd_ok [OF quietD(4) [OF q] wr] Let_def)

text \<open>
  C2. What a write event of a connection that is not disconnected does, whatever \<open>write\<close> answers: the stream is
  unchanged as a whole; exactly the bytes the kernel took leave the buffer, none when it failed or took none; write
  events stay asked for exactly while output remains; and the write side of the socket is shut down by this event
  exactly when it drained the output of a connection that is disconnecting.
\<close>

theorem write_event_drains:
  assumes law: "stream_laws S itst sent" and shl: "shutdown_law S shut" and q: "quiet itst L live c x w"
    and open_: "conn_state x \<noteq> kDisconnected"
    and wr: "sys_write S (conn_fd x) (content (outputBuffer x)) (kern w) = (n, k')"
  shows "\<exists>w' y. handleWrite S tid c w = Inr w' \<and> conns w' c = Some y \<and>
    delivered sent y w' = delivered sent x w \<and>
    content (outputBuffer y) = drop (nat n) (content (outputBuffer x)) \<and>
    (isWriting (filedOf w' (conn_filed y)) \<longleftrightarrow> content (outputBuffer y) \<noteq> []) \<and>
    (shut (kern w') (conn_fd x) \<longleftrightarrow> shut (kern w) (conn_fd x) \<or>
       conn_state x = kDisconnecting \<and> content (outputBuffer x) \<noteq> [] \<and> content (outputBuffer y) = [])"
proof -
  let ?fd = "conn_fd x" and ?out = "outputBuffer x"
  note io = stream_lawsD(1) [OF law] and st = stream_lawsD(2) [OF law] and c = quietD(2) [OF q]
  note isw = quietD(8) [OF q open_]
  have sent1: "sent k' ?fd = sent (kern w) ?fd @ take (nat n) (content ?out)" and shut1: "shut k' = shut (kern w)"
    using stream_lawD(1) [OF st wr] shutdown_lawD(1) [OF shl wr] by simp_all
  consider "content ?out = []" | "content ?out \<noteq> []" "n \<le> 0" | "content ?out \<noteq> []" "0 < n" by linarith
  then show ?thesis
  proof cases
    case 1
    with handleWrite_idle [OF q open_ 1] c isw show ?thesis by simp
  next
    case 2
    with handleWrite_takes_nothing [OF q open_ 2(1) wr 2(2)] c isw sent1 shut1 show ?thesis
      by (simp add: delivered_def log_line_def)
  next
    case 3
    note ne = 3(1) and n = 3(2)
    note b = quietD(4) [OF q]
    have good: "good itst L live w w" using quietD(1) [OF q] by (simp add: good_def)
    have le: "nat n \<le> length (content ?out)" using write_lawD [OF stream_lawsD(3) [OF law] wr] n by linarith
    have un: "unat (of_int n :: size_t) = nat n"
    proof -
      have "length (content ?out) < 2 ^ 64"
        using length_content [OF b] unat_size_bound [of "readableBytes ?out"] by simp
      with le have "unat (of_nat (nat n) :: size_t) = nat n" by (intro unat_size_of_nat) simp
      with n show ?thesis by simp
    qed
    let ?b = "retrieve (of_int n) ?out"
    have rb: "buffer_inv ?b" "content ?b = drop (nat n) (content ?out)"
      using retrieve_inv [OF b, of "of_int n"] un by simp_all
    from handleWrite_exact [OF law shl q open_ ne wr n refl, of tid]
    obtain w' y where w': "handleWrite S tid c w = Inr w'" "conns w' c = Some y" "outputBuffer y = ?b"
      "conn_fd y = ?fd" "conn_state y = conn_state x" "sent (kern w') ?fd = sent k' ?fd"
      "shut (kern w') ?fd \<longleftrightarrow> shut k' ?fd \<or> conn_state x = kDisconnecting \<and> content ?b = []" by blast
    have "good itst L live w w'"
      by (rule outcomeD [OF handleWrite_keeps [OF io good] w'(1)])
    then have "conn_ok w' y" using w'(2) by (rule goodD(4))
    then have "isWriting (filedOf w' (conn_filed y)) \<longleftrightarrow> content (outputBuffer y) \<noteq> []"
      using open_ w'(5) by (simp add: conn_ok_def)
    with w' sent1 shut1 rb(2) ne show ?thesis by (auto simp: delivered_def)
  qed
qed

text \<open>The demo connection with three bytes waiting, in a given state.\<close>

definition demo_waiting :: "conn_state \<Rightarrow> connection" where
  "demo_waiting st = demo_conn\<lparr>conn_state := st, outputBuffer :=
     \<lparr>storage = replicate 8 0 @ [1, 2, 3], readerIndex = 8, writerIndex = 11\<rparr>\<rparr>"

definition demo_backlog :: "conn_state \<Rightarrow> ksim process" where
  "demo_backlog st = (demo_process 16 0)\<lparr>conns := (\<lambda>_. None)(5 \<mapsto> demo_waiting st),
     filedOf := (\<lambda>_. (mkFiled 0 7)\<lparr>events := EPOLLOUT\<rparr>)\<rparr>"

lemma demo_waiting_content:
  "content (outputBuffer (demo_waiting st)) = [1, 2, 3]" "buffer_inv (outputBuffer (demo_waiting st))"
  "inputBuffer (demo_waiting st) = mkBuffer kInitialSize" "conn_state (demo_waiting st) = st"
  "conn_fd (demo_waiting st) = 7" "conn_filed (demo_waiting st) = 1" "conn_loop (demo_waiting st) = 0"
  by (simp_all add: demo_waiting_def demo_conn_def content_def buffer_inv_def)

lemma demo_backlog_quiet: "quiet sim_interest {0} {1} 5 (demo_waiting st) (demo_backlog st)"
  by (simp add: quiet_def process_inv_def conn_ok_def demo_waiting_content demo_backlog_def demo_buffer)
    (simp add: demo_process_def mkFiled_def isWriting_def registry_inv_def filed_ok_def kNew_def ksim0_def
      kWriteEvent_def EPOLLOUT_def)

theorem write_event_drains_witness:
  "\<exists>w' y. handleWrite sim_sys 1 5 (demo_backlog kDisconnecting) = Inr w' \<and> conns w' 5 = Some y \<and>
     content (outputBuffer y) = [] \<and> sim_shutdown (kern w') 7"
proof -
  let ?x = "demo_waiting kDisconnecting" and ?w = "demo_backlog kDisconnecting"
  obtain k' where wr: "sys_write sim_sys (conn_fd ?x) (content (outputBuffer ?x)) (kern ?w) = (3, k')"
    by (simp add: demo_waiting_content demo_backlog_def demo_process_def sim_sys_def sim_write_def wake_bytes_def
        ksim0_def Let_def)
  from write_event_drains [OF sim_stream_laws sim_shutdown_law demo_backlog_quiet _ wr, of 1]
  show ?thesis by (auto simp: demo_waiting_content)
qed

text \<open>
  C25. Graceful close: \<open>shutdown()\<close> of a connected connection, called in its loop, marks it disconnecting,
  touches neither the stream nor the buffer, and shuts the write side down at once exactly when no output
  is waiting; called from another thread it marks it at once and queues the rest as one function of the
  connection's loop. On a connection in any other state it does nothing.
\<close>

theorem shutdown_waits_for_output:
  assumes law: "stream_laws S itst sent" and shl: "shutdown_law S shut" and q: "quiet itst L live c x w"
  shows "\<exists>w'. shutdown S tid c w = Inr w' \<and> delivered sent x w' = delivered sent x w \<and>
    conns w' c = Some (if conn_state x = kConnected then x\<lparr>conn_state := kDisconnecting\<rparr> else x) \<and>
    (shut (kern w') (conn_fd x) \<longleftrightarrow> shut (kern w) (conn_fd x) \<or>
       conn_state x = kConnected \<and> isLoopThread tid (conn_loop x) w \<and> content (outputBuffer x) = []) \<and>
    pendFuncs (loopOf w' (conn_loop x)) = pendFuncs (loopOf w (conn_loop x)) @
      (if conn_state x = kConnected \<and> \<not> isLoopThread tid (conn_loop x) w then [TShutdownInLoop c] else [])"
proof -
  note st = stream_lawsD(2) [OF law] and c = quietD(2) [OF q]
  let ?w = "setState kDisconnecting c w"
  have cw: "conns ?w c = Some (x\<lparr>conn_state := kDisconnecting\<rparr>)" using c by (simp add: setState_def upd_conn_def)
  have same: "kern ?w = kern w" "filedOf ?w = filedOf w" "loopOf ?w = loopOf w"
    by (simp_all add: setState_def)
  have cs: "conns (Socket_shutdownWrite S fd v) = conns v" "loopOf (Socket_shutdownWrite S fd v) = loopOf v"
    for fd and v :: "('a, 'c) process_scheme"
    by (simp_all add: Socket_shutdownWrite_def log_line_def Let_def split: prod.split)
  note qf = queueinLoop_frame(2) [OF io_lawsD(2) [OF stream_lawsD(1) [OF law]], where w = ?w]
  have pend: "pendFuncs (loopOf (queueinLoop S tid l t ?w) l) = pendFuncs (loopOf w l) @ [t]" for l t
    by (simp add: queueinLoop_def wake_after_post_def post_func_def wakeup_def upd_loop_def log_line_def same
        Let_def split: prod.split)
  have sent: "sent (kern (queueinLoop S tid (conn_loop x) t ?w)) (conn_fd x) = sent (kern w) (conn_fd x)" for t
    using queueinLoop_sent [OF st, of ?w "conn_loop x"] quietD(3) [OF q] same by simp
  show ?thesis
    using cw c same pend sent qf shutdownWrite_sent_shut [OF st shl, of _ ?w] queueinLoop_shut [OF shl, where w = ?w]
      quietD(8) [OF q]
    by (auto simp: shutdown_def with_conn_def runinLoop_def shutdownInLoop_def isLoopThread_def delivered_def cs)
qed

theorem shutdown_waits_for_output_witness:
  "\<exists>w'. shutdown sim_sys 1 5 (demo_backlog kConnected) = Inr w' \<and> \<not> sim_shutdown (kern w') 7"
  using shutdown_waits_for_output [OF sim_stream_laws sim_shutdown_law demo_backlog_quiet [of kConnected], of 1]
  by (auto simp: demo_waiting_content sim_shutdown_def demo_backlog_def demo_process_def ksim0_def)

lemma freed_string:
  assumes "conns v c = Some x" and "conn_state x \<noteq> kDisconnected" and "strings v a = None" and "len > 0"
  shows "sendinLoop S tid c a len v = Inl UseAfterFree"
proof -
  have "strings (check_high_water S tid c r x v) a = None" for r
    using assms(3) by (simp add: check_high_water_def queueinLoop_strings Let_def split: option.split)
  with assms show ?thesis
    by (simp add: sendinLoop_def with_conn_def sendinLoop_write_def sendinLoop_queue_def read_string_def Let_def)
qed

text \<open>
  C30. \<open>send\<close> from another thread keeps no copy of the string: it queues its address. If the string is
  destroyed before the loop gets to the queued function, which nothing prevents, running that function
  reads freed memory.
\<close>

theorem cross_thread_send_dangles:
  assumes q: "quiet itst L live c x w" and open_: "conn_state x = kConnected"
    and far: "\<not> isLoopThread tid (conn_loop x) w" and s: "strings w a = Some d"
    and d: "d \<noteq> []" "length d < 2 ^ 63" and frame: "interest_frame S itst"
  shows "\<exists>w1. send S tid c a w = Inr w1 \<and>
    pendFuncs (loopOf w1 (conn_loop x)) = pendFuncs (loopOf w (conn_loop x)) @ [TSendInLoop c a (of_nat (length d))] \<and>
    conn_task S app (threadId (loopOf w (conn_loop x))) (TSendInLoop c a (of_nat (length d)))
      (w1\<lparr>strings := (strings w1)(a := None)\<rparr>) = Some (Inl UseAfterFree)"
proof -
  let ?t = "TSendInLoop c a (of_nat (length d))"
  let ?w1 = "queueinLoop S tid (conn_loop x) ?t w"
  let ?w2 = "?w1\<lparr>strings := (strings ?w1)(a := None)\<rparr>"
  have pos: "(of_nat (length d) :: size_t) > 0"
    using d unat_len [OF d(2)] by (simp add: word_less_nat_alt)
  have pend: "pendFuncs (loopOf ?w1 (conn_loop x)) = pendFuncs (loopOf w (conn_loop x)) @ [?t]"
    by (simp add: queueinLoop_def wake_after_post_def post_func_def wakeup_def upd_loop_def log_line_def
        Let_def split: prod.split)
  have c2: "conns ?w2 c = Some x"
    using queueinLoop_frame(2) [OF frame, where w = w] quietD(2) [OF q] by simp
  have "strings ?w2 a = None" by simp
  from freed_string [OF c2 _ this pos] open_
  have "sendinLoop S t c a (of_nat (length d)) ?w2 = Inl UseAfterFree" for t by simp
  moreover have "send S tid c a w = Inr ?w1"
    using quietD(2) [OF q] open_ far s by (simp add: send_def with_conn_def runinLoop_def Let_def)
  ultimately show ?thesis using pend by auto
qed

theorem cross_thread_send_dangles_witness:
  "\<exists>w1. send sim_sys 2 5 9 (demo_process 16 0) = Inr w1 \<and>
     conn_task sim_sys (\<lambda>_ _ _. []) 1 (TSendInLoop 5 9 3) (w1\<lparr>strings := (strings w1)(9 := None)\<rparr>) =
       Some (Inl UseAfterFree)"
proof -
  let ?w = "demo_process 16 0"
  note i = demo_idle [of 16 0]
  have "conn_state demo_conn = kConnected" "\<not> isLoopThread 2 (conn_loop demo_conn) ?w"
    "threadId (loopOf ?w (conn_loop demo_conn)) = 1"
    by (simp_all add: demo_conn_def isLoopThread_def demo_process_def)
  with cross_thread_send_dangles [OF idleD(1) [OF i] _ _ idleD(4) [OF i] _ _ sim_interest_frame,
      of 2 "\<lambda>_ _ _. []"]
  show ?thesis by auto
qed

lemma handleRead_exact:
  assumes law: "readv_law S" and q: "quiet itst L live c x w" and room: "readFd_room (inputBuffer x)"
    and rd: "sys_readv S (conn_fd x) (readFd_iov (inputBuffer x)) (kern w) = (n, d, k')"
  shows "\<exists>b'. handleRead S app closecb tid c now w =
      (let w' = upd_conn c (\<lambda>x. x\<lparr>inputBuffer := b'\<rparr>) (w\<lparr>kern := k'\<rparr>) in
       if n > 0 then call_app S app tid (messageCallback x) (EvMessage c now) w'
       else if n = 0 then handleClose S app closecb tid c w'
       else handleError S c (log_line ERROR ''TcpConnection::handleRead''
              (w'\<lparr>kern := sys_set_errno S (sys_errno S k') k'\<rparr>))) \<and>
    buffer_inv b' \<and> content b' = content (inputBuffer x) @ (if n < 0 then [] else d)"
proof -
  have b: "buffer_inv (inputBuffer x)"
    using process_invD(3) [OF quietD(1,2) [OF q]] by (simp add: conn_ok_def)
  show ?thesis
  proof (cases "n < 0")
    case True
    from readFd_error [OF rd True, of 0] have
      "readFd S (conn_fd x) 0 (inputBuffer x) (kern w) = Inr (n, sys_errno S k', inputBuffer x, k')" .
    with True b show ?thesis
      by (intro exI [of _ "inputBuffer x"]) (simp add: handleRead_def with_conn_def quietD(2,5) [OF q] Let_def)
  next
    case False
    then have "0 \<le> n" by simp
    from readFd_ok [OF b room law rd this, of 0] obtain b' where
      "readFd S (conn_fd x) 0 (inputBuffer x) (kern w) = Inr (n, 0, b', k')" "buffer_inv b'"
      "content b' = content (inputBuffer x) @ d" by metis
    with False show ?thesis
      by (intro exI [of _ b']) (simp add: handleRead_def with_conn_def quietD(2,5) [OF q] Let_def)
  qed
qed

text \<open>
  C26. \<open>handleRead\<close> on every branch: the bytes received are appended to the input buffer before the message
  callback is called, a failed read goes to \<open>handleError\<close> with \<open>errno\<close> restored and the buffer unchanged, and
  the end of the stream closes the connection.
\<close>

theorem read_event_cases:
  assumes law: "readv_law S" and q: "quiet itst L live c x w" and room: "readFd_room (inputBuffer x)"
    and rd: "sys_readv S (conn_fd x) (readFd_iov (inputBuffer x)) (kern w) = (n, d, k')"
  shows "\<exists>b'. handleRead S app closecb tid c now w =
      (let w' = upd_conn c (\<lambda>x. x\<lparr>inputBuffer := b'\<rparr>) (w\<lparr>kern := k'\<rparr>) in
       if n > 0 then call_app S app tid (messageCallback x) (EvMessage c now) w'
       else if n = 0 then handleClose S app closecb tid c w'
       else handleError S c (log_line ERROR ''TcpConnection::handleRead''
              (w'\<lparr>kern := sys_set_errno S (sys_errno S k') k'\<rparr>))) \<and>
    buffer_inv b' \<and> content b' = content (inputBuffer x) @ (if n < 0 then [] else d)"
  using assms by (rule handleRead_exact)

theorem read_event_cases_witness:
  "\<exists>w'. handleRead sim_sys (\<lambda>_ _ _. []) (\<lambda>_ _ _ w. Inr w) 1 5 0
     ((demo_process 16 0)\<lparr>kern := (kern (demo_process 16 0))\<lparr>sim_input := [7, 8]\<rparr>\<rparr>) = Inr w' \<and>
     map_option (\<lambda>x. content (inputBuffer x)) (conns w' 5) = Some [7, 8]"
proof -
  let ?w = "(demo_process 16 0)\<lparr>kern := (kern (demo_process 16 0))\<lparr>sim_input := [7, 8]\<rparr>\<rparr>"
  have "process_inv sim_interest {0} {1} ?w"
    by (simp add: process_inv_def conn_ok_def demo_process_def demo_conn_def mkFiled_def demo_buffer isWriting_def
        registry_inv_def filed_ok_def kNew_def ksim0_def)
  then have q: "quiet sim_interest {0} {1} 5 demo_conn ?w"
    by (simp add: quiet_def) (simp add: demo_process_def demo_conn_def)
  have b: "readFd_room (inputBuffer demo_conn)"
    by (simp add: demo_conn_def readFd_room_def kExtraSize_def mkBuffer_def kInitialSize_def kCheapPrepend_def)
  have w: "unat (writableBytes (inputBuffer demo_conn)) = 1024"
    by (simp add: demo_conn_def writableBytes_def mkBuffer_def kInitialSize_def kCheapPrepend_def)
  obtain k' where rd: "sys_readv sim_sys (conn_fd demo_conn) (readFd_iov (inputBuffer demo_conn)) (kern ?w) = (2, [7, 8], k')"
    by (simp add: sim_sys_def sim_readv_def readFd_iov_def w kExtraSize_def)
  from read_event_cases [OF sim_readv_law q b rd, of "\<lambda>_ _ _. []" "\<lambda>_ _ _ w. Inr w" 1 0]
  obtain b' where "handleRead sim_sys (\<lambda>_ _ _. []) (\<lambda>_ _ _ w. Inr w) 1 5 0 ?w =
      call_app sim_sys (\<lambda>_ _ _. []) 1 (messageCallback demo_conn) (EvMessage 5 0)
        (upd_conn 5 (\<lambda>x. x\<lparr>inputBuffer := b'\<rparr>) (?w\<lparr>kern := k'\<rparr>))"
    "content b' = content (inputBuffer demo_conn) @ [7, 8]" by (auto simp: Let_def)
  moreover have "conns ?w 5 = Some demo_conn" by (rule quietD(2) [OF q])
  ultimately show ?thesis
    by (simp add: call_app_def demo_conn_def upd_conn_def demo_buffer)
qed

end
