(* ===== verification/Address.thy ===== *)
theory Address
  imports Kernel Printf
begin

text \<open>
  \<open>Address\<close> (\<open>include/Address.h\<close>, \<open>src/Address.cpp\<close>): an IPv4 socket address, kept in network byte order, and
  its text forms. \<open>htons\<close>, \<open>ntohs\<close>, \<open>inet_ntop\<close> and \<open>inet_addr\<close> are modelled on a little-endian
  machine, where the first octet of the address is the least significant byte of \<open>s_addr\<close>; what \<open>inet_addr\<close> makes of
  a text that is not a canonical dotted quad (fewer parts, octal or hexadecimal parts, an error) is a parameter.
\<close>

section \<open>Conversions\<close>

definition AF_INET :: u16 where "AF_INET = 2"

definition htons :: "u16 \<Rightarrow> u16" where
  "htons p = push_bit 8 p OR drop_bit 8 p"

definition ntohs :: "u16 \<Rightarrow> u16" where
  "ntohs p = push_bit 8 p OR drop_bit 8 p"

definition octet :: "nat \<Rightarrow> u32 \<Rightarrow> byte" where
  "octet i a = ucast (drop_bit (8 * i) a)"

definition inet_ntop :: "u32 \<Rightarrow> string" where
  "inet_ntop a = dec (unat (octet 0 a)) @ CHR ''.'' # dec (unat (octet 1 a)) @ CHR ''.'' #
     dec (unat (octet 2 a)) @ CHR ''.'' # dec (unat (octet 3 a))"

definition mkAddress :: "(string \<Rightarrow> u32) \<Rightarrow> u16 \<Rightarrow> string \<Rightarrow> sockaddr" where
  "mkAddress inet_addr port ip = \<lparr>sin_family = AF_INET, sin_port = htons port, sin_addr = inet_addr (c_str ip)\<rparr>"

text \<open>\<open>inet_ntop\<close> writes into a zeroed buffer of 64 characters; \<open>toIpPort\<close> prints after the address.\<close>

definition toIp :: "sockaddr \<Rightarrow> string" where
  "toIp a = snprintf 64 (inet_ntop (sin_addr a))"

definition toPort :: "sockaddr \<Rightarrow> u16" where
  "toPort a = ntohs (sin_port a)"

definition toIpPort :: "sockaddr \<Rightarrow> fault + string" where
  "toIpPort a =
     (let s = snprintf 64 (inet_ntop (sin_addr a)) @ CHR '':'' # dec (unat (ntohs (sin_port a)))
      in if length s < 64 then Inr s else Inl OutOfBounds)"

section \<open>Bytes\<close>

lemma ntohs_htons: "ntohs (htons p) = p"
  by (rule bit_word_eqI)
    (auto simp: ntohs_def htons_def bit_or_iff bit_push_bit_iff bit_drop_bit_eq not_less le_diff_conv2 dest: bit_imp_le_length)

lemma ntohs_inject: "ntohs p = ntohs q \<longleftrightarrow> p = q"
  using ntohs_htons by (metis htons_def ntohs_def)

lemma octets_inject:
  assumes "octet 0 a = octet 0 b" and "octet 1 a = octet 1 b" and "octet 2 a = octet 2 b" and "octet 3 a = octet 3 b"
  shows "a = b"
proof (rule bit_word_eqI)
  fix n
  assume n: "n < LENGTH(32)"
  have oct: "bit (octet i x) k \<longleftrightarrow> bit x (8 * i + k)" if "k < 8" for i k x
    using that by (simp add: octet_def bit_ucast_iff bit_drop_bit_eq)
  have "octet (n div 8) a = octet (n div 8) b"
  proof -
    have "n div 8 < 4" using n by simp
    then consider "n div 8 = 0" | "n div 8 = 1" | "n div 8 = 2" | "n div 8 = 3" by linarith
    then show ?thesis by cases (simp_all only: assms)
  qed
  then show "bit a n \<longleftrightarrow> bit b n"
    using oct [of "n mod 8" "n div 8" a] oct [of "n mod 8" "n div 8" b] by simp
qed

section \<open>Properties of the text forms\<close>

lemma length_byte: "length (dec (unat b)) \<le> 3" for b :: byte
proof -
  have "unat b < 256" using unsigned_less [of b, where 'a = nat] by simp
  then show ?thesis using length_dec [of "unat b" 2] by simp
qed

lemma length_inet_ntop: "length (inet_ntop a) \<le> 15"
  using length_byte [of "octet 0 a"] length_byte [of "octet 1 a"] length_byte [of "octet 2 a"]
    length_byte [of "octet 3 a"]
  by (simp add: inet_ntop_def)

lemma length_port: "length (dec (unat p)) \<le> 5" for p :: u16
proof -
  have "unat p < 65536" using unsigned_less [of p, where 'a = nat] by simp
  then show ?thesis using length_dec [of "unat p" 4] by simp
qed

lemma toIpPort_eq: "toIpPort a = Inr (inet_ntop (sin_addr a) @ CHR '':'' # dec (unat (ntohs (sin_port a))))"
  and toIpPort_length: "toIpPort a = Inr s \<Longrightarrow> length s \<le> 21"
  using length_inet_ntop [of "sin_addr a"] length_port [of "ntohs (sin_port a)"]
  by (auto simp: toIpPort_def snprintf_fits Let_def)

lemma unat_byte_eq: "unat x = unat y \<longleftrightarrow> x = y" for x y :: byte
  by (simp add: word_unat_eq_iff)

lemma unat_port_eq: "unat x = unat y \<longleftrightarrow> x = y" for x y :: u16
  by (simp add: word_unat_eq_iff)

lemma inet_ntop_split:
  assumes "inet_ntop a @ CHR '':'' # us = inet_ntop b @ CHR '':'' # vs"
  shows "a = b \<and> us = vs"
proof -
  note split = digits_split [OF dec_digits dec_digits]
  from assms have eq: "dec (unat (octet 0 a)) @ CHR ''.'' # dec (unat (octet 1 a)) @ CHR ''.'' #
     dec (unat (octet 2 a)) @ CHR ''.'' # dec (unat (octet 3 a)) @ CHR '':'' # us =
     dec (unat (octet 0 b)) @ CHR ''.'' # dec (unat (octet 1 b)) @ CHR ''.'' #
     dec (unat (octet 2 b)) @ CHR ''.'' # dec (unat (octet 3 b)) @ CHR '':'' # vs"
    by (simp add: inet_ntop_def)
  from split [OF digit_not_special(2) eq] have e0: "octet 0 a = octet 0 b"
    and eq1: "dec (unat (octet 1 a)) @ CHR ''.'' # dec (unat (octet 2 a)) @ CHR ''.'' # dec (unat (octet 3 a)) @ CHR '':'' # us =
      dec (unat (octet 1 b)) @ CHR ''.'' # dec (unat (octet 2 b)) @ CHR ''.'' # dec (unat (octet 3 b)) @ CHR '':'' # vs"
    by (simp_all add: unat_byte_eq)
  from split [OF digit_not_special(2) eq1] have e1: "octet 1 a = octet 1 b"
    and eq2: "dec (unat (octet 2 a)) @ CHR ''.'' # dec (unat (octet 3 a)) @ CHR '':'' # us =
      dec (unat (octet 2 b)) @ CHR ''.'' # dec (unat (octet 3 b)) @ CHR '':'' # vs"
    by (simp_all add: unat_byte_eq)
  from split [OF digit_not_special(2) eq2] have e2: "octet 2 a = octet 2 b"
    and eq3: "dec (unat (octet 3 a)) @ CHR '':'' # us = dec (unat (octet 3 b)) @ CHR '':'' # vs"
    by (simp_all add: unat_byte_eq)
  from split [OF digit_not_special(3) eq3] have "octet 3 a = octet 3 b" "us = vs" by (simp_all add: unat_byte_eq)
  with octets_inject [OF e0 e1 e2] show ?thesis by blast
qed

text \<open>
  C37. \<open>toIpPort\<close> never writes past its buffer of 64 characters, needs at most 21, and names the endpoint: two
  IPv4 addresses with the same text have the same address and port.
\<close>

theorem toIpPort_identifies:
  "\<exists>s. toIpPort a = Inr s \<and> length s \<le> 21 \<and>
     (toIpPort b = Inr s \<and> sin_family a = sin_family b \<longleftrightarrow> a = b)"
proof -
  obtain s where s: "toIpPort a = Inr s" "length s \<le> 21"
    using toIpPort_eq [of a] toIpPort_length [of a] by blast
  have "sin_addr a = sin_addr b \<and> sin_port a = sin_port b" if "toIpPort b = Inr s"
  proof -
    have "inet_ntop (sin_addr a) @ CHR '':'' # dec (unat (ntohs (sin_port a))) =
        inet_ntop (sin_addr b) @ CHR '':'' # dec (unat (ntohs (sin_port b)))"
      using that s(1) by (simp add: toIpPort_eq)
    from inet_ntop_split [OF this] show ?thesis by (simp add: unat_port_eq ntohs_inject)
  qed
  with s show ?thesis by (auto intro: sockaddr.equality)
qed

section \<open>Reading a dotted quad\<close>

text \<open>A run of digits, read as a decimal number, and the rest.\<close>

fun read_dec :: "nat \<Rightarrow> string \<Rightarrow> nat \<times> string" where
  "read_dec n [] = (n, [])"
| "read_dec n (c # cs) = (if is_digit c then read_dec (10 * n + (of_char c - 48)) cs else (n, c # cs))"

lemma read_dec_digits:
  assumes "list_all is_digit ds" and "rest = [] \<or> \<not> is_digit (hd rest)"
  shows "read_dec n (ds @ rest) = (foldl (\<lambda>n c. 10 * n + (of_char c - 48)) n ds, rest)"
  using assms(1)
proof (induction ds arbitrary: n)
  case Nil
  with assms(2) show ?case by (cases rest) auto
qed simp

lemma read_dec_dec: "rest = [] \<or> \<not> is_digit (hd rest) \<Longrightarrow> read_dec 0 (dec n @ rest) = (n, rest)"
  using read_dec_digits [OF dec_digits] undec_dec [of n] by (simp add: undec_def)

definition quad :: "nat \<Rightarrow> nat \<Rightarrow> nat \<Rightarrow> nat \<Rightarrow> u32" where
  "quad a b c d = of_nat (a + 256 * b + 65536 * c + 16777216 * d)"

definition read_quad :: "string \<Rightarrow> u32" where
  "read_quad s =
     (let (a, s) = read_dec 0 s; (b, s) = read_dec 0 (tl s); (c, s) = read_dec 0 (tl s); (d, s) = read_dec 0 (tl s)
      in quad a b c d)"

text \<open>\<open>inet_addr\<close>: the address of a canonical dotted quad.\<close>

definition inet_addr :: "(string \<Rightarrow> u32) \<Rightarrow> string \<Rightarrow> u32" where
  "inet_addr other s = (let a = read_quad s in if inet_ntop a = s then a else other s)"

lemma unat_octet: "unat (octet i a) = unat a div 256 ^ i mod 256"
proof -
  have "unat a < 2 ^ 32" using unsigned_less [of a, where 'a = nat] by simp
  then have "unat (octet i a) = take_bit 8 (drop_bit (8 * i) (unat a))"
    by (simp only: octet_def unsigned_ucast_eq unsigned_drop_bit_eq) (simp add: take_bit_nat_eq_self)
  then show ?thesis by (simp add: drop_bit_eq_div take_bit_eq_mod power_mult)
qed

lemma base_256: "x < 256 ^ 4 \<Longrightarrow>
    x mod 256 + 256 * (x div 256 mod 256) + 65536 * (x div 65536 mod 256) + 16777216 * (x div 16777216 mod 256) = x" for x :: nat
proof -
  assume "x < 256 ^ 4"
  have d: "x div 65536 = x div 256 div 256" "x div 16777216 = x div 256 div 256 div 256" by (simp_all flip: div_mult2_eq)
  have "x div 256 div 256 div 256 < 256" using \<open>x < 256 ^ 4\<close> by (simp flip: div_mult2_eq add: less_mult_imp_div_less)
  then have "x div 256 div 256 div 256 mod 256 = x div 256 div 256 div 256" by simp
  moreover have "x = 256 * (x div 256) + x mod 256" "x div 256 = 256 * (x div 256 div 256) + x div 256 mod 256"
    "x div 256 div 256 = 256 * (x div 256 div 256 div 256) + x div 256 div 256 mod 256" by simp_all
  ultimately show ?thesis unfolding d by linarith
qed

lemma quad_octets: "quad (unat (octet 0 a)) (unat (octet 1 a)) (unat (octet 2 a)) (unat (octet 3 a)) = a"
proof -
  have "unat a < 256 ^ 4" using unsigned_less [of a, where 'a = nat] by simp
  have oct: "unat (octet 0 a) = unat a mod 256" "unat (octet 1 a) = unat a div 256 mod 256"
    "unat (octet 2 a) = unat a div 65536 mod 256" "unat (octet 3 a) = unat a div 16777216 mod 256"
    using unat_octet [of 0 a] unat_octet [of 1 a] unat_octet [of 2 a] unat_octet [of 3 a] by simp_all
  show ?thesis unfolding quad_def oct base_256 [OF \<open>unat a < 256 ^ 4\<close>] by simp
qed

lemma read_quad_ntop: "read_quad (inet_ntop a) = a"
proof -
  note dot = digit_not_special(2)
  show ?thesis
    using read_dec_dec [of "[]" "unat (octet 3 a)"] quad_octets [of a]
    by (simp add: read_quad_def inet_ntop_def read_dec_dec dot del: One_nat_def)
qed

lemma inet_addr_ntop: "inet_addr other (inet_ntop a) = a"
  by (simp add: inet_addr_def read_quad_ntop Let_def)

lemma c_str_ntop: "c_str (inet_ntop a) = inet_ntop a"
proof -
  have "CHR 0x00 \<notin> set (inet_ntop a)" by (simp add: inet_ntop_def dec_no_null)
  then show ?thesis by (auto simp: c_str_def takeWhile_eq_all_conv)
qed

text \<open>
  C38. The constructor and the observers agree: an address built from a port gives the port back, for every
  16-bit port and every text, and an address built from the canonical dotted quad of any of the \<open>2 ^ 32\<close> addresses is
  that address and prints as that text again.
\<close>

theorem address_port_roundtrip:
  "toPort (mkAddress inet port ip) = port \<and>
   sin_addr (mkAddress (inet_addr other) port (inet_ntop a)) = a \<and>
   toIp (mkAddress (inet_addr other) port (inet_ntop a)) = inet_ntop a"
  using length_inet_ntop [of a]
  by (simp add: toPort_def mkAddress_def ntohs_htons toIp_def snprintf_fits c_str_ntop inet_addr_ntop)

end
