(* ===== verification/ManagerProtocol.thy ===== *)
theory ManagerProtocol
  imports EventLoop
begin

text \<open>
  The handshake of \<open>Manager\<close> (\<open>src/Manager.cpp\<close>) between the thread that owns it and the thread it starts:
  \<open>startLoop\<close> waits until the new thread has made its \<open>EventLoop\<close> and published its address, the destructor stops
  the loop and joins. The loop object lives on the new thread's stack.
\<close>

section \<open>The two threads\<close>

text \<open>Where the owner is: before \<open>startLoop\<close>, in its wait, returned; in the destructor before \<open>quit\<close>, in \<open>join\<close>, done.\<close>

datatype owner_pc = OStart | OWait | OGot | OQuit | OJoin | ODone | OFault fault

text \<open>
  Where the new thread is in \<open>threadFunc\<close>: not started, before the constructor of the loop, before the user's
  callback, before publishing, before \<open>loop()\<close>, in \<open>loop()\<close>, after it, ended.
\<close>

datatype thread_pc = TNone | TBegun | TMade | TCalled | TPublished | TLooping | TLeft | TEnded

record manager =
  owner :: owner_pc
  func :: thread_pc
  loop_set :: bool                \<comment> \<open>\<open>loop_ != nullptr\<close>\<close>
  loop_obj :: "event_loop option"  \<comment> \<open>the loop on the thread's stack\<close>
  callback_ran :: bool

definition fresh_loop :: event_loop where
  "fresh_loop = \<lparr>looping = False, quit = False, threadId = 2, epollReturnTime = 0, wakeupFd = 4,
     wakeupFiled = 0, activeFileds = [], isCallPendFunc = False, pendFuncs = []\<rparr>"

definition mgr_init :: manager where
  "mgr_init = \<lparr>owner = OStart, func = TNone, loop_set = False, loop_obj = None, callback_ran = False\<rparr>"

inductive mgr_step :: "manager \<Rightarrow> manager \<Rightarrow> bool" where
  start: "owner s = OStart \<Longrightarrow> mgr_step s (s\<lparr>owner := OWait, func := TBegun\<rparr>)"
| got: "owner s = OWait \<Longrightarrow> loop_set s \<Longrightarrow> mgr_step s (s\<lparr>owner := OGot\<rparr>)"
| destroy: "owner s = OGot \<Longrightarrow> loop_set s \<Longrightarrow> mgr_step s (s\<lparr>owner := OQuit\<rparr>)"
| destroy_ended: "owner s = OGot \<Longrightarrow> \<not> loop_set s \<Longrightarrow> mgr_step s (s\<lparr>owner := ODone\<rparr>)"
| quit_loop: "owner s = OQuit \<Longrightarrow> loop_obj s = Some e \<Longrightarrow>
    mgr_step s (s\<lparr>owner := OJoin, loop_obj := Some (e\<lparr>quit := True\<rparr>)\<rparr>)"
| quit_dead: "owner s = OQuit \<Longrightarrow> loop_obj s = None \<Longrightarrow> mgr_step s (s\<lparr>owner := OFault UseAfterFree\<rparr>)"
| joined: "owner s = OJoin \<Longrightarrow> func s = TEnded \<Longrightarrow> mgr_step s (s\<lparr>owner := ODone\<rparr>)"
| make: "func s = TBegun \<Longrightarrow> mgr_step s (s\<lparr>func := TMade, loop_obj := Some fresh_loop\<rparr>)"
| call: "func s = TMade \<Longrightarrow> mgr_step s (s\<lparr>func := TCalled, callback_ran := True\<rparr>)"
| publish: "func s = TCalled \<Longrightarrow> mgr_step s (s\<lparr>func := TPublished, loop_set := True\<rparr>)"
| enter: "func s = TPublished \<Longrightarrow> loop_obj s = Some e \<Longrightarrow>
    mgr_step s (s\<lparr>func := TLooping, loop_obj := Some (e\<lparr>looping := True, quit := False\<rparr>)\<rparr>)"
| iterate: "func s = TLooping \<Longrightarrow> loop_obj s = Some e \<Longrightarrow> \<not> quit e \<Longrightarrow> mgr_step s s"
| leave: "func s = TLooping \<Longrightarrow> loop_obj s = Some e \<Longrightarrow> quit e \<Longrightarrow>
    mgr_step s (s\<lparr>func := TLeft, loop_obj := Some (e\<lparr>looping := False\<rparr>)\<rparr>)"
| clear: "func s = TLeft \<Longrightarrow> mgr_step s (s\<lparr>func := TEnded, loop_set := False, loop_obj := None\<rparr>)"

text \<open>The application may quit the loop too, from a callback or from any thread that holds its address.\<close>

inductive app_quit :: "manager \<Rightarrow> manager \<Rightarrow> bool" where
  app_quit: "loop_obj s = Some e \<Longrightarrow> callback_ran s \<Longrightarrow> app_quit s (s\<lparr>loop_obj := Some (e\<lparr>quit := True\<rparr>)\<rparr>)"

inductive mgr_reachable :: "manager \<Rightarrow> bool" where
  init: "mgr_reachable mgr_init"
| own: "mgr_reachable s \<Longrightarrow> mgr_step s s' \<Longrightarrow> mgr_reachable s'"
| app: "mgr_reachable s \<Longrightarrow> app_quit s s' \<Longrightarrow> mgr_reachable s'"

inductive_cases mgr_stepE: "mgr_step s s'"
inductive_cases app_quitE: "app_quit s s'"

section \<open>The handshake\<close>

definition mgr_inv :: "manager \<Rightarrow> bool" where
  "mgr_inv s \<longleftrightarrow>
     (loop_obj s \<noteq> None \<longleftrightarrow> func s \<notin> {TNone, TBegun, TEnded}) \<and>
     (loop_set s \<longleftrightarrow> func s \<in> {TPublished, TLooping, TLeft}) \<and>
     (callback_ran s \<longleftrightarrow> func s \<notin> {TNone, TBegun, TMade}) \<and>
     (owner s = OStart \<longleftrightarrow> func s = TNone) \<and>
     (owner s \<notin> {OStart, OWait} \<longrightarrow> func s \<in> {TPublished, TLooping, TLeft, TEnded}) \<and>
     (owner s = ODone \<longrightarrow> func s = TEnded)"

lemma mgr_reachable_inv: "mgr_reachable s \<Longrightarrow> mgr_inv s"
proof (induction rule: mgr_reachable.induct)
  case init
  then show ?case by (simp add: mgr_inv_def mgr_init_def)
next
  case (own s s')
  from own.hyps(2) own.IH show ?case
    by (cases rule: mgr_step.cases) (auto simp: mgr_inv_def)
next
  case (app s s')
  from app.hyps(2) app.IH show ?case
    by (cases rule: app_quit.cases) (auto simp: mgr_inv_def)
qed

lemma reach_step: "mgr_reachable s \<Longrightarrow> mgr_step s s' \<Longrightarrow> mgr_reachable s'"
  by (rule mgr_reachable.own)

text \<open>The states of a run in which the owner destroys the manager before the new thread reaches \<open>loop()\<close>.\<close>

definition early_quit :: manager where
  "early_quit = \<lparr>owner = OJoin, func = TLooping, loop_set = True,
     loop_obj = Some (fresh_loop\<lparr>looping := True\<rparr>), callback_ran = True\<rparr>"

definition published :: manager where
  "published = \<lparr>owner = OGot, func = TPublished, loop_set = True, loop_obj = Some fresh_loop, callback_ran = True\<rparr>"

lemma published_reachable: "mgr_reachable published"
proof -
  let ?s1 = "mgr_init\<lparr>owner := OWait, func := TBegun\<rparr>"
  let ?s2 = "?s1\<lparr>func := TMade, loop_obj := Some fresh_loop\<rparr>"
  let ?s3 = "?s2\<lparr>func := TCalled, callback_ran := True\<rparr>"
  let ?s4 = "?s3\<lparr>func := TPublished, loop_set := True\<rparr>"
  have "mgr_reachable ?s1" by (rule reach_step [OF init mgr_step.start]) (simp add: mgr_init_def)
  then have "mgr_reachable ?s2" by (rule reach_step [OF _ mgr_step.make]) simp
  then have "mgr_reachable ?s3" by (rule reach_step [OF _ mgr_step.call]) simp
  then have "mgr_reachable ?s4" by (rule reach_step [OF _ mgr_step.publish]) simp
  then have "mgr_reachable (?s4\<lparr>owner := OGot\<rparr>)" by (rule reach_step [OF _ mgr_step.got]) simp_all
  then show ?thesis by (simp add: published_def mgr_init_def)
qed

lemma early_quit_reachable: "mgr_reachable early_quit"
proof -
  let ?s1 = "published\<lparr>owner := OQuit\<rparr>"
  let ?s2 = "?s1\<lparr>owner := OJoin, loop_obj := Some (fresh_loop\<lparr>quit := True\<rparr>)\<rparr>"
  let ?s3 = "?s2\<lparr>func := TLooping, loop_obj := Some (fresh_loop\<lparr>quit := True, looping := True, quit := False\<rparr>)\<rparr>"
  have "mgr_reachable ?s1" by (rule reach_step [OF published_reachable mgr_step.destroy]) (simp_all add: published_def)
  then have "mgr_reachable ?s2"
    by (rule reach_step [OF _ mgr_step.quit_loop]) (simp_all add: published_def)
  then have "mgr_reachable ?s3"
    using reach_step [OF _ mgr_step.enter, of ?s2 "fresh_loop\<lparr>quit := True\<rparr>"] by (simp add: published_def)
  then show ?thesis by (simp add: published_def early_quit_def fresh_loop_def)
qed

section \<open>Properties\<close>

text \<open>
  C34. \<open>startLoop\<close> returns only when the new thread's loop exists or has come and gone, and only after the user's
  initialisation callback has run in the new thread; and \<open>loop_\<close> is never set while there is no loop object. In
  every interleaving of the two threads and of calls of \<open>quit\<close> by the application.
\<close>

theorem startLoop_returns_initialised:
  assumes "mgr_reachable s"
  shows "(loop_set s \<longrightarrow> loop_obj s \<noteq> None) \<and>
    (owner s \<notin> {OStart, OWait} \<longrightarrow> callback_ran s \<and> (loop_obj s \<noteq> None \<or> func s = TEnded))"
  using mgr_reachable_inv [OF assms] by (auto simp: mgr_inv_def)

theorem startLoop_returns_initialised_witness:
  "callback_ran published \<and> loop_obj published \<noteq> None"
  using startLoop_returns_initialised [OF published_reachable] by (simp add: published_def)

text \<open>
  C35. The destructor can hang for ever: if it runs after \<open>startLoop\<close> has returned but before the new thread has
  entered \<open>loop()\<close>, the first thing \<open>loop()\<close> does is to clear the \<open>quit_\<close> the destructor has set. From that
  state, no step of the two threads leads out of \<open>join\<close>.
\<close>

theorem destructor_may_hang:
  "mgr_reachable early_quit \<and> (\<forall>s'. mgr_step\<^sup>*\<^sup>* early_quit s' \<longleftrightarrow> s' = early_quit) \<and> owner early_quit = OJoin"
proof -
  have "s' = early_quit" if "mgr_step\<^sup>*\<^sup>* early_quit s'" for s'
    using that
  proof (induction rule: rtranclp_induct)
    case base
    then show ?case by simp
  next
    case (step s s')
    from step.hyps(2) step.IH show ?case
      by (cases rule: mgr_step.cases) (auto simp: early_quit_def fresh_loop_def)
  qed
  with early_quit_reachable show ?thesis by (auto simp: early_quit_def)
qed

text \<open>
  When the loop is already running, the destructor stops it: from every reachable state in which the
  destructor is about to call \<open>quit\<close> and the thread is in \<open>loop()\<close>, four steps finish the join, without a fault.
\<close>

theorem destructor_joins_running_loop:
  assumes "mgr_reachable s" and "owner s = OQuit" and "func s = TLooping"
  shows "\<exists>s'. (mgr_step ^^ 4) s s' \<and> owner s' = ODone \<and> func s' = TEnded \<and> \<not> loop_set s'"
proof -
  obtain e where e: "loop_obj s = Some e"
    using mgr_reachable_inv [OF assms(1)] assms(3) by (auto simp: mgr_inv_def)
  let ?s1 = "s\<lparr>owner := OJoin, loop_obj := Some (e\<lparr>quit := True\<rparr>)\<rparr>"
  let ?s2 = "?s1\<lparr>func := TLeft, loop_obj := Some (e\<lparr>quit := True, looping := False\<rparr>)\<rparr>"
  let ?s3 = "?s2\<lparr>func := TEnded, loop_set := False, loop_obj := None\<rparr>"
  let ?s4 = "?s3\<lparr>owner := ODone\<rparr>"
  have "mgr_step s ?s1" using assms e by (intro mgr_step.quit_loop)
  moreover have "mgr_step ?s1 ?s2"
    using mgr_step.leave [of ?s1 "e\<lparr>quit := True\<rparr>"] assms by simp
  moreover have "mgr_step ?s2 ?s3" using mgr_step.clear [of ?s2] by simp
  moreover have "mgr_step ?s3 ?s4" using mgr_step.joined [of ?s3] by simp
  ultimately have "(mgr_step ^^ 4) s ?s4"
    by (auto simp: numeral_eq_Suc intro!: relcomppI)
  then show ?thesis by (intro exI [of _ ?s4]) simp
qed

definition running :: manager where
  "running = published\<lparr>func := TLooping, loop_obj := Some (fresh_loop\<lparr>looping := True, quit := False\<rparr>), owner := OQuit\<rparr>"

lemma running_reachable: "mgr_reachable running"
proof -
  let ?s1 = "published\<lparr>func := TLooping, loop_obj := Some (fresh_loop\<lparr>looping := True, quit := False\<rparr>)\<rparr>"
  have "mgr_reachable ?s1"
    by (rule reach_step [OF published_reachable mgr_step.enter]) (simp_all add: published_def)
  then have "mgr_reachable (?s1\<lparr>owner := OQuit\<rparr>)"
    by (rule reach_step [OF _ mgr_step.destroy]) (simp_all add: published_def)
  then show ?thesis by (simp add: running_def)
qed

theorem destructor_joins_running_loop_witness:
  "\<exists>s'. (mgr_step ^^ 4) running s' \<and> owner s' = ODone"
  using destructor_joins_running_loop [OF running_reachable] by (auto simp: running_def)

text \<open>
  C36. The destructor reads \<open>loop_\<close> without the lock and then calls \<open>quit\<close> through it: if the application has
  quit the loop meanwhile, the thread may end between the two, and the call is on an object that no longer exists.
\<close>

theorem destructor_may_use_dead_loop:
  "\<exists>s. mgr_reachable s \<and> owner s = OFault UseAfterFree"
proof -
  let ?s1 = "running\<lparr>loop_obj := Some (fresh_loop\<lparr>looping := True, quit := True\<rparr>)\<rparr>"
  let ?s2 = "?s1\<lparr>func := TLeft, loop_obj := Some (fresh_loop\<lparr>looping := True, quit := True, looping := False\<rparr>)\<rparr>"
  let ?s3 = "?s2\<lparr>func := TEnded, loop_set := False, loop_obj := None\<rparr>"
  have "app_quit running ?s1"
    using app_quit.app_quit [of running "fresh_loop\<lparr>looping := True, quit := False\<rparr>"]
    by (simp add: running_def published_def)
  then have "mgr_reachable ?s1" by (rule mgr_reachable.app [OF running_reachable])
  then have "mgr_reachable ?s2"
    by (rule reach_step [OF _ mgr_step.leave]) (simp_all add: running_def published_def)
  then have "mgr_reachable ?s3" by (rule reach_step [OF _ mgr_step.clear]) simp
  then have "mgr_reachable (?s3\<lparr>owner := OFault UseAfterFree\<rparr>)"
    by (rule reach_step [OF _ mgr_step.quit_dead]) (simp_all add: running_def)
  then show ?thesis by (intro exI [of _ "?s3\<lparr>owner := OFault UseAfterFree\<rparr>"]) simp
qed

end
