(* ===== verification/ProcessFrame.thy ===== *)
theory ProcessFrame
  imports ConnectionInv
begin

text \<open>
  What the operations on connections leave alone: which connections there are, whatever the process holds beyond
  them, and in every \<open>Filed\<close> its descriptor and loop and the reported events and callbacks, which its dispatch
  reads again between two callbacks.
\<close>

definition leaves :: "('k, 'z) process_scheme \<Rightarrow> ('k, 'z) process_scheme \<Rightarrow> bool" where
  "leaves w w' \<longleftrightarrow> process.more w' = process.more w \<and> dom (conns w') = dom (conns w) \<and>
     (\<forall>q. same_callbacks (filedOf w q) (filedOf w' q))"

abbreviation stays :: "('k, 'z) process_scheme \<Rightarrow> fault + ('k, 'z) process_scheme \<Rightarrow> bool" where
  "stays w \<equiv> outcome (\<lambda>_. True) (leaves w)"

lemma leaves_refl [simp]: "leaves w w"
  by (simp add: leaves_def)

lemma leaves_trans: "leaves u v \<Longrightarrow> leaves v w \<Longrightarrow> leaves u w"
  unfolding leaves_def by (metis same_callbacks_trans)

lemma leaves_more: "leaves v w \<Longrightarrow> process.more w = process.more v"
  by (simp add: leaves_def)

lemma leaves_callbacks: "leaves v w \<Longrightarrow> same_callbacks (filedOf v q) (filedOf w q)"
  by (simp add: leaves_def)

lemma leaves_dom: "leaves v w \<Longrightarrow> dom (conns w) = dom (conns v)"
  by (simp add: leaves_def)

lemma leaves_same:
  "process.more v' = process.more v \<Longrightarrow> dom (conns v') = dom (conns v) \<Longrightarrow> filedOf v' = filedOf v \<Longrightarrow> leaves w v' \<longleftrightarrow> leaves w v"
  by (simp add: leaves_def)

lemma dom_upd_conn: "dom (conns (upd_conn c g w)) = dom (conns w)"
  by (auto simp: upd_conn_def dom_def split: if_splits)

lemma leaves_upd [simp]:
  "leaves w (upd_conn c g v) \<longleftrightarrow> leaves w v" "leaves w (upd_loop l h v) \<longleftrightarrow> leaves w v"
  "leaves w (log_line lv m v) \<longleftrightarrow> leaves w v" "leaves w (upd_epoller l e v) \<longleftrightarrow> leaves w v"
  "leaves w (setState st c v) \<longleftrightarrow> leaves w v" "leaves w (v\<lparr>kern := k\<rparr>) \<longleftrightarrow> leaves w v"
  "leaves w (v\<lparr>strings := sm\<rparr>) \<longleftrightarrow> leaves w v"
  by (rule leaves_same; auto simp: upd_conn_def upd_loop_def log_line_def upd_epoller_def setState_def dom_def
      split: if_splits)+

lemma leaves_upd_filed:
  "(\<And>f. same_callbacks f (g f)) \<Longrightarrow> leaves w v \<Longrightarrow> leaves w (upd_filed fp g v)"
  unfolding leaves_def upd_filed_def by (auto intro: same_callbacks_trans)

lemma stays_chain: "stays w r \<Longrightarrow> (\<And>v. leaves w v \<Longrightarrow> stays v (f v)) \<Longrightarrow> stays w (bindE r f)"
proof (cases r)
  case (Inr v)
  assume "stays w r" and f: "\<And>v. leaves w v \<Longrightarrow> stays v (f v)"
  with Inr have "leaves w v" by simp
  with Inr f [of v] show ?thesis by (cases "f v") (auto intro: leaves_trans)
qed simp

lemma stays_mono: "stays v r \<Longrightarrow> leaves w v \<Longrightarrow> stays w r"
  by (cases r) (auto intro: leaves_trans)

lemma updateHelper_stays: "leaves w v \<Longrightarrow> stays w (updateHelper S l op fp v)"
  by (simp add: updateHelper_def Let_def split: prod.split)

lemma index_callbacks: "same_callbacks f (setIndex i f)"
  by (simp add: same_callbacks_def setIndex_def)

lemma Epoller_update_stays: "stays w (Epoller_update S l fp w)"
  by (auto simp: Epoller_update_def Let_def
      intro!: stays_chain updateHelper_stays leaves_upd_filed [OF index_callbacks])

lemma Epoller_remove_stays: "stays w (Epoller_remove S l fp w)"
  by (auto simp: Epoller_remove_def Let_def
      intro!: stays_chain updateHelper_stays leaves_upd_filed [OF index_callbacks])

lemma set_mask_stays: "leaves w v \<Longrightarrow> stays w (set_mask S fp m v)"
  unfolding set_mask_def Filed_update_def EventLoop_update_def
  by (rule stays_mono [OF Epoller_update_stays leaves_upd_filed]) (simp_all add: same_callbacks_def)

lemma Filed_remove_stays: "stays w (Filed_remove S fp w)"
  unfolding Filed_remove_def EventLoop_remove_def by (rule Epoller_remove_stays)

lemma wakeup_leaves: "leaves w v \<Longrightarrow> leaves w (wakeup S l v)"
  by (simp add: wakeup_def Let_def split: prod.split)

lemma queueinLoop_leaves: "leaves w v \<Longrightarrow> leaves w (queueinLoop S tid l t v)"
  by (simp add: queueinLoop_def wake_after_post_def post_func_def wakeup_leaves)

lemma quit_loop_leaves: "leaves w v \<Longrightarrow> leaves w (quit_loop S tid l v)"
  by (simp add: quit_loop_def wakeup_leaves Let_def)

lemma Socket_leaves:
  "leaves w v \<Longrightarrow> leaves w (Socket_shutdownWrite S fd v)" "leaves w v \<Longrightarrow> leaves w (Socket_setopt S fd o' on v)"
  by (simp_all add: Socket_shutdownWrite_def Socket_setopt_def Let_def split: prod.split)

lemma check_high_water_leaves: "leaves w v \<Longrightarrow> leaves w (check_high_water S tid c r x v)"
  by (simp add: check_high_water_def queueinLoop_leaves Let_def split: option.split)

lemma any_outcome: "outcome (\<lambda>_. True) (\<lambda>_. True) r"
  by (simp add: outcome_def split: sum.split)

lemma sendinLoop_queue_stays: "leaves w v \<Longrightarrow> stays w (sendinLoop_queue S tid c a o' r x v)"
  unfolding sendinLoop_queue_def
  by (auto simp: Let_def set_mask_eqs check_high_water_leaves
      intro!: outcome_bind [OF any_outcome] set_mask_stays)

lemma sendinLoop_stays: "stays w (sendinLoop S tid c a len w)"
proof -
  have wr: "outcome (\<lambda>_. True) (\<lambda>(n, r, e, w'). leaves w w') (sendinLoop_write S tid c a len x w)" for x
    unfolding sendinLoop_write_def
    by (cases "read_string a 0 len w") (simp_all add: Let_def queueinLoop_leaves split: prod.split option.split)
  have "stays w (bindE (if \<not> isWriting (filedOf w (conn_filed x)) \<and> readableBytes (outputBuffer x) = 0
       then sendinLoop_write S tid c a len x w else Inr (0, len, False, w))
       (\<lambda>(nwrote, remaining, faultError, w).
         if \<not> faultError \<and> remaining > 0 then sendinLoop_queue S tid c a nwrote remaining x w else Inr w))" for x
    by (rule outcome_bind [where P = "\<lambda>(n, r, e, w'). leaves w w'"])
      (use wr sendinLoop_queue_stays in auto)
  then show ?thesis by (simp add: sendinLoop_def with_conn_def split: option.split)
qed

lemma shutdownInLoop_stays: "leaves w v \<Longrightarrow> stays w (shutdownInLoop S c v)"
  by (simp add: shutdownInLoop_def with_conn_def Socket_leaves split: option.split)

lemma with_conn_stays: "(\<And>x. stays w (f x)) \<Longrightarrow> stays w (with_conn c v f)"
  by (simp add: with_conn_def split: option.split)

lemma do_api_stays: "stays w (do_api S tid x w)"
proof (cases x)
  case (ApiSend c a)
  then show ?thesis
    by (simp add: send_def with_conn_def runinLoop_def sendinLoop_stays queueinLoop_leaves Let_def split: option.split)
next
  case (ApiShutdown c)
  then show ?thesis
    by (simp add: shutdown_def with_conn_def runinLoop_def queueinLoop_leaves shutdownInLoop_stays
        split: option.split)
next
  case (ApiTakeAll c a)
  then show ?thesis by (auto intro!: with_conn_stays outcome_bind [OF any_outcome])
qed (simp_all add: with_conn_def setMessageCallback_def setWriteCompleteCallback_def setHighWaterMarkCallback_def
    queueinLoop_leaves quit_loop_leaves split: option.split)

lemma call_app_stays: "leaves w v \<Longrightarrow> stays w (call_app S app tid cb ev v)"
  by (auto simp: call_app_def split: option.split intro!: outcome_runE intro: stays_mono [OF do_api_stays])

lemma connectEstablished_stays: "stays w (connectEstablished S app tid c w)"
  unfolding connectEstablished_def set_mask_eqs
  by (intro with_conn_stays stays_chain set_mask_stays leaves_upd_filed call_app_stays)
    (simp_all add: same_callbacks_def tie_def)

lemma connectDestroyed_stays: "stays w (connectDestroyed S app tid c w)"
  unfolding connectDestroyed_def set_mask_eqs
  by (intro with_conn_stays stays_chain Filed_remove_stays)
    (auto intro!: stays_chain set_mask_stays call_app_stays)

lemma handleError_stays: "leaves w v \<Longrightarrow> stays w (handleError S c v)"
  by (auto simp: handleError_def intro!: with_conn_stays split: prod.split)

lemma handleWrite_stays: "stays w (handleWrite S tid c w)"
  unfolding handleWrite_def set_mask_eqs
proof (intro with_conn_stays)
  fix x
  have "stays w (if n > 0
      then let b = retrieve (of_int n) (outputBuffer x); v = upd_conn c (\<lambda>x. x\<lparr>outputBuffer := b\<rparr>) (w\<lparr>kern := k\<rparr>) in
        if readableBytes b = 0
        then bindE (set_mask S (conn_filed x) mask_disableWriting v) (\<lambda>w.
          let w = (case writeCompleteCallback x of
                     Some cb \<Rightarrow> queueinLoop S tid (conn_loop x) (TWriteComplete cb c) w | None \<Rightarrow> w)
          in if conn_state x = kDisconnecting then shutdownInLoop S c w else Inr w)
        else Inr (log_line ERROR ''TcpConnection::handleWrite'' v)
      else Inr (log_line ERROR ''TcpConnection fd=%d is down, no more writing'' (w\<lparr>kern := k\<rparr>)))" for n k
    by (auto simp: Let_def queueinLoop_leaves split: option.split
        intro!: stays_chain set_mask_stays shutdownInLoop_stays)
  then show "stays w (if isWriting (filedOf w (conn_filed x))
     then bindE (writeFd S (filed_fd (filedOf w (conn_filed x))) 0 (outputBuffer x) (kern w)) (\<lambda>(n, savedErrno, k').
       let w = w\<lparr>kern := k'\<rparr> in
       if n > 0
       then let b = retrieve (of_int n) (outputBuffer x); w = upd_conn c (\<lambda>x. x\<lparr>outputBuffer := b\<rparr>) w in
         if readableBytes b = 0
         then bindE (set_mask S (conn_filed x) mask_disableWriting w) (\<lambda>w.
           let w = (case writeCompleteCallback x of
                      Some cb \<Rightarrow> queueinLoop S tid (conn_loop x) (TWriteComplete cb c) w | None \<Rightarrow> w)
           in if conn_state x = kDisconnecting then shutdownInLoop S c w else Inr w)
         else Inr (log_line ERROR ''TcpConnection::handleWrite'' w)
       else Inr (log_line ERROR ''TcpConnection fd=%d is down, no more writing'' w))
     else Inr w)"
    by (auto simp: Let_def split: prod.split intro!: outcome_bind [OF any_outcome])
qed

lemma conn_task_stays: "conn_task S app tid t w = Some r \<Longrightarrow> stays w r"
  by (cases t) (auto intro: connectEstablished_stays connectDestroyed_stays sendinLoop_stays shutdownInLoop_stays call_app_stays)

end
