(* ===== verification/ThreadPool.thy ===== *)
theory ThreadPool
  imports ProcessFrame Printf
begin

text \<open>
  \<open>Thread\<close>, \<open>ThreadID\<close>, \<open>Manager\<close> and \<open>ManagerPool\<close> (\<open>src/Thread.cpp\<close>, \<open>include/ThreadID.h\<close>, \<open>src/Manager.cpp\<close>,
  \<open>src/ManagerPool.cpp\<close> and their headers): naming and starting the threads, one event loop on each, and the choice
  of the loop for the next connection. The handshake between \<open>startLoop\<close> and the new thread is in
  \<open>ManagerProtocol\<close>.
\<close>

section \<open>Threads\<close>

text \<open>\<open>ThreadID\<close>: the thread-local cache of \<open>gettid\<close>, where 0 means not yet asked.\<close>

definition cacheTid :: "int \<Rightarrow> int \<Rightarrow> int" where
  "cacheTid gettid Tid = (if Tid = 0 then gettid else Tid)"

definition ThreadID_tid :: "int \<Rightarrow> int \<Rightarrow> int" where
  "ThreadID_tid gettid Tid = (if Tid = 0 then cacheTid gettid Tid else Tid)"

record thread =
  thread_start :: bool
  thread_join :: bool
  thread_tid :: int
  thread_name :: string
  detached :: bool

text \<open>\<open>setName\<close> counts every thread, and names one only when it came without a name.\<close>

definition setName :: "int \<Rightarrow> thread \<Rightarrow> int \<times> thread" where
  "setName create_num t =
     (let num = create_num + 1
      in (num, if thread_name t = [] then t\<lparr>thread_name := c_str (snprintf 32 (''Thread'' @ fmt_d num))\<rparr> else t))"

definition mkThread :: "int \<Rightarrow> string \<Rightarrow> int \<times> thread" where
  "mkThread create_num nm =
     setName create_num \<lparr>thread_start = False, thread_join = False, thread_tid = 0, thread_name = nm, detached = False\<rparr>"

text \<open>
  \<open>start\<close> returns after the new thread has stored its id; \<open>gettid\<close> is the new thread's, whose cache is 0. \<open>join\<close> waits
  for it, and the destructor of a started thread that was not joined lets it go.
\<close>

definition Thread_start :: "int \<Rightarrow> thread \<Rightarrow> thread" where
  "Thread_start gettid t = t\<lparr>thread_start := True, thread_tid := ThreadID_tid gettid 0\<rparr>"

definition Thread_join :: "thread \<Rightarrow> thread" where
  "Thread_join t = t\<lparr>thread_join := True\<rparr>"

definition destroyThread :: "thread \<Rightarrow> thread" where
  "destroyThread t = (if thread_start t \<and> \<not> thread_join t then t\<lparr>detached := True\<rparr> else t)"

section \<open>The pool\<close>

text \<open>A \<open>Manager\<close> in the pool is its thread and the address of its loop.\<close>

record manager_pool =
  pool_start :: bool
  baseLoop :: nat
  pool_name :: string
  threads_num :: int
  nextLoop :: int
  threads :: "thread list"
  loops :: "nat list"

definition mkManagerPool :: "nat \<Rightarrow> string \<Rightarrow> manager_pool" where
  "mkManagerPool baseloop nm =
     \<lparr>pool_start = False, baseLoop = baseloop, pool_name = nm, threads_num = 0, nextLoop = 0, threads = [], loops = []\<rparr>"

definition setThread_num :: "int \<Rightarrow> manager_pool \<Rightarrow> manager_pool" where
  "setThread_num num p = p\<lparr>threads_num := num\<rparr>"

definition getNextLoop :: "manager_pool \<Rightarrow> fault + nat \<times> manager_pool" where
  "getNextLoop p =
     (if loops p \<noteq> []
      then if 0 \<le> nextLoop p \<and> nat (nextLoop p) < length (loops p)
        then let next = nextLoop p + 1
          in Inr (loops p ! nat (nextLoop p), p\<lparr>nextLoop := if int (length (loops p)) \<le> next then 0 else next\<rparr>)
        else Inl OutOfBounds
      else Inr (baseLoop p, p))"

definition getAllLoops :: "manager_pool \<Rightarrow> nat list" where
  "getAllLoops p = (if loops p = [] then [baseLoop p] else loops p)"

text \<open>
  The process with the pool. New objects get the next free address and new threads the next free id, which
  stand for what \<open>new\<close> and \<open>gettid\<close> return: something not in use.
\<close>

record 'k pooled = "'k process" +
  next_addr :: nat
  next_tid :: int
  create_num :: int
  pool :: manager_pool

definition upd_pool :: "(manager_pool \<Rightarrow> manager_pool) \<Rightarrow> ('k, 'z) pooled_scheme \<Rightarrow> ('k, 'z) pooled_scheme" where
  "upd_pool g w = w\<lparr>pool := g (pool w)\<rparr>"

text \<open>
  The name of the \<open>i\<close>-th thread, printed into a buffer 32 characters longer than the pool's name.
\<close>

definition manager_name :: "string \<Rightarrow> int \<Rightarrow> string" where
  "manager_name nm i = c_str (snprintf (length nm + 32) (c_str nm @ fmt_d i))"

text \<open>
  \<open>startLoop\<close> and the part of \<open>threadFunc\<close> before the loop runs: the new thread makes its \<open>EventLoop\<close>, calls the
  user's function in it, and publishes the address, which the starting thread waits for.
\<close>

definition startLoop ::
  "'k sys \<Rightarrow> ('k, ('z) pooled_ext) app \<Rightarrow> nat option \<Rightarrow> ('k, 'z) pooled_scheme \<Rightarrow>
     fault + nat \<times> ('k, 'z) pooled_scheme" where
  "startLoop S app cb w =
     (let tid = next_tid w; l = next_addr w; w = w\<lparr>next_tid := tid + 1, next_addr := l + 2\<rparr>
      in bindE (mkEventLoop S tid l (l + 1) w) (\<lambda>w.
         bindE (case cb of None \<Rightarrow> Inr w | Some h \<Rightarrow> call_app S app tid (Some h) (EvThreadInit l) w) (\<lambda>w.
           Inr (l, w))))"

definition start_one ::
  "'k sys \<Rightarrow> ('k, ('z) pooled_ext) app \<Rightarrow> nat option \<Rightarrow> nat \<Rightarrow> ('k, 'z) pooled_scheme \<Rightarrow>
     fault + ('k, 'z) pooled_scheme" where
  "start_one S app cb i w =
     (let (num, t) = mkThread (create_num w) (manager_name (pool_name (pool w)) (int i));
          t = Thread_start (next_tid w) t;
          w = upd_pool (\<lambda>p. p\<lparr>threads := threads p @ [t]\<rparr>) (w\<lparr>create_num := num\<rparr>)
      in bindE (startLoop S app cb w) (\<lambda>(l, w). Inr (upd_pool (\<lambda>p. p\<lparr>loops := loops p @ [l]\<rparr>) w)))"

definition ManagerPool_start ::
  "'k sys \<Rightarrow> ('k, ('z) pooled_ext) app \<Rightarrow> int \<Rightarrow> nat option \<Rightarrow> ('k, 'z) pooled_scheme \<Rightarrow>
     fault + ('k, 'z) pooled_scheme" where
  "ManagerPool_start S app tid cb w =
     (let w = upd_pool (\<lambda>p. p\<lparr>pool_start := True\<rparr>) w
      in bindE (runE (start_one S app cb) [0..<nat (threads_num (pool w))] w) (\<lambda>w.
         if threads_num (pool w) = 0 \<and> cb \<noteq> None
         then call_app S app tid cb (EvThreadInit (baseLoop (pool w))) w else Inr w))"

text \<open>
  The destructors of the pool and of its managers. A manager whose thread is still in its loop (\<open>left l\<close> is false)
  asks the loop to quit and waits for the thread; one whose thread has left it does nothing, and the thread object
  then lets its thread go. What happens while it waits is in \<open>ManagerProtocol\<close>.
\<close>

definition destroyManager ::
  "'k sys \<Rightarrow> int \<Rightarrow> (nat \<Rightarrow> bool) \<Rightarrow> nat \<Rightarrow> ('k, 'z) pooled_scheme \<Rightarrow> ('k, 'z) pooled_scheme" where
  "destroyManager S tid left i w =
     (let l = loops (pool w) ! i;
          w = (if left l then w
               else upd_pool (\<lambda>p. p\<lparr>threads := (threads p)[i := Thread_join (threads p ! i)]\<rparr>) (quit_loop S tid l w))
      in upd_pool (\<lambda>p. p\<lparr>threads := (threads p)[i := destroyThread (threads p ! i)]\<rparr>) w)"

definition destroyManagerPool ::
  "'k sys \<Rightarrow> int \<Rightarrow> (nat \<Rightarrow> bool) \<Rightarrow> ('k, 'z) pooled_scheme \<Rightarrow> ('k, 'z) pooled_scheme" where
  "destroyManagerPool S tid left w = fold (destroyManager S tid left) [0..<length (loops (pool w))] w"

text \<open>Making an event loop leaves the rest of the process alone.\<close>

lemma mkEventLoop_more: "outcome (\<lambda>_. True) (\<lambda>w'. process.more w' = process.more w) (mkEventLoop S tid l fp w)"
proof -
  have ep: "outcome (\<lambda>_. True) (\<lambda>v'. process.more v' = process.more v) (mkEpoller S l v)" for v :: "('a, 'b) process_scheme"
    by (simp add: mkEpoller_def upd_epoller_def split: prod.split)
  have er: "outcome (\<lambda>_. True) (\<lambda>v'. process.more v' = process.more v) (enableReading S q v)" for q and v :: "('a, 'b) process_scheme"
    unfolding set_mask_eqs by (rule outcome_weaken [OF set_mask_stays [OF leaves_refl]]) (rule leaves_more)
  show ?thesis
    unfolding mkEventLoop_def
    by (rule outcome_bind [OF ep], rule outcome_bind [OF any_outcome])
      (auto simp: Let_def upd_filed_def upd_loop_def intro!: outcome_weaken [OF er])
qed

section \<open>Starting the pool\<close>

lemma pooled_more:
  "process.more v = process.more w \<Longrightarrow> pool v = pool w \<and> next_addr v = next_addr w \<and> next_tid v = next_tid w \<and>
     create_num v = create_num w \<and> pooled.more v = pooled.more w" for v w :: "('k, 'z) pooled_scheme"
  by (cases v; cases w) simp

lemma startLoop_effect:
  "outcome (\<lambda>_. True) (\<lambda>(l, w'). l = next_addr w \<and> pool w' = pool w \<and> next_addr w' = next_addr w + 2 \<and>
     next_tid w' = next_tid w + 1 \<and> create_num w' = create_num w) (startLoop S app cb w)"
proof -
  let ?w = "w\<lparr>next_tid := next_tid w + 1, next_addr := next_addr w + 2\<rparr>"
  have app: "outcome (\<lambda>_. True) (\<lambda>v'. process.more v' = process.more v)
      (case cb of None \<Rightarrow> Inr v | Some h \<Rightarrow> call_app S app t (Some h) ev v)" for t ev and v :: "('a, 'b) pooled_scheme"
    by (auto split: option.split intro!: outcome_weaken [OF call_app_stays [OF leaves_refl]] leaves_more)
  have "outcome (\<lambda>_. True) (\<lambda>w'. process.more w' = process.more ?w) (bindE (mkEventLoop S (next_tid w) (next_addr w) (next_addr w + 1) ?w) (\<lambda>w'.
      case cb of None \<Rightarrow> Inr w' | Some h \<Rightarrow> call_app S app (next_tid w) (Some h) (EvThreadInit (next_addr w)) w'))"
    by (rule outcome_bind [OF mkEventLoop_more]) (rule outcome_weaken [OF app], simp)
  then show ?thesis
    unfolding startLoop_def Let_def bindE_assoc [symmetric]
    by (rule outcome_bind) (auto dest: pooled_more)
qed

lemma start_one_effect:
  "outcome (\<lambda>_. True) (\<lambda>w'. next_addr w' = next_addr w + 2 \<and> next_tid w' = next_tid w + 1 \<and>
     create_num w' = create_num w + 1 \<and>
     (\<exists>t. pool w' = (pool w)\<lparr>threads := threads (pool w) @ [t], loops := loops (pool w) @ [next_addr w]\<rparr> \<and>
        thread_tid t = next_tid w \<and> thread_start t \<and>
        thread_name t = (if manager_name (pool_name (pool w)) (int i) = [] then c_str (snprintf 32 (''Thread'' @ fmt_d (create_num w + 1)))
          else manager_name (pool_name (pool w)) (int i))))
   (start_one S app cb i w)"
proof -
  obtain num t where t: "mkThread (create_num w) (manager_name (pool_name (pool w)) (int i)) = (num, t)" by fastforce
  then have t': "num = create_num w + 1" "thread_name t = (if manager_name (pool_name (pool w)) (int i) = []
      then c_str (snprintf 32 (''Thread'' @ fmt_d (create_num w + 1))) else manager_name (pool_name (pool w)) (int i))"
    by (auto simp: mkThread_def setName_def Let_def split: if_splits)
  show ?thesis
    unfolding start_one_def t Let_def prod.case
    by (rule outcome_bind [OF startLoop_effect])
      (auto simp: upd_pool_def t' Thread_start_def ThreadID_tid_def cacheTid_def
        intro!: exI [of _ "t\<lparr>thread_start := True, thread_tid := next_tid w\<rparr>"])
qed

text \<open>The buffer is always large enough: a thread's name is never cut.\<close>

lemma manager_name_eq:
  assumes "i < 2 ^ 31"
  shows "manager_name nm (int i) = c_str nm @ fmt_d (int i)"
proof -
  have "length (c_str nm @ fmt_d (int i)) < length nm + 32"
    using length_c_str [of nm] length_fmt_d [of "int i"] assms by simp
  moreover have "CHR 0x00 \<notin> set (c_str nm @ fmt_d (int i))"
    using c_str_no_null_set fmt_d_no_null by simp
  ultimately show ?thesis by (simp add: manager_name_def snprintf_fits c_str_no_null)
qed

text \<open>What starting \<open>n\<close> threads adds: their names, their ids and the addresses of their loops.\<close>

definition started :: "nat \<Rightarrow> ('k, 'z) pooled_scheme \<Rightarrow> ('k, 'z) pooled_scheme \<Rightarrow> bool" where
  "started n w w' \<longleftrightarrow> next_addr w' = next_addr w + 2 * n \<and> next_tid w' = next_tid w + int n \<and>
     (\<exists>ts. pool w' = (pool w)\<lparr>threads := threads (pool w) @ ts,
          loops := loops (pool w) @ map (\<lambda>i. next_addr w + 2 * i) [0..<n]\<rparr> \<and>
        map thread_name ts = map (\<lambda>i. c_str (pool_name (pool w)) @ fmt_d (int i)) [0..<n] \<and>
        map thread_tid ts = map (\<lambda>i. next_tid w + int i) [0..<n])"

lemma start_many_effect:
  "n \<le> 2 ^ 31 \<Longrightarrow> outcome (\<lambda>_. True) (started n w) (runE (start_one S app cb) [0..<n] w)"
  for S :: "'a sys" and w :: "('a, 'b) pooled_scheme"
proof (induction n)
  case 0
  then show ?case by (simp add: started_def exI [of _ "[]"])
next
  case (Suc n)
  have name: "manager_name nm (int n) = c_str nm @ fmt_d (int n)" for nm
    using Suc.prems by (intro manager_name_eq) simp
  have "runE (start_one S app cb) [] = Inr" by (simp add: fun_eq_iff)
  then have run: "runE (start_one S app cb) [0..<Suc n] w = bindE (runE (start_one S app cb) [0..<n] w) (start_one S app cb n)"
    by (simp add: runE_append) (cases "runE (start_one S app cb) [0..<n] w", simp_all)
  have IH: "outcome (\<lambda>_. True) (started n w) (runE (start_one S app cb) [0..<n] w)" using Suc by simp
  show ?case
    unfolding run
  proof (rule outcome_bind [OF IH])
    fix v :: "('a, 'b) pooled_scheme"
    assume "started n w v"
    then obtain ts where v: "next_addr v = next_addr w + 2 * n" "next_tid v = next_tid w + int n"
      "pool v = (pool w)\<lparr>threads := threads (pool w) @ ts,
          loops := loops (pool w) @ map (\<lambda>i. next_addr w + 2 * i) [0..<n]\<rparr>"
      "map thread_name ts = map (\<lambda>i. c_str (pool_name (pool w)) @ fmt_d (int i)) [0..<n]"
      "map thread_tid ts = map (\<lambda>i. next_tid w + int i) [0..<n]" by (auto simp: started_def)
    show "outcome (\<lambda>_. True) (started (Suc n) w) (start_one S app cb n v)"
    proof (rule outcome_weaken [OF start_one_effect], elim conjE exE)
      fix u :: "('a, 'b) pooled_scheme" and t
      assume "next_addr u = next_addr v + 2" "next_tid u = next_tid v + 1"
        "pool u = (pool v)\<lparr>threads := threads (pool v) @ [t], loops := loops (pool v) @ [next_addr v]\<rparr>"
        "thread_tid t = next_tid v"
        "thread_name t = (if manager_name (pool_name (pool v)) (int n) = [] then c_str (snprintf 32 (''Thread'' @ fmt_d (create_num v + 1)))
          else manager_name (pool_name (pool v)) (int n))"
      with v show "started (Suc n) w u"
        by (auto simp: started_def name intro!: exI [of _ "ts @ [t]"])
    qed
  qed
qed

section \<open>Choosing a loop\<close>

text \<open>
  What the server relies on when it places a connection: the choice always succeeds, comes from a fixed list of
  loops, and keeps the invariant. The client's lemma: every one of a run of choices is in that list.
\<close>

fun choose_many :: "('p \<Rightarrow> fault + nat \<times> 'p) \<Rightarrow> nat \<Rightarrow> 'p \<Rightarrow> fault + nat list \<times> 'p" where
  "choose_many ch 0 p = Inr ([], p)"
| "choose_many ch (Suc n) p = bindE (ch p) (\<lambda>(l, p). bindE (choose_many ch n p) (\<lambda>(ls, p). Inr (l # ls, p)))"

locale loop_chooser =
  fixes inv :: "'p \<Rightarrow> bool" and targets :: "'p \<Rightarrow> nat list" and ch :: "'p \<Rightarrow> fault + nat \<times> 'p"
  assumes choose_total: "inv p \<Longrightarrow> \<exists>l p'. ch p = Inr (l, p')"
    and choose_inv: "inv p \<Longrightarrow> ch p = Inr (l, p') \<Longrightarrow> inv p'"
    and choose_target: "inv p \<Longrightarrow> ch p = Inr (l, p') \<Longrightarrow> l \<in> set (targets p)"
    and choose_keeps: "inv p \<Longrightarrow> ch p = Inr (l, p') \<Longrightarrow> targets p' = targets p"
begin

lemma choose_some:
  assumes "inv p"
  obtains l p' where "ch p = Inr (l, p')" and "inv p'" and "l \<in> set (targets p)" and "targets p' = targets p"
  using assms choose_total choose_inv choose_target choose_keeps by metis

lemma choose_many_targets:
  "inv p \<Longrightarrow> \<exists>ls p'. choose_many ch n p = Inr (ls, p') \<and> inv p' \<and> length ls = n \<and> set ls \<subseteq> set (targets p)"
proof (induction n arbitrary: p)
  case 0
  then show ?case by simp
next
  case (Suc n)
  obtain l p1 where one: "ch p = Inr (l, p1)" "inv p1" "l \<in> set (targets p)" "targets p1 = targets p"
    using choose_some [OF Suc.prems] by metis
  with Suc.IH [OF one(2)] show ?case by auto
qed

end

text \<open>The invariant of the pool: the next index is one of the loops'.\<close>

definition pool_inv :: "manager_pool \<Rightarrow> bool" where
  "pool_inv p \<longleftrightarrow> loops p = [] \<or> (0 \<le> nextLoop p \<and> nextLoop p < int (length (loops p)))"

lemma getNextLoop_step:
  assumes "pool_inv p" and "loops p \<noteq> []" and "nextLoop p = int k"
  shows "getNextLoop p = Inr (loops p ! k, p\<lparr>nextLoop := int (Suc k mod length (loops p))\<rparr>)"
proof -
  have k: "k < length (loops p)" using assms by (simp add: pool_inv_def)
  show ?thesis
  proof (cases "Suc k = length (loops p)")
    case True
    with assms k show ?thesis by (simp add: getNextLoop_def Let_def)
  next
    case False
    with k have "Suc k < length (loops p)" by simp
    with assms k show ?thesis by (simp add: getNextLoop_def Let_def)
  qed
qed

interpretation robin: loop_chooser pool_inv getAllLoops getNextLoop
proof unfold_locales
  fix p
  assume inv: "pool_inv p"
  have step: "\<exists>k < length (loops p). nextLoop p = int k \<and>
      getNextLoop p = Inr (loops p ! k, p\<lparr>nextLoop := int (Suc k mod length (loops p))\<rparr>)" if "loops p \<noteq> []"
  proof -
    have "nextLoop p = int (nat (nextLoop p))" "nat (nextLoop p) < length (loops p)"
      using inv that by (auto simp: pool_inv_def)
    with getNextLoop_step [OF inv that] show ?thesis by blast
  qed
  show "\<exists>l p'. getNextLoop p = Inr (l, p')"
    using step by (cases "loops p = []") (auto simp: getNextLoop_def)
  fix l p'
  assume ch: "getNextLoop p = Inr (l, p')"
  show "pool_inv p'" "l \<in> set (getAllLoops p)" "getAllLoops p' = getAllLoops p"
    using ch step inv by (cases "loops p = []"; auto simp: getNextLoop_def pool_inv_def getAllLoops_def)+
qed

lemma robin_many:
  assumes "loops p \<noteq> []" and "nextLoop p = int k" and "k < length (loops p)"
  shows "choose_many getNextLoop n p =
    Inr (map (\<lambda>i. loops p ! ((k + i) mod length (loops p))) [0..<n], p\<lparr>nextLoop := int ((k + n) mod length (loops p))\<rparr>)"
  using assms
proof (induction n arbitrary: p k)
  case 0
  then show ?case by simp
next
  case (Suc n)
  let ?m = "length (loops p)" and ?p = "p\<lparr>nextLoop := int (Suc k mod length (loops p))\<rparr>"
  have inv: "pool_inv p" using Suc.prems by (simp add: pool_inv_def)
  have "Suc k mod ?m < ?m" using Suc.prems by simp
  with Suc.IH [of ?p "Suc k mod ?m"] Suc.prems(1) have rest: "choose_many getNextLoop n ?p =
      Inr (map (\<lambda>i. loops p ! ((Suc k mod ?m + i) mod ?m)) [0..<n], p\<lparr>nextLoop := int ((Suc k mod ?m + n) mod ?m)\<rparr>)"
    by simp
  have shift: "map (\<lambda>i. loops p ! ((k + i) mod ?m)) [0..<Suc n] =
      loops p ! k # map (\<lambda>i. loops p ! ((Suc k mod ?m + i) mod ?m)) [0..<n]"
    using Suc.prems(3) by (simp add: upt_conv_Cons map_Suc_upt [symmetric] mod_add_left_eq del: upt_Suc)
  have "(Suc k mod ?m + n) mod ?m = (k + Suc n) mod ?m" by (simp add: mod_add_left_eq)
  with rest shift getNextLoop_step [OF inv Suc.prems(1,2)] show ?case by (simp del: upt_Suc)
qed

lemma choose_many_add:
  "choose_many ch (m + n) p = bindE (choose_many ch m p) (\<lambda>(ls, p). bindE (choose_many ch n p) (\<lambda>(ks, p). Inr (ls @ ks, p)))"
proof (induction m arbitrary: p)
  case 0
  then show ?case by (cases "choose_many ch n p") auto
next
  case (Suc m)
  show ?case
  proof (cases "ch p")
    case (Inr r)
    obtain l p1 where r: "r = (l, p1)" by fastforce
    show ?thesis
    proof (cases "choose_many ch m p1")
      case (Inr q)
      obtain ls p2 where q: "q = (ls, p2)" by fastforce
      show ?thesis
        using \<open>ch p = Inr r\<close> Inr r q by (cases "choose_many ch n p2") (auto simp: Suc.IH)
    qed (use Inr r in \<open>simp add: Suc.IH\<close>)
  qed simp
qed

text \<open>One full round of choices is the list of loops, rotated to where it starts.\<close>

lemma robin_round:
  assumes "loops p \<noteq> []" and "nextLoop p = int k" and "k < length (loops p)"
  shows "choose_many getNextLoop (length (loops p)) p = Inr (rotate k (loops p), p)"
proof -
  have "map (\<lambda>i. loops p ! ((k + i) mod length (loops p))) [0..<length (loops p)] = rotate k (loops p)"
    by (intro nth_equalityI) (simp_all add: nth_rotate)
  moreover have "p\<lparr>nextLoop := int ((k + length (loops p)) mod length (loops p))\<rparr> = p"
    using assms(2,3) by simp
  ultimately show ?thesis using robin_many [OF assms] by simp
qed

lemma count_list_rotate: "count_list (rotate k xs) x = count_list xs x"
proof -
  have "count_list (take j xs) x + count_list (drop j xs) x = count_list xs x" for j
    by (metis append_take_drop_id count_list_append)
  then show ?thesis by (simp add: rotate_drop_take count_list_append add.commute)
qed

section \<open>Properties\<close>

text \<open>
  C32. Round robin: the choice of a loop never reads out of range; \<open>n\<close> choices in a row return the pool's loops in
  cyclic order from where the pool stands, the \<open>i\<close>-th being the loop \<open>i\<close> places further, and leave it \<open>n\<close> places
  further; and they are fair: after \<open>q\<close> full rounds every loop has been chosen exactly \<open>q\<close> times for each of its
  places in the list, and the pool is back where it was.
\<close>

theorem round_robin_fair:
  assumes "pool_inv p" and "loops p \<noteq> []"
  shows "choose_many getNextLoop n p =
      Inr (map (\<lambda>i. loops p ! ((nat (nextLoop p) + i) mod length (loops p))) [0..<n],
           p\<lparr>nextLoop := int ((nat (nextLoop p) + n) mod length (loops p))\<rparr>) \<and>
    (\<exists>ls. choose_many getNextLoop (q * length (loops p)) p = Inr (ls, p) \<and>
      (\<forall>l. count_list ls l = q * count_list (loops p) l))"
proof (intro conjI)
  have k: "nextLoop p = int (nat (nextLoop p))" "nat (nextLoop p) < length (loops p)"
    using assms by (auto simp: pool_inv_def)
  show "choose_many getNextLoop n p =
      Inr (map (\<lambda>i. loops p ! ((nat (nextLoop p) + i) mod length (loops p))) [0..<n],
           p\<lparr>nextLoop := int ((nat (nextLoop p) + n) mod length (loops p))\<rparr>)"
    by (rule robin_many [OF assms(2) k])
  show "\<exists>ls. choose_many getNextLoop (q * length (loops p)) p = Inr (ls, p) \<and>
      (\<forall>l. count_list ls l = q * count_list (loops p) l)"
  proof (induction q)
    case 0
    then show ?case by simp
  next
    case (Suc q)
    then obtain ls where ls: "choose_many getNextLoop (q * length (loops p)) p = Inr (ls, p)"
      "\<forall>l. count_list ls l = q * count_list (loops p) l" by blast
    then show ?case
      using robin_round [OF assms(2) k]
      by (simp add: choose_many_add count_list_append count_list_rotate)
  qed
qed

definition demo_pool :: manager_pool where
  "demo_pool = (mkManagerPool 0 ''p'')\<lparr>loops := [10, 20, 30], nextLoop := 2\<rparr>"

theorem round_robin_fair_witness:
  "choose_many getNextLoop 4 demo_pool = Inr ([30, 10, 20, 30], demo_pool\<lparr>nextLoop := 0\<rparr>)"
  using round_robin_fair [of demo_pool 4] by (simp add: demo_pool_def mkManagerPool_def pool_inv_def upt_rec)

text \<open>
  C33. Starting the pool makes exactly \<open>threads_num_\<close> loops and threads: the loops are pairwise different, every
  thread has its own id, the \<open>i\<close>-th is named by the pool's name followed by \<open>i\<close> without being cut, so no two
  names are equal, and the choice of a loop starts in range.
\<close>

theorem pool_starts_threads:
  assumes "ManagerPool_start S app tid cb w = Inr w'" and "pool w = setThread_num (int n) (mkManagerPool b nm)"
    and "n < 2 ^ 31"
  shows "pool_start (pool w') \<and> pool_inv (pool w') \<and> length (loops (pool w')) = n \<and> distinct (loops (pool w')) \<and>
    map thread_name (threads (pool w')) = map (\<lambda>i. c_str nm @ fmt_d (int i)) [0..<n] \<and>
    distinct (map thread_name (threads (pool w'))) \<and> distinct (map thread_tid (threads (pool w')))"
proof -
  let ?w = "upd_pool (\<lambda>p. p\<lparr>pool_start := True\<rparr>) w"
  have p0: "pool ?w = (pool w)\<lparr>pool_start := True\<rparr>" by (simp add: upd_pool_def)
  have num: "threads_num (pool ?w) = int n" using p0 assms(2) by (simp add: setThread_num_def)
  with assms(1) obtain v where v: "runE (start_one S app cb) [0..<n] ?w = Inr v"
    and v': "(if threads_num (pool v) = 0 \<and> cb \<noteq> None then call_app S app tid cb (EvThreadInit (baseLoop (pool v))) v else Inr v) = Inr w'"
    by (auto simp: ManagerPool_start_def Let_def bind_simps)
  have "pool w' = pool v"
    using v' outcomeD [OF call_app_stays [OF leaves_refl]] leaves_more pooled_more
    by (metis (no_types, lifting) Inr_inject)
  moreover have "started n ?w v"
    using assms(3) by (intro outcomeD [OF start_many_effect v]) simp
  then obtain ts where "pool v = (pool ?w)\<lparr>threads := threads (pool ?w) @ ts,
        loops := loops (pool ?w) @ map (\<lambda>i. next_addr ?w + 2 * i) [0..<n]\<rparr>"
    "map thread_name ts = map (\<lambda>i. c_str (pool_name (pool ?w)) @ fmt_d (int i)) [0..<n]"
    "map thread_tid ts = map (\<lambda>i. next_tid ?w + int i) [0..<n]" by (auto simp: started_def)
  ultimately show ?thesis
    using p0 assms(2)
    by (auto simp: setThread_num_def mkManagerPool_def pool_inv_def distinct_map inj_on_def)
qed

definition demo_pooled :: "ksim pooled" where
  "demo_pooled = \<lparr>kern = ksim0, logs = [], filedOf = (\<lambda>_. mkFiled 0 7),
     epollerOf = (\<lambda>_. \<lparr>eventList = [], fileds = Map.empty, epollfd = 0, ownerLoop = 0\<rparr>),
     loopOf = (\<lambda>_. \<lparr>looping = False, quit = False, threadId = 1, epollReturnTime = 0, wakeupFd = 4,
       wakeupFiled = 0, activeFileds = [], isCallPendFunc = False, pendFuncs = []\<rparr>),
     loopInThread = (\<lambda>_. None)(1 \<mapsto> 0), conns = (\<lambda>_. None), strings = (\<lambda>_. None),
     next_addr = 100, next_tid = 2, create_num = 0, pool = setThread_num (int 2) (mkManagerPool 0 ''io'')\<rparr>"

lemma demo_pooled_starts: "\<exists>w'. ManagerPool_start sim_sys (\<lambda>_ _ _. []) 1 None demo_pooled = Inr w'"
  by (simp add: ManagerPool_start_def demo_pooled_def upd_pool_def setThread_num_def mkManagerPool_def
      start_one_def startLoop_def mkThread_def setName_def mkEventLoop_def mkEpoller_def createEventfd_def
      sim_sys_def sim_fresh_def ksim0_def Let_def upd_filed_def upd_loop_def upd_epoller_def mkFiled_def
      Thread_start_def ThreadID_tid_def cacheTid_def setReadCallback_def enableReading_def Filed_update_def EventLoop_update_def Epoller_update_def
      kNew_def updateHelper_def setIndex_def sim_epoll_ctl_def upt_rec)

theorem pool_starts_threads_witness:
  "\<exists>w'. ManagerPool_start sim_sys (\<lambda>_ _ _. []) 1 None demo_pooled = Inr w' \<and> length (loops (pool w')) = 2"
proof -
  obtain w' where w': "ManagerPool_start sim_sys (\<lambda>_ _ _. []) 1 None demo_pooled = Inr w'"
    using demo_pooled_starts by blast
  have "pool demo_pooled = setThread_num (int 2) (mkManagerPool 0 ''io'')" by (simp add: demo_pooled_def)
  from pool_starts_threads [OF w' this] w' show ?thesis by simp
qed

end
