(* ===== verification/Server.thy ===== *)
theory Server
  imports ThreadPool Address
begin

text \<open>
  \<open>Acceptor\<close> (\<open>src/Acceptor.cpp\<close>) and \<open>Server\<close> (\<open>src/Server.cpp\<close>, with their headers): the listening socket, and
  the server that turns accepted descriptors into named connections on the pool's loops and takes closed ones
  out again. A process has one server. \<open>server_task\<close> and \<open>server_handler\<close> are the meaning of everything the library
  queues on a loop or binds to a \<open>Filed\<close>.
\<close>

section \<open>State\<close>

record acceptor =
  is_listen :: bool
  acceptSocket :: int
  acceptFiled :: nat
  acceptLoop :: nat
  newConnectionCallback :: bool

datatype server_option = kNoReusePort | kReusePort

record server =
  srv_loop :: nat
  ipPort :: string
  srv_name :: string
  started_count :: u32
  nextConnId :: int
  srv_connectionCallback :: "nat option"
  srv_messageCallback :: "nat option"
  srv_writeCompleteCallback :: "nat option"
  threadInitCallback :: "nat option"
  connections :: "string \<Rightarrow> nat option"

record 'k served = "'k pooled" +
  the_acceptor :: acceptor
  the_server :: server

definition upd_acceptor :: "(acceptor \<Rightarrow> acceptor) \<Rightarrow> ('k, 'z) served_scheme \<Rightarrow> ('k, 'z) served_scheme" where
  "upd_acceptor g w = w\<lparr>the_acceptor := g (the_acceptor w)\<rparr>"

definition upd_server :: "(server \<Rightarrow> server) \<Rightarrow> ('k, 'z) served_scheme \<Rightarrow> ('k, 'z) served_scheme" where
  "upd_server g w = w\<lparr>the_server := g (the_server w)\<rparr>"

type_synonym ('k, 'z) server_app = "('k, ('z served_ext) pooled_ext) app"

section \<open>Connections of the server\<close>

text \<open>The name of a connection; the buffer for its second half has 64 characters.\<close>

definition conn_name_of :: "server \<Rightarrow> string" where
  "conn_name_of s =
     srv_name s @ c_str (snprintf 64 (CHR ''-'' # c_str (ipPort s) @ CHR ''#'' # fmt_d (nextConnId s)))"

text \<open>
  \<open>newConnection\<close> in two steps: everything up to the callbacks, which gives the loop and the address of the new
  connection, and the call that establishes it. \<open>++nextConnId_\<close> is undefined at the largest \<open>int\<close>.
\<close>

definition newConnection_object ::
  "'k sys \<Rightarrow> int \<Rightarrow> sockaddr \<Rightarrow> ('k, 'z) served_scheme \<Rightarrow> fault + nat \<times> nat \<times> ('k, 'z) served_scheme" where
  "newConnection_object S sockfd peer w =
     bindE (getNextLoop (pool w)) (\<lambda>(ioLoop, p).
       let w = upd_pool (\<lambda>_. p) w; nm = conn_name_of (the_server w) in
       if nextConnId (the_server w) = 2147483647 then Inl SignedOverflow
       else let w = upd_server (\<lambda>s. s\<lparr>nextConnId := nextConnId s + 1\<rparr>) w;
                (r, a, k') = sys_getsockname S sockfd (kern w);
                w = w\<lparr>kern := k'\<rparr>;
                (local, w) = (if r < 0
                  then (\<lparr>sin_family = 0, sin_port = 0, sin_addr = 0\<rparr>, log_line ERROR ''sockets::getLocalAddr'' w)
                  else (a, w));
                c = next_addr w;
                w = w\<lparr>next_addr := c + 2\<rparr>
            in bindE (mkConnection S c (c + 1) (Some ioLoop) nm sockfd local peer w) (\<lambda>w.
               let w = upd_server (\<lambda>s. s\<lparr>connections := (connections s)(nm \<mapsto> c)\<rparr>) w;
                   w = setConnectionCallback (srv_connectionCallback (the_server w)) c w;
                   w = setMessageCallback (srv_messageCallback (the_server w)) c w;
                   w = setWriteCompleteCallback (srv_writeCompleteCallback (the_server w)) c w;
                   w = setConnCloseCallback (Some 0) c w
               in Inr (ioLoop, c, w)))"

definition newConnection ::
  "'k sys \<Rightarrow> ('k, 'z) server_app \<Rightarrow> int \<Rightarrow> int \<Rightarrow> sockaddr \<Rightarrow> ('k, 'z) served_scheme \<Rightarrow>
     fault + ('k, 'z) served_scheme" where
  "newConnection S app tid sockfd peer w =
     bindE (newConnection_object S sockfd peer w) (\<lambda>(ioLoop, c, w).
       runinLoop S tid ioLoop (TConnectEstablished c) (connectEstablished S app tid c) w)"

definition removeConnectionInLoop ::
  "'k sys \<Rightarrow> int \<Rightarrow> nat \<Rightarrow> ('k, 'z) served_scheme \<Rightarrow> fault + ('k, 'z) served_scheme" where
  "removeConnectionInLoop S tid c w =
     with_conn c w (\<lambda>x.
       let w = upd_server (\<lambda>s. s\<lparr>connections := (connections s)(conn_name x := None)\<rparr>) w
       in Inr (queueinLoop S tid (conn_loop x) (TConnectDestroyed c) w))"

text \<open>The closure in every connection's \<open>closeCallback_\<close>; there is one server, so the handle says nothing more.\<close>

definition removeConnection ::
  "'k sys \<Rightarrow> int \<Rightarrow> nat \<Rightarrow> nat \<Rightarrow> ('k, 'z) served_scheme \<Rightarrow> fault + ('k, 'z) served_scheme" where
  "removeConnection S tid h c w =
     runinLoop S tid (srv_loop (the_server w)) (TRemoveConnection c) (removeConnectionInLoop S tid c) w"

section \<open>Acceptor\<close>

definition createNonblockFd :: "'k sys \<Rightarrow> 'k \<Rightarrow> fault + int \<times> 'k" where
  "createNonblockFd S k = (let (fd, k') = sys_socket S k in if fd < 0 then Inl ExitFailure else Inr (fd, k'))"

definition mkAcceptor ::
  "'k sys \<Rightarrow> nat \<Rightarrow> nat \<Rightarrow> sockaddr \<Rightarrow> bool \<Rightarrow> ('k, 'z) served_scheme \<Rightarrow> fault + ('k, 'z) served_scheme" where
  "mkAcceptor S fp loop listenAddr reuseport w =
     bindE (createNonblockFd S (kern w)) (\<lambda>(fd, k').
       let w = upd_filed fp (\<lambda>_. mkFiled loop fd) (w\<lparr>kern := k'\<rparr>);
           w = upd_acceptor (\<lambda>_. \<lparr>is_listen = False, acceptSocket = fd, acceptFiled = fp, acceptLoop = loop,
                 newConnectionCallback = False\<rparr>) w;
           w = setReuseAddr S fd True w;
           w = setReusePort S fd True w
       in bindE (Socket_bindAddress S fd listenAddr w) (\<lambda>w.
            Inr (upd_filed fp (setReadCallback HAcceptRead) w)))"

definition destroyAcceptor :: "'k sys \<Rightarrow> ('k, 'z) served_scheme \<Rightarrow> fault + ('k, 'z) served_scheme" where
  "destroyAcceptor S w =
     bindE (disableAll S (acceptFiled (the_acceptor w)) w) (\<lambda>w.
     bindE (Filed_remove S (acceptFiled (the_acceptor w)) w) (\<lambda>w.
       Inr (Socket_destroy S (acceptSocket (the_acceptor w)) w)))"

definition setNewConnectionCallback :: "('k, 'z) served_scheme \<Rightarrow> ('k, 'z) served_scheme" where
  "setNewConnectionCallback w = upd_acceptor (\<lambda>a. a\<lparr>newConnectionCallback := True\<rparr>) w"

definition Acceptor_listen :: "'k sys \<Rightarrow> ('k, 'z) served_scheme \<Rightarrow> fault + ('k, 'z) served_scheme" where
  "Acceptor_listen S w =
     bindE (Socket_listen S (acceptSocket (the_acceptor w)) (upd_acceptor (\<lambda>a. a\<lparr>is_listen := True\<rparr>) w)) (\<lambda>w.
       enableReading S (acceptFiled (the_acceptor w)) w)"

text \<open>The peer's address starts as the default \<open>Address\<close>: port 0 of \<open>127.0.0.1\<close>, whose \<open>inet_addr\<close> this is.\<close>

definition default_address :: sockaddr where
  "default_address = mkAddress (\<lambda>_. 0x0100007F) 0 ''127.0.0.1''"

definition Acceptor_handleRead ::
  "'k sys \<Rightarrow> ('k, 'z) server_app \<Rightarrow> int \<Rightarrow> ('k, 'z) served_scheme \<Rightarrow> fault + ('k, 'z) served_scheme" where
  "Acceptor_handleRead S app tid w =
     (let (connfd, peer, w) = Socket_accept S (acceptSocket (the_acceptor w)) default_address w
      in if 0 \<le> connfd
         then if newConnectionCallback (the_acceptor w) then newConnection S app tid connfd peer w
           else Inr (w\<lparr>kern := sys_close S connfd (kern w)\<rparr>)
         else let w' = log_line ERROR ''%s:%s:%d accept err:%d'' w
           in Inr (if sys_errno S (kern w) = EMFILE then log_line ERROR ''%s:%s:%d sockfd reached limit'' w' else w'))"

section \<open>Server\<close>

definition CheckLoopNotNull :: "nat option \<Rightarrow> fault + nat" where
  "CheckLoopNotNull loop = (case loop of None \<Rightarrow> Inl ExitFailure | Some l \<Rightarrow> Inr l)"

definition mkServer ::
  "'k sys \<Rightarrow> nat option \<Rightarrow> sockaddr \<Rightarrow> string \<Rightarrow> server_option \<Rightarrow> ('k, 'z) served_scheme \<Rightarrow>
     fault + ('k, 'z) served_scheme" where
  "mkServer S loop listenAddr nameArg opt w =
     bindE (CheckLoopNotNull loop) (\<lambda>l.
     bindE (toIpPort listenAddr) (\<lambda>s.
       let fp = next_addr w;
           w = upd_server (\<lambda>_. \<lparr>srv_loop = l, ipPort = s, srv_name = nameArg, started_count = 0, nextConnId = 1,
                 srv_connectionCallback = None, srv_messageCallback = None, srv_writeCompleteCallback = None,
                 threadInitCallback = None, connections = Map.empty\<rparr>) (w\<lparr>next_addr := fp + 1\<rparr>)
       in bindE (mkAcceptor S fp l listenAddr (opt = kReusePort) w) (\<lambda>w.
            Inr (setNewConnectionCallback (upd_pool (\<lambda>_. mkManagerPool l nameArg) w)))))"

definition setThreadNum :: "int \<Rightarrow> ('k, 'z) served_scheme \<Rightarrow> ('k, 'z) served_scheme" where
  "setThreadNum n w = upd_pool (setThread_num n) w"

definition Server_setThreadInitCallback :: "nat option \<Rightarrow> ('k, 'z) served_scheme \<Rightarrow> ('k, 'z) served_scheme" where
  "Server_setThreadInitCallback cb w = upd_server (\<lambda>s. s\<lparr>threadInitCallback := cb\<rparr>) w"

definition Server_setConnectionCallback :: "nat option \<Rightarrow> ('k, 'z) served_scheme \<Rightarrow> ('k, 'z) served_scheme" where
  "Server_setConnectionCallback cb w = upd_server (\<lambda>s. s\<lparr>srv_connectionCallback := cb\<rparr>) w"

definition Server_setMessageCallback :: "nat option \<Rightarrow> ('k, 'z) served_scheme \<Rightarrow> ('k, 'z) served_scheme" where
  "Server_setMessageCallback cb w = upd_server (\<lambda>s. s\<lparr>srv_messageCallback := cb\<rparr>) w"

definition Server_setWriteCompleteCallback :: "nat option \<Rightarrow> ('k, 'z) served_scheme \<Rightarrow> ('k, 'z) served_scheme" where
  "Server_setWriteCompleteCallback cb w = upd_server (\<lambda>s. s\<lparr>srv_writeCompleteCallback := cb\<rparr>) w"

text \<open>\<open>start\<close>: \<open>started_\<close> is an \<open>atomic_int\<close>, whose increment wraps.\<close>

definition Server_start ::
  "'k sys \<Rightarrow> ('k, 'z) server_app \<Rightarrow> int \<Rightarrow> ('k, 'z) served_scheme \<Rightarrow> fault + ('k, 'z) served_scheme" where
  "Server_start S app tid w =
     (let before = started_count (the_server w); w = upd_server (\<lambda>s. s\<lparr>started_count := started_count s + 1\<rparr>) w
      in if before = 0
         then bindE (ManagerPool_start S app tid (threadInitCallback (the_server w)) w) (\<lambda>w.
                runinLoop S tid (srv_loop (the_server w)) TListen (Acceptor_listen S) w)
         else Inr w)"

text \<open>
  The destructor: each connection in the map is released from it (the pointer in the entry is reset, which is the
  entry gone) and destroyed in its loop, in the order in which the hash map is walked, which \<open>order\<close> gives; the
  members go in reverse order of declaration, the pool before the acceptor.
\<close>

definition release_one ::
  "'k sys \<Rightarrow> ('k, 'z) server_app \<Rightarrow> int \<Rightarrow> string \<Rightarrow> ('k, 'z) served_scheme \<Rightarrow> fault + ('k, 'z) served_scheme" where
  "release_one S app tid nm w =
     (case connections (the_server w) nm of
        None \<Rightarrow> Inr w
      | Some c \<Rightarrow> with_conn c w (\<lambda>x.
          runinLoop S tid (conn_loop x) (TConnectDestroyed c) (connectDestroyed S app tid c)
            (upd_server (\<lambda>s. s\<lparr>connections := (connections s)(nm := None)\<rparr>) w)))"

definition destroyServer ::
  "'k sys \<Rightarrow> ('k, 'z) server_app \<Rightarrow> int \<Rightarrow> string list \<Rightarrow> (nat \<Rightarrow> bool) \<Rightarrow> ('k, 'z) served_scheme \<Rightarrow>
     fault + ('k, 'z) served_scheme" where
  "destroyServer S app tid order left w =
     bindE (runE (release_one S app tid) order w) (\<lambda>w. destroyAcceptor S (destroyManagerPool S tid left w))"

section \<open>Everything that runs on a loop\<close>

definition server_task ::
  "'k sys \<Rightarrow> ('k, 'z) server_app \<Rightarrow> int \<Rightarrow> task \<Rightarrow> ('k, 'z) served_scheme \<Rightarrow> fault + ('k, 'z) served_scheme" where
  "server_task S app tid t w =
     (case conn_task S app tid t w of
        Some r \<Rightarrow> r
      | None \<Rightarrow> (case t of TRemoveConnection c \<Rightarrow> removeConnectionInLoop S tid c w | _ \<Rightarrow> Acceptor_listen S w))"

definition server_handler ::
  "'k sys \<Rightarrow> ('k, 'z) server_app \<Rightarrow> int \<Rightarrow> int \<Rightarrow> handler \<Rightarrow> ('k, 'z) served_scheme \<Rightarrow> fault + ('k, 'z) served_scheme" where
  "server_handler S app tid now h w =
     (case conn_handler S app (removeConnection S) tid now h w of
        Some r \<Rightarrow> r
      | None \<Rightarrow> (case h of HWakeupRead l \<Rightarrow> Inr (handelwakeupRead S l w) | _ \<Rightarrow> Acceptor_handleRead S app tid w))"

text \<open>A thread's \<open>loop()\<close>, with the tie of a \<open>Filed\<close> alive while its connection exists.\<close>

definition run_loop ::
  "'k sys \<Rightarrow> ('k, 'z) server_app \<Rightarrow> int \<Rightarrow> nat \<Rightarrow> ('k, 'z) served_scheme \<Rightarrow> (fault + ('k, 'z) served_scheme) option" where
  "run_loop S app tid l w =
     EventLoop_loop S (server_handler S app tid) (server_task S app tid) find_filed (\<lambda>w c. conns w c \<noteq> None) l w"

end
