(* ===== verification/ServerInv.thy ===== *)
theory ServerInv
  imports Server
begin

text \<open>
  The server on top of the connections: the contract its \<open>closeCallback_\<close> owes them, the names of connections, the
  invariant of the server and that everything that runs on a loop keeps it, and the dispatch of events to the
  real handlers.
\<close>

section \<open>The closing contract\<close>

lemma upd_server_frame [simp]:
  "same_objects itst w (upd_server g v) \<longleftrightarrow> same_objects itst w v" "conns (upd_server g v) = conns v"
  "filedOf (upd_server g v) = filedOf v" "loopOf (upd_server g v) = loopOf v" "kern (upd_server g v) = kern v"
  by (simp_all add: same_objects_def upd_server_def)

lemma removeConnectionInLoop_keeps:
  assumes law: "io_laws S itst" and good: "good itst L live w0 w"
  shows "keeps itst L live w0 (removeConnectionInLoop S tid c w)"
proof -
  have "good itst L live w0 (upd_server g w)" for g
    by (rule good_frame [OF good]) simp_all
  then show ?thesis
    by (simp add: removeConnectionInLoop_def with_conn_def queue_keeps [OF law] Let_def split: option.split)
qed

lemma removeConnection_keeps:
  assumes law: "io_laws S itst" and good: "good itst L live w0 w"
  shows "keeps itst L live w0 (removeConnection S tid h c w)"
  unfolding removeConnection_def
  by (rule runinLoop_keeps [OF law good]) (rule removeConnectionInLoop_keeps [OF law good])

interpretation srv: connection_owner S itst L live "removeConnection S"
  for S :: "'k sys" and itst L live
  by unfold_locales (rule removeConnection_keeps)

section \<open>What runs on a loop leaves alone\<close>

text \<open>
  \<open>srv_leaves\<close>: the pool, the acceptor and the free addresses are the same, connections can only have been taken out
  of the server's map, there are the same connection objects, and no \<open>Filed\<close> has other callbacks.
\<close>

definition srv_leaves :: "('k, 'z) served_scheme \<Rightarrow> ('k, 'z) served_scheme \<Rightarrow> bool" where
  "srv_leaves w w' \<longleftrightarrow> pool w' = pool w \<and> next_addr w' = next_addr w \<and> the_acceptor w' = the_acceptor w \<and>
     (\<exists>m. m \<subseteq>\<^sub>m connections (the_server w) \<and> the_server w' = (the_server w)\<lparr>connections := m\<rparr>) \<and>
     dom (conns w') = dom (conns w) \<and> (\<forall>q. same_callbacks (filedOf w q) (filedOf w' q))"

lemma srv_leaves_refl [simp]: "srv_leaves w w"
  by (auto simp: srv_leaves_def intro: exI [of _ "connections (the_server w)"])

lemma srv_leaves_trans: "srv_leaves u v \<Longrightarrow> srv_leaves v w \<Longrightarrow> srv_leaves u w"
  unfolding srv_leaves_def
  by (elim conjE exE, intro conjI) (auto intro: same_callbacks_trans map_le_trans)

lemma served_more:
  "process.more v = process.more w \<Longrightarrow> pool v = pool w \<and> next_addr v = next_addr w \<and>
     the_acceptor v = the_acceptor w \<and> the_server v = the_server w" for v w :: "('k, 'z) served_scheme"
  by (cases v; cases w) simp

lemma leaves_srv: "leaves w w' \<Longrightarrow> srv_leaves w w'"
  using served_more [of w' w] unfolding leaves_def srv_leaves_def
  by (auto intro!: exI [of _ "connections (the_server w)"])

abbreviation srv_stays :: "('k, 'z) served_scheme \<Rightarrow> fault + ('k, 'z) served_scheme \<Rightarrow> bool" where
  "srv_stays w \<equiv> outcome (\<lambda>_. True) (srv_leaves w)"

lemma stays_srv: "stays w r \<Longrightarrow> srv_stays w r"
  by (rule outcome_weaken, assumption, rule leaves_srv)

lemma srv_stays_chain: "srv_stays w r \<Longrightarrow> (\<And>v. srv_leaves w v \<Longrightarrow> srv_stays v (f v)) \<Longrightarrow> srv_stays w (bindE r f)"
proof (cases r)
  case (Inr v)
  assume "srv_stays w r" and f: "\<And>v. srv_leaves w v \<Longrightarrow> srv_stays v (f v)"
  with Inr have "srv_leaves w v" by simp
  with Inr f [of v] show ?thesis by (cases "f v") (auto intro: srv_leaves_trans)
qed simp

lemma srv_stays_mono: "srv_stays v r \<Longrightarrow> srv_leaves w v \<Longrightarrow> srv_stays w r"
  by (cases r) (auto intro: srv_leaves_trans)

lemma removeConnectionInLoop_stays: "srv_stays w (removeConnectionInLoop S tid c w)"
proof -
  have er: "srv_leaves w (upd_server (\<lambda>s. s\<lparr>connections := (connections s)(nm := None)\<rparr>) w)" for nm
    by (auto simp: srv_leaves_def upd_server_def map_le_def split: if_splits
        intro!: exI [of _ "(connections (the_server w))(nm := None)"])
  show ?thesis
    by (auto simp: removeConnectionInLoop_def with_conn_def Let_def split: option.split
        intro!: srv_leaves_trans [OF er leaves_srv [OF queueinLoop_leaves [OF leaves_refl]]])
qed

lemma removeConnection_stays: "srv_stays w (removeConnection S tid h c w)"
  by (auto simp: removeConnection_def runinLoop_def removeConnectionInLoop_stays
      intro!: leaves_srv queueinLoop_leaves)

lemma handleClose_stays: "srv_stays w (handleClose S app (removeConnection S) tid c w)"
proof -
  have "srv_stays v (with_conn c v (\<lambda>x. case conn_closeCallback x of
      None \<Rightarrow> Inl BadFunctionCall | Some h \<Rightarrow> removeConnection S tid h c v))" for v :: "('a, 'b) served_scheme"
    by (simp add: with_conn_def removeConnection_stays split: option.split)
  then show ?thesis
    unfolding handleClose_def set_mask_eqs with_conn_def [of c w]
    by (auto split: option.split
        intro!: srv_stays_chain stays_srv [OF set_mask_stays] stays_srv [OF call_app_stays])
qed

lemma handleRead_stays: "srv_stays w (handleRead S app (removeConnection S) tid c now w)"
proof -
  have up: "srv_leaves w (upd_conn c g (w\<lparr>kern := k\<rparr>))" for g k
    by (rule leaves_srv) simp
  show ?thesis
    unfolding handleRead_def with_conn_def [of c w]
    by (auto simp: Let_def split: option.split prod.split intro!: outcome_bind [OF any_outcome]
        stays_srv [OF call_app_stays] stays_srv [OF handleError_stays] srv_stays_mono [OF handleClose_stays up])
qed

lemma conn_handler_stays:
  "conn_handler S app (removeConnection S) tid now h w = Some r \<Longrightarrow> srv_stays w r"
  by (cases h) (auto intro: handleRead_stays handleClose_stays stays_srv [OF handleWrite_stays]
      stays_srv [OF handleError_stays])

section \<open>The invariant of the server\<close>

text \<open>
  Every entry of the map is a connection that exists, under its own name, and that name was made from an id
  already used; the next id and the length of the address text are in range.
\<close>

definition server_inv :: "('k, 'z) served_scheme \<Rightarrow> bool" where
  "server_inv w \<longleftrightarrow> 1 \<le> nextConnId (the_server w) \<and> nextConnId (the_server w) < 2 ^ 31 \<and>
     length (ipPort (the_server w)) \<le> 21 \<and>
     (\<forall>nm c. connections (the_server w) nm = Some c \<longrightarrow>
        (\<exists>x. conns w c = Some x \<and> conn_name x = nm) \<and>
        (\<exists>i. 1 \<le> i \<and> i < nextConnId (the_server w) \<and> nm = conn_name_of ((the_server w)\<lparr>nextConnId := i\<rparr>)))"

text \<open>The whole: the connections' invariant, the server's, the pool's, and what the addresses are used for.\<close>

definition server_ok :: "'k interest \<Rightarrow> nat set \<Rightarrow> nat set \<Rightarrow> ('k, 'z) served_scheme \<Rightarrow> bool" where
  "server_ok itst L live w \<longleftrightarrow> process_inv itst L live w \<and> server_inv w \<and> pool_inv (pool w) \<and>
     set (getAllLoops (pool w)) \<subseteq> L \<and> live \<subseteq> {..<next_addr w} \<and> dom (conns w) \<subseteq> {..<next_addr w}"

lemma server_okD:
  assumes "server_ok itst L live w"
  shows "process_inv itst L live w" and "server_inv w" and "pool_inv (pool w)"
    and "set (getAllLoops (pool w)) \<subseteq> L" and "live \<subseteq> {..<next_addr w}" and "dom (conns w) \<subseteq> {..<next_addr w}"
  using assms by (simp_all add: server_ok_def)

lemma server_invD:
  assumes "server_inv w"
  shows "1 \<le> nextConnId (the_server w)" and "nextConnId (the_server w) < 2 ^ 31"
    and "length (ipPort (the_server w)) \<le> 21"
    and "connections (the_server w) nm = Some c \<Longrightarrow> \<exists>x. conns w c = Some x \<and> conn_name x = nm"
    and "connections (the_server w) nm = Some c \<Longrightarrow>
      \<exists>i. 1 \<le> i \<and> i < nextConnId (the_server w) \<and> nm = conn_name_of ((the_server w)\<lparr>nextConnId := i\<rparr>)"
  using assms unfolding server_inv_def by blast+

text \<open>Names made from different ids differ: the 64 characters are enough.\<close>

lemma conn_name_of_eq:
  assumes "length (ipPort s) \<le> 21" and "1 \<le> nextConnId s" and "nextConnId s < 2 ^ 31"
  shows "conn_name_of s = srv_name s @ CHR ''-'' # c_str (ipPort s) @ CHR ''#'' # fmt_d (nextConnId s)"
proof -
  let ?t = "CHR ''-'' # c_str (ipPort s) @ CHR ''#'' # fmt_d (nextConnId s)"
  have "length ?t < 64"
    using length_c_str [of "ipPort s"] length_fmt_d [of "nextConnId s"] assms by simp
  moreover have "CHR 0x00 \<notin> set ?t" using c_str_no_null_set fmt_d_no_null by auto
  ultimately show ?thesis by (simp add: conn_name_of_def snprintf_fits c_str_no_null)
qed

lemma conn_name_of_inject:
  assumes "length (ipPort s) \<le> 21" and "1 \<le> i" and "i < 2 ^ 31" and "1 \<le> j" and "j < 2 ^ 31"
    and "conn_name_of (s\<lparr>nextConnId := i\<rparr>) = conn_name_of (s\<lparr>nextConnId := j\<rparr>)"
  shows "i = j"
  using assms by (simp add: conn_name_of_eq)

lemma server_inv_step:
  assumes inv: "server_inv w" and srv: "srv_leaves w w'" and fwd: "forward w w'"
  shows "server_inv w'"
proof -
  obtain m where m: "m \<subseteq>\<^sub>m connections (the_server w)" "the_server w' = (the_server w)\<lparr>connections := m\<rparr>"
    using srv by (auto simp: srv_leaves_def)
  have "(\<exists>x. conns w' c = Some x \<and> conn_name x = nm) \<and>
        (\<exists>i. 1 \<le> i \<and> i < nextConnId (the_server w') \<and> nm = conn_name_of ((the_server w')\<lparr>nextConnId := i\<rparr>))"
    if "connections (the_server w') nm = Some c" for nm c
  proof -
    have old: "connections (the_server w) nm = Some c"
      using that m by (auto simp: map_le_def dom_def)
    obtain x where x: "conns w c = Some x" "conn_name x = nm" using server_invD(4) [OF inv old] by blast
    then obtain y where "conns w' c = Some y" "conn_name y = nm"
      using forwardD [OF fwd x(1)] by (auto simp: conn_forward_def)
    moreover have "conn_name_of ((the_server w')\<lparr>nextConnId := i\<rparr>) = conn_name_of ((the_server w)\<lparr>nextConnId := i\<rparr>)" for i
      using m(2) by (simp add: conn_name_of_def)
    ultimately show ?thesis using server_invD(5) [OF inv old] m(2) by auto
  qed
  then show ?thesis
    using server_invD(1-3) [OF inv] m(2) by (simp add: server_inv_def)
qed

lemma server_ok_step:
  assumes ok: "server_ok itst L live w" and srv: "srv_leaves w w'" and good: "good itst L live w w'"
  shows "server_ok itst L live w'"
proof -
  have "pool w' = pool w" "next_addr w' = next_addr w" "dom (conns w') = dom (conns w)"
    using srv by (simp_all add: srv_leaves_def)
  with server_okD [OF ok] goodD(1) [OF good] server_inv_step [OF server_okD(2) [OF ok] srv goodD(3) [OF good]]
  show ?thesis by (simp add: server_ok_def)
qed

lemma both_outcomes:
  "outcome E P r \<Longrightarrow> outcome (\<lambda>_. True) Q r \<Longrightarrow> outcome E (\<lambda>x. P x \<and> Q x) r"
  by (cases r) simp_all

lemma outcome_mono:
  "outcome E P r \<Longrightarrow> (\<And>e. E e \<Longrightarrow> F e) \<Longrightarrow> (\<And>x. P x \<Longrightarrow> Q x) \<Longrightarrow> outcome F Q r"
  by (cases r) simp_all

lemma server_ok_outcome:
  assumes "server_ok itst L live w" and "keeps itst L live w r" and "srv_stays w r"
  shows "outcome not_fatal (server_ok itst L live) r"
  using both_outcomes [OF assms(2,3)] by (rule outcome_weaken) (blast intro: server_ok_step [OF assms(1)])

section \<open>A new connection\<close>

lemma registry_outside:
  assumes inv: "registry_inv itst L live w" and fp: "fp \<notin> live"
    and k: "itst (kern w') = itst (kern w)" and e: "epollerOf w' = epollerOf w"
    and f: "\<And>q. q \<noteq> fp \<Longrightarrow> filedOf w' q = filedOf w q"
  shows "registry_inv itst L live w'"
proof -
  have same: "filedOf w' q = filedOf w q" if "q \<in> live" for q
    using that fp f by metis
  show ?thesis
  proof (rule registry_invI)
    show "filed_loop (filedOf w' q) \<in> L" if "q \<in> live" for q
      using registry_okD [OF inv that] same [OF that] by simp
    show "filed_ok itst w' q" if "q \<in> live" for q
      using registry_okD [OF inv that] same [OF that] k e by (simp add: filed_ok_def)
    show "inj_on (\<lambda>l. epollfd (epollerOf w' l)) L" using registry_injD(1) [OF inv] e by simp
    show "inj_on (\<lambda>q. (filed_loop (filedOf w' q), filed_fd (filedOf w' q))) live"
      using registry_injD(2) [OF inv] same by (simp add: inj_on_def)
    show "belongs w' live l fd p" if "l \<in> L" "fileds (epollerOf w' l) fd = Some p" for l fd p
      using registry_entD [OF inv that(1), of fd p] that(2) e same by (auto simp: belongs_def)
    show "belongs w' live l fd p" if "l \<in> L" "itst (kern w') (epollfd (epollerOf w' l)) fd = Some (ev, p)" for l fd ev p
      using registry_regD [OF inv that(1), of fd ev p] that(2) e k same by (auto simp: belongs_def)
  qed
qed

lemma process_inv_insert:
  assumes inv: "process_inv itst L live w" and fp: "fp \<notin> live" and c: "conns w c = None"
    and k: "itst (kern w') = itst (kern w)" and e: "epollerOf w' = epollerOf w"
    and f: "filedOf w' = (filedOf w)(fp := f)" and conns: "conns w' = (conns w)(c \<mapsto> x)"
    and new: "filed_loop f \<in> L" "index f = kNew" "conn_filed x = fp" "conn_ok w' x"
    and fresh: "\<And>q. q \<in> live \<Longrightarrow> filed_fd (filedOf w q) \<noteq> filed_fd f"
  shows "process_inv itst L (insert fp live) w'"
proof -
  note reg = process_invD(1) [OF inv]
  have reg': "registry_inv itst L live w'"
    by (rule registry_outside [OF reg fp k e]) (simp add: f)
  have "registry_inv itst L (insert fp live) w'"
    by (rule registry_insert [OF reg']) (use new fresh fp f in auto)
  moreover have "conn_filed y \<in> insert fp live \<and> conn_ok w' y" if "conns w' d = Some y" for d y
  proof (cases "d = c")
    case True
    with that conns new show ?thesis by simp
  next
    case False
    with that conns have y: "conns w d = Some y" by simp
    from process_invD(2,3) [OF inv y] fp f show ?thesis by (auto simp: conn_ok_def)
  qed
  moreover have "d = d'" if "conns w' d = Some y" "conns w' d' = Some z" "conn_filed y = conn_filed z" for d d' y z
  proof -
    have other: "conn_filed v \<noteq> fp" if "conns w b = Some v" for b v
      using process_invD(2) [OF inv that] fp by metis
    from that conns new(3) other [of d y] other [of d' z] process_invD(4) [OF inv, of d y d' z] show ?thesis
      by (cases "d = c"; cases "d' = c") simp_all
  qed
  ultimately show ?thesis by (auto simp: process_inv_def)
qed

lemma getsockname_cases:
  "interest_frame S itst \<Longrightarrow> \<exists>r a k'. sys_getsockname S fd k = (r, a, k') \<and> itst k' = itst k"
  by (metis interest_frameD(7) prod_cases3)

text \<open>The object: what it is, that its name and address are new, and that the whole invariant holds with it.\<close>

lemma conn_name_new:
  assumes "server_inv w"
  shows "connections (the_server w) (conn_name_of (the_server w)) = None"
proof (rule ccontr)
  let ?s = "the_server w"
  assume "connections ?s (conn_name_of ?s) \<noteq> None"
  then obtain i where i: "1 \<le> i" "i < nextConnId ?s" "conn_name_of ?s = conn_name_of (?s\<lparr>nextConnId := i\<rparr>)"
    using server_invD(5) [OF assms] by blast
  have "conn_name_of (?s\<lparr>nextConnId := nextConnId ?s\<rparr>) = conn_name_of (?s\<lparr>nextConnId := i\<rparr>)"
    using i(3) by simp
  from conn_name_of_inject [OF server_invD(3) [OF assms] _ _ _ _ this] server_invD(1,2) [OF assms] i
  show False by simp
qed

definition new_conn :: "server \<Rightarrow> nat \<Rightarrow> nat \<Rightarrow> int \<Rightarrow> sockaddr \<Rightarrow> sockaddr \<Rightarrow> connection" where
  "new_conn s l fp fd local peer = \<lparr>conn_loop = l, conn_name = conn_name_of s, conn_state = kConnecting,
     conn_reading = True, conn_fd = fd, conn_filed = fp, localAddr = local, peerAddr = peer,
     connectionCallback = srv_connectionCallback s, messageCallback = srv_messageCallback s,
     writeCompleteCallback = srv_writeCompleteCallback s, conn_closeCallback = Some 0,
     highWaterMarkCallback = None, highWaterMark = 64 * 1024 * 1024,
     inputBuffer = mkBuffer kInitialSize, outputBuffer = mkBuffer kInitialSize\<rparr>"

definition new_filed :: "nat \<Rightarrow> nat \<Rightarrow> int \<Rightarrow> filed" where
  "new_filed l c fd = (mkFiled l fd)\<lparr>readCallback := Some (HConnRead c), writeCallback := Some (HConnWrite c),
     closeCallback := Some (HConnClose c), errorCallback := Some (HConnError c)\<rparr>"

lemma newConnection_object_exact:
  assumes p: "getNextLoop (pool w) = Inr (l, p)" and gs: "sys_getsockname S sockfd (kern w) = (r, a, k')"
    and ids: "nextConnId (the_server w) \<noteq> 2147483647" and c: "c = next_addr w"
    and local: "local = (if r < 0 then \<lparr>sin_family = 0, sin_port = 0, sin_addr = 0\<rparr> else a)"
  shows "\<exists>w'. newConnection_object S sockfd peer w = Inr (l, c, w') \<and>
    kern w' = sys_setsockopt S sockfd SO_KEEPALIVE 1 k' \<and> epollerOf w' = epollerOf w \<and> loopOf w' = loopOf w \<and>
    filedOf w' = (filedOf w)(c + 1 := new_filed l c sockfd) \<and>
    conns w' = (conns w)(c \<mapsto> new_conn (the_server w) l (c + 1) sockfd local peer) \<and>
    pool w' = p \<and> next_addr w' = c + 2 \<and>
    the_server w' = (the_server w)\<lparr>nextConnId := nextConnId (the_server w) + 1,
      connections := (connections (the_server w))(conn_name_of (the_server w) \<mapsto> c)\<rparr> \<and>
    the_acceptor w' = the_acceptor w \<and>
    w' = w\<lparr>kern := kern w', logs := logs w', filedOf := filedOf w', conns := conns w', next_addr := next_addr w',
      pool := pool w', the_server := the_server w'\<rparr>"
  using ids
  by (cases "r < 0")
    (simp_all add: newConnection_object_def p gs mkConnection_def CheckLoop_def upd_pool_def upd_server_def
      upd_filed_def log_line_def setConnectionCallback_def setMessageCallback_def setWriteCompleteCallback_def
      setConnCloseCallback_def upd_conn_def setKeepAlive_def Socket_setopt_def new_conn_def new_filed_def
      setReadCallback_def setWriteCallback_def setCloseCallback_def setErrorCallback_def c local Let_def)

lemma new_conn_ok:
  assumes "filedOf w' fp = new_filed l c fd"
  shows "conn_ok w' (new_conn s l fp fd local peer)"
  using assms mkBuffer_inv [of kInitialSize]
  by (simp add: conn_ok_def new_conn_def new_filed_def mkFiled_def isWriting_def kInitialSize_def)

text \<open>The server's map and the rest of the invariant, once the object is in it.\<close>

lemma server_inv_insert:
  assumes inv: "server_inv w" and ids: "nextConnId (the_server w) \<noteq> 2147483647"
    and srv: "the_server w' = (the_server w)\<lparr>nextConnId := nextConnId (the_server w) + 1,
      connections := (connections (the_server w))(conn_name_of (the_server w) \<mapsto> c)\<rparr>"
    and conns: "conns w' = (conns w)(c \<mapsto> x)" and x: "conn_name x = conn_name_of (the_server w)" and c: "conns w c = None"
  shows "server_inv w'"
proof -
  let ?s = "the_server w"
  have names: "conn_name_of (?s\<lparr>connections := m, nextConnId := i\<rparr>) = conn_name_of (?s\<lparr>nextConnId := i\<rparr>)" for i m
    by (simp add: conn_name_of_def)
  have names0: "conn_name_of (?s\<lparr>connections := m\<rparr>) = conn_name_of ?s" for m by (simp add: conn_name_of_def)
  have "(\<exists>y. conns w' d = Some y \<and> conn_name y = nm) \<and>
      (\<exists>i. 1 \<le> i \<and> i < nextConnId (the_server w') \<and> nm = conn_name_of ((the_server w')\<lparr>nextConnId := i\<rparr>))"
    if nm: "connections (the_server w') nm = Some d" for nm d
  proof (cases "nm = conn_name_of ?s")
    case True
    with nm srv have "d = c" by simp
    moreover have "nm = conn_name_of ((the_server w')\<lparr>nextConnId := nextConnId ?s\<rparr>)" using True srv by (simp add: names0)
    ultimately show ?thesis
      using True conns x srv server_invD(1) [OF inv] by (intro conjI exI [of _ "nextConnId ?s"]) simp_all
  next
    case False
    with nm srv have old: "connections ?s nm = Some d" by simp
    obtain y where y: "conns w d = Some y" "conn_name y = nm" using server_invD(4) [OF inv old] by blast
    then have "conns w' d = Some y" using conns c by auto
    moreover obtain i where "1 \<le> i" "i < nextConnId ?s" "nm = conn_name_of (?s\<lparr>nextConnId := i\<rparr>)"
      using server_invD(5) [OF inv old] by blast
    ultimately show ?thesis
      using y(2) srv by (intro conjI exI [of _ y] exI [of _ i]) (simp_all add: names)
  qed
  moreover have "nextConnId ?s + 1 < 2 ^ 31" using server_invD(2) [OF inv] ids by simp
  ultimately show ?thesis
    using server_invD(1,3) [OF inv] srv by (simp add: server_inv_def)
qed

lemma newConnection_object_ok:
  assumes law: "io_laws S itst" and ok: "server_ok itst L live w"
    and fresh: "\<And>q. q \<in> live \<Longrightarrow> filed_fd (filedOf w q) \<noteq> sockfd"
    and ids: "nextConnId (the_server w) \<noteq> 2147483647" and c: "c = next_addr w"
  shows "\<exists>l w' local. newConnection_object S sockfd peer w = Inr (l, c, w') \<and> l \<in> set (getAllLoops (pool w)) \<and>
    the_server w' = (the_server w)\<lparr>nextConnId := nextConnId (the_server w) + 1,
      connections := (connections (the_server w))(conn_name_of (the_server w) \<mapsto> c)\<rparr> \<and>
    conns w' = (conns w)(c \<mapsto> new_conn (the_server w) l (c + 1) sockfd local peer) \<and> loopOf w' = loopOf w \<and>
    filedOf w' = (filedOf w)(c + 1 := new_filed l c sockfd) \<and> the_acceptor w' = the_acceptor w \<and> server_ok itst L (insert (c + 1) live) w'"
proof -
  obtain l p where p: "getNextLoop (pool w) = Inr (l, p)" "pool_inv p" "l \<in> set (getAllLoops (pool w))"
    "getAllLoops p = getAllLoops (pool w)"
    using robin.choose_some [OF server_okD(3) [OF ok]] by metis
  obtain r a k' where gs: "sys_getsockname S sockfd (kern w) = (r, a, k')" "itst k' = itst (kern w)"
    using getsockname_cases [OF io_lawsD(2) [OF law]] by metis
  obtain local w' where w': "newConnection_object S sockfd peer w = Inr (l, c, w')"
    "kern w' = sys_setsockopt S sockfd SO_KEEPALIVE 1 k'" "epollerOf w' = epollerOf w" "loopOf w' = loopOf w"
    "filedOf w' = (filedOf w)(c + 1 := new_filed l c sockfd)"
    "conns w' = (conns w)(c \<mapsto> new_conn (the_server w) l (c + 1) sockfd local peer)"
    "pool w' = p" "next_addr w' = c + 2"
    "the_server w' = (the_server w)\<lparr>nextConnId := nextConnId (the_server w) + 1,
      connections := (connections (the_server w))(conn_name_of (the_server w) \<mapsto> c)\<rparr>"
    "the_acceptor w' = the_acceptor w"
    using newConnection_object_exact [OF p(1) gs(1) ids c refl, of peer] by blast
  have k: "itst (kern w') = itst (kern w)"
    using gs(2) w'(2) interest_frameD(6) [OF io_lawsD(2) [OF law]] by simp
  have c0: "conns w c = None" and fp: "c + 1 \<notin> live"
    using server_okD(5,6) [OF ok] c by auto
  let ?x = "new_conn (the_server w) l (c + 1) sockfd local peer"
  have lL: "l \<in> L" using p(3) server_okD(4) [OF ok] by blast
  have okx: "conn_ok w' ?x" by (rule new_conn_ok) (simp add: w'(5))
  have "process_inv itst L (insert (c + 1) live) w'"
    by (rule process_inv_insert [OF server_okD(1) [OF ok] fp c0 k w'(3,5,6) _ _ _ okx])
      (use lL fresh in \<open>auto simp: new_filed_def mkFiled_def kNew_def new_conn_def\<close>)
  moreover have "server_inv w'"
    by (rule server_inv_insert [OF server_okD(2) [OF ok] ids w'(9,6) _ c0]) (simp add: new_conn_def)
  ultimately have "server_ok itst L (insert (c + 1) live) w'"
    using server_okD(4-6) [OF ok] p(2,4) w'(6-8) c by (auto simp: server_ok_def)
  with w'(1,4-6,9,10) p(3) show ?thesis by blast
qed

end
