(* ===== verification/ServerLife.thy ===== *)
theory ServerLife
  imports ServerInv
begin

text \<open>
  The life of the server: the invariant of the objects of the process, and that the parts of the server's handlers and
  queued functions, and the destruction of a connection, keep it.
\<close>

section \<open>The invariant of the process\<close>

text \<open>
  The live \<open>Filed\<close>s are a fixed set, \<open>base\<close> (the wake-up descriptors and the acceptor), and one per connection;
  all have different descriptors.
\<close>

definition live_of :: "nat set \<Rightarrow> ('k, 'z) process_scheme \<Rightarrow> nat set" where
  "live_of base w = base \<union> {fp. \<exists>c x. conns w c = Some x \<and> conn_filed x = fp}"

definition served_inv :: "'k interest \<Rightarrow> nat set \<Rightarrow> nat set \<Rightarrow> ('k, 'z) served_scheme \<Rightarrow> bool" where
  "served_inv itst L base w \<longleftrightarrow> server_ok itst L (live_of base w) w \<and>
     inj_on (\<lambda>q. filed_fd (filedOf w q)) (live_of base w) \<and>
     (\<forall>c x. conns w c = Some x \<longrightarrow> conn_filed x \<notin> base) \<and> acceptFiled (the_acceptor w) \<in> base"

lemma served_invD:
  assumes "served_inv itst L base w"
  shows "server_ok itst L (live_of base w) w" and "inj_on (\<lambda>q. filed_fd (filedOf w q)) (live_of base w)"
    and "conns w c = Some x \<Longrightarrow> conn_filed x \<notin> base" and "acceptFiled (the_acceptor w) \<in> base"
    and "good itst L (live_of base w) w w" and "process_inv itst L (live_of base w) w"
  using assms server_okD(1) unfolding served_inv_def good_def by (blast intro: forward_refl)+

lemma live_of_conn: "conns w c = Some x \<Longrightarrow> conn_filed x \<in> live_of base w"
  by (auto simp: live_of_def)

lemma live_of_insert:
  assumes "conns w' = (conns w)(c \<mapsto> x)" and "conns w c = None"
  shows "live_of base w' = insert (conn_filed x) (live_of base w)"
proof -
  have "{fp. \<exists>d y. conns w' d = Some y \<and> conn_filed y = fp} =
      insert (conn_filed x) {fp. \<exists>d y. conns w d = Some y \<and> conn_filed y = fp}"
    unfolding assms(1) using assms(2) by (auto split: if_splits) (metis option.distinct(1))+
  then show ?thesis by (auto simp: live_of_def)
qed

lemma live_of_forward:
  assumes "forward w w'" and "dom (conns w') = dom (conns w)"
  shows "live_of base w' = live_of base w"
proof -
  have "(\<exists>c x. conns w' c = Some x \<and> conn_filed x = fp) \<longleftrightarrow> (\<exists>c x. conns w c = Some x \<and> conn_filed x = fp)" for fp
  proof
    assume "\<exists>c x. conns w c = Some x \<and> conn_filed x = fp"
    then show "\<exists>c x. conns w' c = Some x \<and> conn_filed x = fp"
      using forwardD [OF assms(1)] unfolding conn_forward_def by metis
  next
    assume "\<exists>c x. conns w' c = Some x \<and> conn_filed x = fp"
    then obtain c y where y: "conns w' c = Some y" "conn_filed y = fp" by blast
    have "c \<in> dom (conns w)" using domI [of "conns w'", OF y(1)] by (simp only: assms(2))
    then obtain x where "conns w c = Some x" by (auto simp only: domD dom_def mem_Collect_eq)
    with y forwardD [OF assms(1) this] show "\<exists>c x. conns w c = Some x \<and> conn_filed x = fp"
      by (auto simp: conn_forward_def)
  qed
  then show ?thesis by (simp add: live_of_def)
qed

lemma served_inv_step:
  assumes inv: "served_inv itst L base w" and srv: "srv_leaves w w'" and good: "good itst L (live_of base w) w w'"
  shows "served_inv itst L base w' \<and> live_of base w' = live_of base w"
proof -
  have dom: "dom (conns w') = dom (conns w)" and acc: "the_acceptor w' = the_acceptor w"
    and fd: "filed_fd (filedOf w' q) = filed_fd (filedOf w q)" for q
    using srv by (simp_all add: srv_leaves_def same_callbacks_def)
  have live: "live_of base w' = live_of base w" by (rule live_of_forward [OF goodD(3) [OF good] dom])
  moreover have "conn_filed y \<notin> base" if "conns w' c = Some y" for c y
  proof -
    have "c \<in> dom (conns w)" using domI [of "conns w'", OF that] by (simp only: dom)
    then obtain x where x: "conns w c = Some x" by (auto simp only: domD dom_def mem_Collect_eq)
    with forwardD [OF goodD(3) [OF good] x] that served_invD(3) [OF inv x] show ?thesis
      by (auto simp: conn_forward_def)
  qed
  ultimately show ?thesis
    using server_ok_step [OF served_invD(1) [OF inv] srv good] served_invD(2,4) [OF inv] acc fd
    by (simp add: served_inv_def)
qed

lemma served_outcome:
  assumes "served_inv itst L base w" and "keeps itst L (live_of base w) w r" and "srv_stays w r"
  shows "outcome not_fatal (served_inv itst L base) r"
  using both_outcomes [OF assms(2,3)]
  by (rule outcome_weaken) (blast dest: served_inv_step [OF assms(1)])

section \<open>Handlers\<close>

lemma handelwakeupRead_leaves: "leaves w (handelwakeupRead S l w)"
  by (simp add: handelwakeupRead_def Let_def split: prod.split)

lemma handelwakeupRead_good:
  assumes law: "io_laws S itst" and good: "good itst L live w0 w"
  shows "good itst L live w0 (handelwakeupRead S l w)"
proof -
  obtain n k' where wr: "sys_write S (wakeupFd (loopOf w l)) wake_bytes (kern w) = (n, k')" by fastforce
  with interest_frameD(3) [OF io_lawsD(2) [OF law] this]
  have "same_objects itst w (handelwakeupRead S l w)" "conns (handelwakeupRead S l w) = conns w"
    by (simp_all add: handelwakeupRead_def same_objects_def log_line_def Let_def)
  then show ?thesis by (rule good_frame [OF good])
qed

text \<open>A step of the kernel alone, and a line in the log, keep the invariant.\<close>

lemma served_inv_kern:
  assumes "served_inv itst L base w" and "itst k = itst (kern w)"
  shows "served_inv itst L base (w\<lparr>kern := k\<rparr>) \<and> live_of base (w\<lparr>kern := k\<rparr>) = live_of base w"
proof (rule served_inv_step [OF assms(1)])
  show "srv_leaves w (w\<lparr>kern := k\<rparr>)" by (rule leaves_srv) simp
  show "good itst L (live_of base w) w (w\<lparr>kern := k\<rparr>)"
    by (rule good_frame [OF served_invD(5) [OF assms(1)]]) (simp_all add: same_objects_def assms(2))
qed

lemma served_inv_log:
  assumes "served_inv itst L base w"
  shows "served_inv itst L base (log_line lv m w)"
proof -
  have "srv_leaves w (log_line lv m w)" by (rule leaves_srv) simp
  moreover have "good itst L (live_of base w) w (log_line lv m w)"
    by (rule good_frame [OF served_invD(5) [OF assms]]) simp_all
  ultimately show ?thesis using served_inv_step [OF assms] by blast
qed

text \<open>Closing a descriptor that no live \<open>Filed\<close> is registered for changes nothing the registry looks at.\<close>

lemma registry_close:
  assumes law: "close_law S itst" and inv: "registry_inv itst L live w"
    and fresh: "\<And>q. q \<in> live \<Longrightarrow> filed_fd (filedOf w q) \<noteq> fd"
  shows "registry_inv itst L live (w\<lparr>kern := sys_close S fd (kern w)\<rparr>)"
proof (rule registry_invI)
  show "filed_loop (filedOf (w\<lparr>kern := sys_close S fd (kern w)\<rparr>) q) \<in> L" if "q \<in> live" for q
    using registry_okD [OF inv that] by simp
  show "filed_ok itst (w\<lparr>kern := sys_close S fd (kern w)\<rparr>) q" if "q \<in> live" for q
    using registry_okD [OF inv that] fresh [OF that] by (simp add: filed_ok_def close_lawD [OF law] Let_def)
  show "belongs (w\<lparr>kern := sys_close S fd (kern w)\<rparr>) live l fd' p"
    if "l \<in> L" "fileds (epollerOf (w\<lparr>kern := sys_close S fd (kern w)\<rparr>) l) fd' = Some p" for l fd' p
    using registry_entD [OF inv that(1)] that(2) by (simp add: belongs_def)
  show "belongs (w\<lparr>kern := sys_close S fd (kern w)\<rparr>) live l fd' p"
    if "l \<in> L" "itst (kern (w\<lparr>kern := sys_close S fd (kern w)\<rparr>))
      (epollfd (epollerOf (w\<lparr>kern := sys_close S fd (kern w)\<rparr>) l)) fd' = Some (ev, p)" for l fd' ev p
    using registry_regD [OF inv that(1)] that(2) by (simp add: belongs_def close_lawD [OF law] split: if_splits)
qed (use registry_injD [OF inv] in simp_all)

lemma served_inv_close:
  assumes law: "close_law S itst" and inv: "served_inv itst L base w"
    and fresh: "\<And>q. q \<in> live_of base w \<Longrightarrow> filed_fd (filedOf w q) \<noteq> fd"
  shows "served_inv itst L base (w\<lparr>kern := sys_close S fd (kern w)\<rparr>)"
proof -
  let ?w = "w\<lparr>kern := sys_close S fd (kern w)\<rparr>"
  have "registry_inv itst L (live_of base w) ?w"
    by (rule registry_close [OF law process_invD(1) [OF served_invD(6) [OF inv]] fresh])
  then have "good itst L (live_of base w) w ?w"
    using process_invD(2-4) [OF served_invD(6) [OF inv]]
    by (auto simp: good_def process_inv_def conn_ok_def forward_def)
  moreover have "srv_leaves w ?w" by (rule leaves_srv) simp
  ultimately show ?thesis using served_inv_step [OF inv] by blast
qed

section \<open>A new connection\<close>

lemma served_inv_new:
  assumes law: "io_laws S itst" and inv: "served_inv itst L base w"
    and fresh: "\<And>q. q \<in> live_of base w \<Longrightarrow> filed_fd (filedOf w q) \<noteq> sockfd"
    and ids: "nextConnId (the_server w) \<noteq> 2147483647"
  shows "\<exists>l w' local. newConnection_object S sockfd peer w = Inr (l, next_addr w, w') \<and>
    l \<in> set (getAllLoops (pool w)) \<and> conns w (next_addr w) = None \<and>
    the_server w' = (the_server w)\<lparr>nextConnId := nextConnId (the_server w) + 1,
      connections := (connections (the_server w))(conn_name_of (the_server w) \<mapsto> next_addr w)\<rparr> \<and>
    conns w' = (conns w)(next_addr w \<mapsto> new_conn (the_server w) l (next_addr w + 1) sockfd local peer) \<and>
    filedOf w' = (filedOf w)(next_addr w + 1 := new_filed l (next_addr w) sockfd) \<and> loopOf w' = loopOf w \<and>
    served_inv itst L base w' \<and> live_of base w' = insert (next_addr w + 1) (live_of base w)"
proof -
  let ?c = "next_addr w"
  note ok = served_invD(1) [OF inv]
  obtain l w' local where w': "newConnection_object S sockfd peer w = Inr (l, ?c, w')"
    "l \<in> set (getAllLoops (pool w))"
    "the_server w' = (the_server w)\<lparr>nextConnId := nextConnId (the_server w) + 1,
      connections := (connections (the_server w))(conn_name_of (the_server w) \<mapsto> ?c)\<rparr>"
    "conns w' = (conns w)(?c \<mapsto> new_conn (the_server w) l (?c + 1) sockfd local peer)"
    "filedOf w' = (filedOf w)(?c + 1 := new_filed l ?c sockfd)" "the_acceptor w' = the_acceptor w"
    "loopOf w' = loopOf w" "server_ok itst L (insert (?c + 1) (live_of base w)) w'"
    using newConnection_object_ok [OF law ok fresh ids refl, of peer] by metis
  have new: "conns w ?c = None" "?c + 1 \<notin> live_of base w" using server_okD(5,6) [OF ok] by auto
  have live: "live_of base w' = insert (?c + 1) (live_of base w)"
    using live_of_insert [OF w'(4) new(1)] by (simp add: new_conn_def)
  have "filed_fd (filedOf w' q) = (if q = ?c + 1 then sockfd else filed_fd (filedOf w q))" for q
    using w'(5) by (simp add: new_filed_def mkFiled_def setReadCallback_def setWriteCallback_def
        setCloseCallback_def setErrorCallback_def)
  then have "inj_on (\<lambda>q. filed_fd (filedOf w' q)) (live_of base w')"
    using served_invD(2) [OF inv] fresh new(2) by (auto simp: live inj_on_def)
  moreover have "?c + 1 \<notin> base" using new(2) by (simp add: live_of_def)
  ultimately have "served_inv itst L base w'"
    using w'(4,6,8) served_invD(3,4) [OF inv] live by (auto simp: served_inv_def new_conn_def)
  with w' new live show ?thesis by blast
qed

section \<open>Queued functions\<close>

text \<open>An event request of a \<open>Filed\<close> that is no connection's.\<close>

lemma base_request:
  assumes law: "io_laws S itst" and good: "good itst L live w0 w" and fp: "fp \<in> live"
    and others: "\<And>c x. conns w c = Some x \<Longrightarrow> conn_filed x \<noteq> fp"
  shows "keeps itst L live w0 (set_mask S fp m w)"
proof -
  obtain k' where k': "set_mask S fp m w = Inr (updated fp (m (events (filedOf w fp))) k' w)"
    "registry_inv itst L live (updated fp (m (events (filedOf w fp))) k' w)"
    using set_mask_exact [OF io_lawsD(1) [OF law] goodD(2) [OF good] fp] by metis
  let ?w = "updated fp (m (events (filedOf w fp))) k' w"
  have same: "conns ?w = conns w" "\<And>q. q \<noteq> fp \<Longrightarrow> filedOf ?w q = filedOf w q" by (simp_all add: updated_def Let_def)
  have "conn_ok ?w x" if "conns w c = Some x" for c x
    using goodD(4) [OF good that] same(2) [OF others [OF that]] by (simp add: conn_ok_def)
  then have "process_inv itst L live ?w"
    using k'(2) process_invD(2,4) [OF goodD(1) [OF good]] same(1) by (auto simp: process_inv_def)
  then have "good itst L live w0 ?w"
    using goodD(3) [OF good] same(1) by (simp add: good_def forward_def)
  with k'(1) show ?thesis by simp
qed

lemma served_inv_listening:
  fixes v :: "('k, 'z) served_scheme"
  shows "served_inv itst L base (upd_acceptor (\<lambda>a. a\<lparr>is_listen := True\<rparr>) v) \<longleftrightarrow> served_inv itst L base v"
  by (simp add: upd_acceptor_def served_inv_def server_ok_def server_inv_def process_inv_def conn_ok_def live_of_def
      registry_inv_def filed_ok_def belongs_def Let_def)

lemma Acceptor_listen_outcome:
  fixes S :: "'k sys" and w :: "('k, 'z) served_scheme"
  assumes law: "io_laws S itst" and inv: "served_inv itst L base w"
  shows "outcome (\<lambda>e. e = ExitFailure \<and> fst (sys_listen S (acceptSocket (the_acceptor w)) 1024 (kern w)) \<noteq> 0)
    (served_inv itst L base) (Acceptor_listen S w)"
proof -
  obtain r k' where li: "sys_listen S (acceptSocket (the_acceptor w)) 1024 (kern w) = (r, k')" by fastforce
  have k: "served_inv itst L base (w\<lparr>kern := k'\<rparr>)"
    using served_inv_kern [OF inv interest_frameD(9) [OF io_lawsD(2) [OF law] li]] by simp
  let ?v = "upd_acceptor (\<lambda>a. a\<lparr>is_listen := True\<rparr>) (w\<lparr>kern := k'\<rparr>)"
  have v: "served_inv itst L base ?v" using k by (simp add: served_inv_listening)
  note fp = served_invD(4) [OF v]
  have live: "acceptFiled (the_acceptor ?v) \<in> live_of base ?v" using fp by (simp add: live_of_def)
  have "outcome not_fatal (served_inv itst L base) (set_mask S (acceptFiled (the_acceptor ?v)) mask_enableReading ?v)"
  proof (rule served_outcome [OF v base_request [OF law served_invD(5) [OF v] live]])
    show "conn_filed x \<noteq> acceptFiled (the_acceptor ?v)" if "conns ?v c = Some x" for c x
      using served_invD(3) [OF v that] fp by metis
  qed (rule stays_srv [OF set_mask_stays [OF leaves_refl]])
  moreover obtain u where u: "set_mask S (acceptFiled (the_acceptor ?v)) mask_enableReading ?v = Inr u"
    using set_mask_exact [OF io_lawsD(1) [OF law] process_invD(1) [OF served_invD(6) [OF v]] live] by metis
  ultimately have "served_inv itst L base u" by simp
  moreover have "acceptFiled (the_acceptor ?v) = acceptFiled (the_acceptor w)" by (simp add: upd_acceptor_def)
  moreover have "(upd_acceptor (\<lambda>a. a\<lparr>is_listen := True\<rparr>) w)\<lparr>kern := k'\<rparr> = ?v" by (simp add: upd_acceptor_def)
  moreover have "kern (upd_acceptor g w) = kern w" for g by (simp add: upd_acceptor_def)
  ultimately show ?thesis
    using li u by (simp add: Acceptor_listen_def Socket_listen_def set_mask_eqs)
qed

section \<open>Destruction of a connection\<close>

lemma live_of_delete:
  assumes inv: "served_inv itst L base w" and c: "conns w c = Some x" and w': "conns w' = (conns w)(c := None)"
  shows "live_of base w' = live_of base w - {conn_filed x}"
proof -
  have "conn_filed y \<noteq> conn_filed x" if "conns w d = Some y" "d \<noteq> c" for d y
    using process_invD(4) [OF served_invD(6) [OF inv] c that(1)] that(2) by metis
  then have "{fp. \<exists>d y. conns w' d = Some y \<and> conn_filed y = fp} =
      {fp. \<exists>d y. conns w d = Some y \<and> conn_filed y = fp} - {conn_filed x}"
    unfolding w' using c by (auto split: if_splits) (metis option.inject)
  with served_invD(3) [OF inv c] show ?thesis by (auto simp: live_of_def)
qed

text \<open>
  A connection that was unregistered and is out of the server's map can be destroyed: its descriptor is closed and
  its \<open>Filed\<close> is no longer live.
\<close>

lemma destroyConnection_keeps:
  assumes law: "close_law S itst" and inv: "served_inv itst L base w" and c: "conns w c = Some x"
    and gone: "index (filedOf w (conn_filed x)) = kNew" "\<And>nm. connections (the_server w) nm \<noteq> Some c"
  shows "\<exists>w'. destroyConnection S c w = Inr w' \<and> served_inv itst L base w' \<and>
    live_of base w' = live_of base w - {conn_filed x} \<and> conns w' = (conns w)(c := None)"
proof -
  let ?fp = "conn_filed x" and ?v = "w\<lparr>conns := (conns w)(c := None)\<rparr>"
  let ?w = "?v\<lparr>kern := sys_close S (conn_fd x) (kern w)\<rparr>"
  note ok = served_invD(1) [OF inv] and pinv = served_invD(6) [OF inv]
  have fd: "filed_fd (filedOf w ?fp) = conn_fd x" using process_invD(3) [OF pinv c] by (simp add: conn_ok_def)
  have live: "live_of base ?v = live_of base w - {?fp}" by (rule live_of_delete [OF inv c]) simp
  have live': "live_of base ?w = live_of base w - {?fp}" using live by (simp add: live_of_def)
  have fpl: "?fp \<in> live_of base w" by (rule live_of_conn [OF c])
  have "registry_inv itst L (live_of base w - {?fp}) w"
    by (rule registry_leave [OF process_invD(1) [OF pinv] gone(1)])
  then have rv: "registry_inv itst L (live_of base w - {?fp}) ?v"
    by (rule registry_frame) (simp_all add: same_registration_def)
  have "filed_fd (filedOf w q) \<noteq> conn_fd x" if "q \<in> live_of base w - {?fp}" for q
    using inj_onD [OF served_invD(2) [OF inv], of q ?fp] that fpl fd by auto
  then have reg: "registry_inv itst L (live_of base w - {?fp}) ?w"
    using registry_close [OF law rv, of "conn_fd x"] by simp
  have others: "conn_filed y \<noteq> ?fp" if "conns w d = Some y" "d \<noteq> c" for d y
    using process_invD(4) [OF pinv c that(1)] that(2) by metis
  have "process_inv itst L (live_of base w - {?fp}) ?w"
    using reg others process_invD(2-4) [OF pinv] by (auto simp: process_inv_def conn_ok_def split: if_splits)
  moreover have "server_inv ?w"
  proof -
    have "\<exists>y. conns ?w d = Some y \<and> conn_name y = nm" if "connections (the_server w) nm = Some d" for nm d
      using server_invD(4) [OF server_okD(2) [OF ok] that] gone(2) that by auto
    with server_invD(1-3,5) [OF server_okD(2) [OF ok]] show ?thesis by (simp add: server_inv_def)
  qed
  ultimately have "server_ok itst L (live_of base ?w) ?w"
    using server_okD(3-6) [OF ok] by (auto simp: server_ok_def live')
  moreover have "inj_on (\<lambda>q. filed_fd (filedOf ?w q)) (live_of base ?w)"
    unfolding live' using served_invD(2) [OF inv] by (auto intro: inj_on_subset)
  ultimately have "served_inv itst L base ?w"
    using served_invD(3,4) [OF inv] by (auto simp: served_inv_def split: if_splits)
  with c live' show ?thesis by (simp add: destroyConnection_def with_conn_def Socket_destroy_def)
qed

end
