(* ===== verification/ServerProps.thy ===== *)
theory ServerProps
  imports ServerLife ConnectionStream
begin

text \<open>
  The properties of the server: how a connection is made, placed and taken out again, and what a reported event runs.
\<close>

section \<open>Dispatch to the real handlers\<close>

text \<open>No handler touches the callbacks of a \<open>Filed\<close> that exists; \<open>newConnection\<close> makes one at a free address.\<close>

definition old_filed_kept :: "('k, 'z) served_scheme \<Rightarrow> ('k, 'z) served_scheme \<Rightarrow> bool" where
  "old_filed_kept w w' \<longleftrightarrow> next_addr w \<le> next_addr w' \<and> (\<forall>c. conns w' c = None \<longrightarrow> conns w c = None) \<and>
     (\<forall>q < next_addr w. same_callbacks (filedOf w q) (filedOf w' q))"

lemma old_filed_kept_trans: "old_filed_kept u v \<Longrightarrow> old_filed_kept v w \<Longrightarrow> old_filed_kept u w"
  unfolding old_filed_kept_def by (meson le_trans less_le_trans same_callbacks_trans)

lemma srv_leaves_kept: "srv_leaves w w' \<Longrightarrow> old_filed_kept w w'"
  by (auto simp: srv_leaves_def old_filed_kept_def)

lemma kept_outcome: "srv_stays w r \<Longrightarrow> outcome (\<lambda>_. True) (old_filed_kept w) r"
  by (rule outcome_weaken, assumption, rule srv_leaves_kept)

lemma kept_start: "old_filed_kept v w' \<Longrightarrow> srv_leaves w v \<Longrightarrow> old_filed_kept w w'"
  by (rule old_filed_kept_trans [OF srv_leaves_kept])

lemma mkConnection_kept:
  "outcome (\<lambda>_. True) (\<lambda>w'. next_addr w' = next_addr w \<and> the_server w' = the_server w \<and> the_acceptor w' = the_acceptor w \<and>
     (\<forall>d. conns w' d = None \<longrightarrow> conns w d = None) \<and> (\<forall>q. q \<noteq> fp \<longrightarrow> filedOf w' q = filedOf w q)) (mkConnection S c fp l nm sockfd local peer w)"
  for w :: "('k, 'z) served_scheme"
  by (auto simp: mkConnection_def CheckLoop_def upd_filed_def setKeepAlive_def Socket_setopt_def Let_def
      split: option.split)

lemma newConnection_object_kept:
  fixes S :: "'k sys" and w :: "('k, 'z) served_scheme"
  shows "outcome (\<lambda>_. True) (\<lambda>(l, c, w'). old_filed_kept w w') (newConnection_object S sockfd peer w)"
proof -
  obtain r a k' where gs: "sys_getsockname S sockfd (kern w) = (r, a, k')" by (metis prod_cases3)
  have frame: "next_addr (upd_conn c g v) = next_addr v" "next_addr (upd_server h v) = next_addr v"
    "next_addr (log_line lv m v) = next_addr v" "next_addr (upd_pool q v) = next_addr v" "filedOf (upd_pool q v) = filedOf v"
    "kern (upd_pool q v) = kern v" "(conns (upd_conn c g v) d = None) = (conns v d = None)" "conns (upd_server h v) = conns v"
    "conns (log_line lv m v) = conns v" "conns (upd_pool q v) = conns v"
    for c d g h lv m q and v :: "('k, 'z) served_scheme"
    by (simp_all add: upd_conn_def upd_server_def log_line_def upd_pool_def)
  show ?thesis
    unfolding newConnection_object_def Let_def
    by (rule outcome_bind [OF any_outcome])
      (auto simp: gs frame old_filed_kept_def setConnectionCallback_def setMessageCallback_def
        setWriteCompleteCallback_def setConnCloseCallback_def split: prod.split
        intro!: outcome_bind [OF mkConnection_kept])
qed

lemma newConnection_kept:
  fixes w :: "('k, 'z) served_scheme"
  shows "outcome (\<lambda>_. True) (old_filed_kept w) (newConnection S app tid sockfd peer w)"
  unfolding newConnection_def
proof (rule outcome_bind [OF newConnection_object_kept], clarify)
  fix l c and v :: "('k, 'z) served_scheme"
  assume v: "old_filed_kept w v"
  have "srv_stays v (runinLoop S tid l (TConnectEstablished c) (connectEstablished S app tid c) v)"
    by (simp add: runinLoop_def stays_srv [OF connectEstablished_stays] leaves_srv [OF queueinLoop_leaves])
  from kept_outcome [OF this]
  show "outcome (\<lambda>_. True) (old_filed_kept w) (runinLoop S tid l (TConnectEstablished c) (connectEstablished S app tid c) v)"
    by (rule outcome_weaken) (rule old_filed_kept_trans [OF v])
qed

lemma server_handler_kept:
  fixes w :: "('k, 'z) served_scheme"
  shows "outcome (\<lambda>_. True) (old_filed_kept w) (server_handler S app tid now h w)"
proof (cases "conn_handler S app (removeConnection S) tid now h w")
  case (Some r)
  with kept_outcome [OF conn_handler_stays [OF Some]] show ?thesis by (simp add: server_handler_def)
next
  case None
  show ?thesis
  proof (cases h)
    case (HWakeupRead l)
    with srv_leaves_kept [OF leaves_srv [OF handelwakeupRead_leaves]] show ?thesis by (simp add: server_handler_def)
  next
    case HAcceptRead
    obtain n a k' where ac: "sys_accept4 S (acceptSocket (the_acceptor w)) (kern w) = (n, a, k')"
      by (metis prod_cases3)
    have kern: "old_filed_kept (w\<lparr>kern := k\<rparr>) v \<longleftrightarrow> old_filed_kept w v" "old_filed_kept w (w\<lparr>kern := k\<rparr>)"
      "old_filed_kept w (log_line lv m v) \<longleftrightarrow> old_filed_kept w v" for k lv m and v :: "('k, 'z) served_scheme"
      by (simp_all add: old_filed_kept_def log_line_def)
    from newConnection_kept [of "w\<lparr>kern := k'\<rparr>" S app tid n a]
    have "outcome (\<lambda>_. True) (old_filed_kept w) (newConnection S app tid n a (w\<lparr>kern := k'\<rparr>))"
      by (rule outcome_weaken) (simp add: kern)
    moreover have "old_filed_kept w (w\<lparr>kern := k', kern := k''\<rparr>)" for k'' by (simp add: kern)
    ultimately show ?thesis
      using HAcceptRead by (simp add: server_handler_def Acceptor_handleRead_def Socket_accept_def ac Let_def kern)
  qed (use None in simp_all)
qed

text \<open>A \<open>Filed\<close> that exists: it has been made, and it is no member of a connection that is gone.\<close>

definition exists_filed :: "nat \<Rightarrow> ('k, 'z) served_scheme \<Rightarrow> bool" where
  "exists_filed fp w \<longleftrightarrow> fp < next_addr w \<and> find_filed fp w \<noteq> None"

lemma find_filed_Some: "find_filed fp w \<noteq> None \<Longrightarrow> find_filed fp w = Some (filedOf w fp)"
  by (auto simp: find_filed_def split: option.splits if_splits)

lemma find_filed_kept:
  assumes "same_callbacks (filedOf w fp) (filedOf w' fp)" and "\<forall>c. conns w' c = None \<longrightarrow> conns w c = None" and "find_filed fp w \<noteq> None"
  shows "find_filed fp w' \<noteq> None"
proof -
  have "filed_owner (filedOf w' fp) = filed_owner (filedOf w fp)" using assms(1) by (simp add: filed_owner_def same_callbacks_def)
  with assms(2,3) show ?thesis by (auto simp: find_filed_def split: option.splits if_splits)
qed

interpretation dispatch: event_source "exists_filed fp" "find_filed fp" "server_handler S app tid now"
  for S :: "'k sys" and app :: "('k, 'z) server_app" and tid now fp
proof unfold_locales
  fix w w' :: "('k, 'z) served_scheme" and h
  assume fp: "exists_filed fp w"
  then show "find_filed fp w \<noteq> None" by (simp add: exists_filed_def)
  assume run: "server_handler S app tid now h w = Inr w'"
  have kept: "old_filed_kept w w'" using server_handler_kept [of w S app tid now h] run by simp
  then have same: "same_callbacks (filedOf w fp) (filedOf w' fp)" using fp by (simp add: old_filed_kept_def exists_filed_def)
  have here: "find_filed fp w' \<noteq> None"
    by (rule find_filed_kept [OF same]) (use kept fp in \<open>simp_all add: old_filed_kept_def exists_filed_def\<close>)
  with kept fp show "exists_filed fp w'" by (auto simp: old_filed_kept_def exists_filed_def)
  show "same_callbacks (the (find_filed fp w)) (the (find_filed fp w'))"
    using same find_filed_Some [OF here] find_filed_Some [of fp w] fp by (simp add: exists_filed_def)
qed


section \<open>A server to apply the theorems to\<close>

text \<open>One loop, on thread 1, with the acceptor on descriptor 8 and one connection, the first, on descriptor 7.\<close>

definition demo_server :: server where
  "demo_server = \<lparr>srv_loop = 0, ipPort = ''1.2.3.4:80'', srv_name = ''s'', started_count = 1, nextConnId = 2,
     srv_connectionCallback = Some 1, srv_messageCallback = Some 2, srv_writeCompleteCallback = Some 3,
     threadInitCallback = None, connections = Map.empty(''s-1.2.3.4:80#1'' \<mapsto> 5)\<rparr>"

definition demo_served :: "conn_state \<Rightarrow> ksim served" where
  "demo_served st = \<lparr>kern = ksim0\<lparr>sim_event := (\<lambda>_. None)(4 \<mapsto> 0), sim_next := 20\<rparr>, logs = [],
     filedOf = (\<lambda>_. new_filed 0 5 7)(0 := mkFiled 0 4, 2 := mkFiled 0 8),
     epollerOf = (\<lambda>_. \<lparr>eventList = replicate 16 (0, 0), fileds = Map.empty, epollfd = 3, ownerLoop = 0\<rparr>),
     loopOf = (\<lambda>_. \<lparr>looping = False, quit = False, threadId = 1, epollReturnTime = 0, wakeupFd = 4,
       wakeupFiled = 0, activeFileds = [], isCallPendFunc = False, pendFuncs = []\<rparr>),
     loopInThread = (\<lambda>_. None)(1 \<mapsto> 0),
     conns = (\<lambda>_. None)(5 \<mapsto> demo_conn\<lparr>conn_name := ''s-1.2.3.4:80#1'', conn_state := st\<rparr>),
     strings = (\<lambda>_. None), next_addr = 10, next_tid = 2, create_num = 0,
     pool = mkManagerPool 0 ''s'',
     the_acceptor = \<lparr>is_listen = True, acceptSocket = 8, acceptFiled = 2, acceptLoop = 0, newConnectionCallback = True\<rparr>,
     the_server = demo_server\<rparr>"

lemma demo_name: "conn_name_of (demo_server\<lparr>nextConnId := 1\<rparr>) = ''s-1.2.3.4:80#1''"
  by code_simp

lemma demo_served_inv: "served_inv sim_interest {0} {0, 2} (demo_served st)"
proof -
  have live: "live_of {0, 2} (demo_served st) = {0, 1, 2}"
    by (auto simp: live_of_def demo_served_def demo_conn_def)
  have "registry_inv sim_interest {0} {0, 1, 2} (demo_served st)"
    by (simp add: demo_served_def registry_inv_def filed_ok_def mkFiled_def new_filed_def kNew_def ksim0_def belongs_def inj_on_def)
  then have "process_inv sim_interest {0} {0, 1, 2} (demo_served st)"
    by (simp add: process_inv_def)
      (simp add: demo_served_def demo_conn_def conn_ok_def mkFiled_def new_filed_def demo_buffer isWriting_def)
  moreover have "server_inv (demo_served st)"
    using demo_name
    by (simp add: server_inv_def demo_served_def) (simp add: demo_server_def demo_conn_def exI [of _ "1 :: int"])
  ultimately show ?thesis
    by (simp add: served_inv_def server_ok_def live)
      (simp add: demo_served_def demo_conn_def pool_inv_def getAllLoops_def mkManagerPool_def mkFiled_def new_filed_def inj_on_def)
qed


section \<open>Making and placing a connection\<close>

text \<open>
  C10. \<open>newConnection\<close>: for an accepted descriptor that is in use nowhere else, and unless the ids are used up, the
  server makes one connection, in \<open>kConnecting\<close>, with that descriptor and peer, copies of the server's callbacks and the
  loop \<open>getNextLoop\<close> chooses; its name was in use for no other connection, and it enters the map under that name. Before the
  connection is established, at once on its loop's thread or queued from any other, this is all that changed: the server
  differs in the map and in the next id only, the pool in the next loop only, and among the \<open>Filed\<close>s, connections, loops,
  pollers and the acceptor nothing but the new connection and its new \<open>Filed\<close>. The kernel was asked for the local address
  and to keep the connection alive. The invariant of the process holds with the new connection.
\<close>

theorem new_connection_placed:
  assumes law: "io_laws S itst" and inv: "served_inv itst L base w"
    and fresh: "\<forall>q \<in> live_of base w. filed_fd (filedOf w q) \<noteq> sockfd" and ids: "nextConnId (the_server w) \<noteq> 2147483647"
  shows "\<exists>l c x w'. newConnection S app tid sockfd peer w =
      runinLoop S tid l (TConnectEstablished c) (connectEstablished S app tid c) w' \<and>
    l \<in> set (getAllLoops (pool w)) \<and> conns w c = None \<and> conns w' = (conns w)(c \<mapsto> x) \<and>
    conn_state x = kConnecting \<and> conn_fd x = sockfd \<and> peerAddr x = peer \<and> conn_loop x = l \<and>
    conn_name x = conn_name_of (the_server w) \<and> conn_filed x = c + 1 \<and>
    connectionCallback x = srv_connectionCallback (the_server w) \<and>
    messageCallback x = srv_messageCallback (the_server w) \<and>
    writeCompleteCallback x = srv_writeCompleteCallback (the_server w) \<and> conn_closeCallback x \<noteq> None \<and>
    content (inputBuffer x) = [] \<and> content (outputBuffer x) = [] \<and>
    connections (the_server w) (conn_name x) = None \<and>
    the_server w' = (the_server w)\<lparr>nextConnId := nextConnId (the_server w) + 1,
      connections := (connections (the_server w))(conn_name x \<mapsto> c)\<rparr> \<and>
    getNextLoop (pool w) = Inr (l, pool w') \<and> pool w' = (pool w)\<lparr>nextLoop := nextLoop (pool w')\<rparr> \<and>
    filedOf w' = (filedOf w)(c + 1 := filedOf w' (c + 1)) \<and> filed_fd (filedOf w' (c + 1)) = sockfd \<and>
    filed_loop (filedOf w' (c + 1)) = l \<and> index (filedOf w' (c + 1)) = kNew \<and>
    (\<exists>r a k'. sys_getsockname S sockfd (kern w) = (r, a, k') \<and> kern w' = sys_setsockopt S sockfd SO_KEEPALIVE 1 k' \<and>
       localAddr x = (if r < 0 then \<lparr>sin_family = 0, sin_port = 0, sin_addr = 0\<rparr> else a)) \<and> loopOf w' = loopOf w \<and>
    w' = w\<lparr>kern := kern w', logs := logs w', filedOf := filedOf w', conns := conns w', next_addr := next_addr w + 2,
      pool := pool w', the_server := the_server w'\<rparr> \<and>
    served_inv itst L base w'"
proof -
  note ok = server_okD(2) [OF served_invD(1) [OF inv]]
  let ?c = "next_addr w" and ?s = "the_server w"
  obtain l p where p: "getNextLoop (pool w) = Inr (l, p)"
    using robin.choose_some [OF server_okD(3) [OF served_invD(1) [OF inv]]] by metis
  have loop: "p = (pool w)\<lparr>nextLoop := nextLoop p\<rparr>"
    using p by (auto simp: getNextLoop_def Let_def split: if_splits)
  obtain r a k' where gs: "sys_getsockname S sockfd (kern w) = (r, a, k')" by (metis prod_cases3)
  obtain local where local: "local = (if r < 0 then \<lparr>sin_family = 0, sin_port = 0, sin_addr = 0\<rparr> else a)" by blast
  let ?x = "new_conn ?s l (?c + 1) sockfd local peer"
  obtain v where v: "newConnection_object S sockfd peer w = Inr (l, ?c, v)"
    "kern v = sys_setsockopt S sockfd SO_KEEPALIVE 1 k'" "filedOf v = (filedOf w)(?c + 1 := new_filed l ?c sockfd)"
    "conns v = (conns w)(?c \<mapsto> ?x)" "pool v = p" "next_addr v = ?c + 2"
    "the_server v = ?s\<lparr>nextConnId := nextConnId ?s + 1, connections := (connections ?s)(conn_name_of ?s \<mapsto> ?c)\<rparr>"
    "v = w\<lparr>kern := kern v, logs := logs v, filedOf := filedOf v, conns := conns v, next_addr := next_addr v,
      pool := pool v, the_server := the_server v\<rparr>" "loopOf v = loopOf w"
    using newConnection_object_exact [OF p gs ids refl local, of peer] by blast
  have "l \<in> set (getAllLoops (pool w)) \<and> conns w ?c = None \<and> served_inv itst L base v"
    using served_inv_new [OF law inv _ ids, of sockfd peer] fresh v(1) by auto
  moreover have "conn_state ?x = kConnecting" "conn_fd ?x = sockfd" "peerAddr ?x = peer" "conn_loop ?x = l"
    "conn_name ?x = conn_name_of ?s" "conn_filed ?x = ?c + 1" "connectionCallback ?x = srv_connectionCallback ?s"
    "messageCallback ?x = srv_messageCallback ?s" "writeCompleteCallback ?x = srv_writeCompleteCallback ?s"
    "conn_closeCallback ?x \<noteq> None" "content (inputBuffer ?x) = []" "content (outputBuffer ?x) = []" "localAddr ?x = local"
    by (simp_all add: new_conn_def content_def mkBuffer_def)
  moreover have "filed_fd (new_filed l ?c sockfd) = sockfd" "filed_loop (new_filed l ?c sockfd) = l" "index (new_filed l ?c sockfd) = kNew"
    by (simp_all add: new_filed_def mkFiled_def kNew_def)
  moreover have "newConnection S app tid sockfd peer w =
      runinLoop S tid l (TConnectEstablished ?c) (connectEstablished S app tid ?c) v"
    using v(1) by (simp add: newConnection_def)
  ultimately show ?thesis
    using v(2-7,9) v(8) [unfolded v(6)] loop p gs local conn_name_new [OF ok]
    by (intro exI [of _ l] exI [of _ ?c] exI [of _ ?x] exI [of _ v]) (simp only: fun_upd_same simp_thms, blast)
qed

lemma sim_io_laws: "io_laws sim_sys sim_interest"
  by (rule stream_lawsD(1) [OF sim_stream_laws])

theorem new_connection_placed_witness:
  "\<exists>c x w'. newConnection sim_sys (\<lambda>_ _ _. []) 2 20 \<lparr>sin_family = 2, sin_port = 0, sin_addr = 0\<rparr> (demo_served kConnected) =
     Inr (queueinLoop sim_sys 2 0 (TConnectEstablished c) w') \<and> conns w' c = Some x \<and> conn_fd x = 20"
proof -
  let ?w = "demo_served kConnected"
  have live: "live_of {0, 2} ?w = {0, 1, 2}" by (auto simp: live_of_def demo_served_def demo_conn_def)
  have fresh: "\<forall>q \<in> live_of {0, 2} ?w. filed_fd (filedOf ?w q) \<noteq> 20"
    by (simp add: live) (simp add: demo_served_def mkFiled_def new_filed_def)
  have ids: "nextConnId (the_server ?w) \<noteq> 2147483647" by (simp add: demo_served_def demo_server_def)
  have loop: "threadId (loopOf ?w 0) = 1" by (simp add: demo_served_def)
  from new_connection_placed [OF sim_io_laws demo_served_inv fresh ids, of "\<lambda>_ _ _. []" 2
      "\<lparr>sin_family = 2, sin_port = 0, sin_addr = 0\<rparr>"]
  obtain l c x w' where r: "newConnection sim_sys (\<lambda>_ _ _. []) 2 20 \<lparr>sin_family = 2, sin_port = 0, sin_addr = 0\<rparr> ?w =
      runinLoop sim_sys 2 l (TConnectEstablished c) (connectEstablished sim_sys (\<lambda>_ _ _. []) 2 c) w'"
    "l \<in> set (getAllLoops (pool ?w))" "conns w' c = Some x" "conn_fd x = 20" "loopOf w' = loopOf ?w" by auto
  then have "l = 0" by (simp add: demo_served_def getAllLoops_def mkManagerPool_def)
  have "runinLoop sim_sys 2 0 (TConnectEstablished c) f w' = Inr (queueinLoop sim_sys 2 0 (TConnectEstablished c) w')" for f
    using r(5) loop by (simp add: runinLoop_def isLoopThread_def)
  with r \<open>l = 0\<close> show ?thesis by auto
qed

section \<open>Establishing and unregistering\<close>

text \<open>A \<open>Filed\<close> with events, not yet deleted, is watched with exactly them.\<close>

lemma watched:
  assumes "registry_inv itst L live w" and "fp \<in> live" and "index (filedOf w fp) = kAdded"
  shows "itst (kern w) (epollfd (epollerOf w (filed_loop (filedOf w fp)))) (filed_fd (filedOf w fp)) =
    Some (events (filedOf w fp), fp)"
  using registry_okD [OF assms(1,2)] assms(3) by (auto simp: filed_ok_def Let_def)

lemma reading_not_none: "mask_enableReading e \<noteq> kNoneEvent"
  using mask_test(5) [of e] mask_test(10) by metis

text \<open>
  C20. \<open>connectEstablished\<close> returns to the user only with everything in place: when \<open>connectionCallback_\<close> is called, as
  the last thing, the connection is \<open>kConnected\<close>, its \<open>Filed\<close> is tied to it, the kernel watches its descriptor for
  reading beside whatever it watched before, and the invariant holds; nothing else of any connection has changed.
\<close>

theorem connection_established:
  assumes "io_laws S itst" and "process_inv itst L live w" and "conns w c = Some x" and "conn_state x = kConnecting"
  shows "\<exists>w1. connectEstablished S app tid c w = call_app S app tid (connectionCallback x) (EvConnection c) w1 \<and>
    conns w1 = (conns w)(c \<mapsto> x\<lparr>conn_state := kConnected\<rparr>) \<and>
    tied (filedOf w1 (conn_filed x)) \<and> tie_obj (filedOf w1 (conn_filed x)) = Some c \<and>
    itst (kern w1) (epollfd (epollerOf w (conn_loop x))) (conn_fd x) =
      Some (mask_enableReading (events (filedOf w (conn_filed x))), conn_filed x) \<and>
    process_inv itst L live w1"
proof -
  let ?fp = "conn_filed x" and ?v = "upd_filed (conn_filed x) (tie c) (setState kConnected c w)"
  note pinv = assms(2) and c = assms(3)
  have good: "good itst L live w w" using pinv by (simp add: good_def)
  have fp: "?fp \<in> live" by (rule process_invD(2) [OF pinv c])
  have fd: "filed_fd (filedOf w ?fp) = conn_fd x" "filed_loop (filedOf w ?fp) = conn_loop x"
    using process_invD(3) [OF pinv c] by (simp_all add: conn_ok_def)
  have "registry_inv itst L live (setState kConnected c w)"
    by (rule same_objects_registry [OF _ process_invD(1) [OF pinv]]) (simp add: setState_def)
  then have reg: "registry_inv itst L live ?v"
    by (rule registry_frame) (simp_all add: upd_filed_def same_registration_def tie_def)
  let ?ev = "mask_enableReading (events (filedOf w ?fp))"
  have ev: "events (filedOf ?v ?fp) = events (filedOf w ?fp)" by (simp add: upd_filed_def tie_def setState_def)
  obtain k' where k': "set_mask S ?fp mask_enableReading ?v = Inr (updated ?fp ?ev k' ?v)"
    "registry_inv itst L live (updated ?fp ?ev k' ?v)"
    using set_mask_exact [OF io_lawsD(1) [OF assms(1)] reg fp, of mask_enableReading] unfolding ev by metis
  let ?w = "updated ?fp ?ev k' ?v"
  have eq: "connectEstablished S app tid c w = call_app S app tid (connectionCallback x) (EvConnection c) ?w"
    using c k'(1) by (simp add: connectEstablished_def with_conn_def set_mask_eqs)
  have conns: "conns ?w = (conns w)(c \<mapsto> x\<lparr>conn_state := kConnected\<rparr>)"
    using c by (simp add: updated_def Let_def upd_filed_def setState_def upd_conn_def)
  have filed: "filedOf ?w ?fp = (tie c (filedOf w ?fp))\<lparr>events := ?ev, index := next_index (index (filedOf w ?fp)) ?ev\<rparr>"
    by (simp add: updated_def Let_def upd_filed_def setState_def tie_def)
  have "index (filedOf ?w ?fp) = kAdded" using reading_not_none by (simp add: filed next_index_def)
  from watched [OF k'(2) fp this]
  moreover have "epollfd (epollerOf ?w l) = epollfd (epollerOf w l)" for l
    by (simp add: updated_def Let_def upd_filed_def setState_def)
  ultimately have watch: "itst (kern ?w) (epollfd (epollerOf w (conn_loop x))) (conn_fd x) = Some (?ev, ?fp)"
    using fd by (simp add: filed tie_def)
  have "good itst L live w ?w"
  proof (rule good_step [OF good c k'(2) conns])
    show "conn_forward x (x\<lparr>conn_state := kConnected\<rparr>)" using assms(4) by (simp add: conn_forward_def)
    show "filedOf ?w q = filedOf w q" if "q \<noteq> ?fp" for q
      using that by (simp add: updated_def Let_def upd_filed_def setState_def)
    show "conn_ok ?w (x\<lparr>conn_state := kConnected\<rparr>)"
      using process_invD(3) [OF pinv c] assms(4)
      by (simp add: conn_ok_def filed tie_def isWriting_mask mask_test)
  qed
  with eq conns watch show ?thesis
    by (intro exI [of _ ?w]) (simp add: good_def filed tie_def)
qed

theorem connection_established_witness:
  "\<exists>w1. connectEstablished sim_sys (\<lambda>_ _ _. []) 1 5 (demo_served kConnecting) = Inr w1 \<and>
     sim_interest (kern w1) 3 7 = Some (kReadEvent, 1)"
proof -
  let ?w = "demo_served kConnecting" and ?x = "demo_conn\<lparr>conn_name := ''s-1.2.3.4:80#1'', conn_state := kConnecting\<rparr>"
  have c: "conns ?w 5 = Some ?x" by (simp add: demo_served_def)
  have st: "conn_state ?x = kConnecting" "conn_fd ?x = 7" "conn_filed ?x = 1" "conn_loop ?x = 0"
    "connectionCallback ?x = Some 0" by (simp_all add: demo_conn_def)
  have e: "epollfd (epollerOf ?w 0) = 3" "events (filedOf ?w 1) = 0" "events (filedOf ?w (Suc 0)) = 0"
    by (simp_all add: demo_served_def new_filed_def mkFiled_def)
  from connection_established [OF sim_io_laws served_invD(6) [OF demo_served_inv] c st(1), of "\<lambda>_ _ _. []" 1]
  show ?thesis by (auto simp: st e call_app_def mask_enableReading_def)
qed

text \<open>Marking the connection disconnected and asking for no events: exactly what that gives.\<close>

lemma disconnect_exact:
  assumes law: "io_laws S itst" and inv: "process_inv itst L live w" and c: "conns w c = Some x"
  shows "\<exists>v. disableAll S (conn_filed x) (setState kDisconnected c w) = Inr v \<and> process_inv itst L live v \<and>
    conns v = (conns w)(c \<mapsto> x\<lparr>conn_state := kDisconnected\<rparr>)"
proof -
  have good: "good itst L live w w" using inv by (simp add: good_def)
  have "registry_inv itst L live (setState kDisconnected c w)"
    by (rule same_objects_registry [OF _ process_invD(1) [OF inv]]) (simp add: setState_def)
  from set_mask_exact [OF io_lawsD(1) [OF law] this process_invD(2) [OF inv c], of "\<lambda>_. kNoneEvent"]
  obtain k' where k': "disableAll S (conn_filed x) (setState kDisconnected c w) =
      Inr (updated (conn_filed x) kNoneEvent k' (setState kDisconnected c w))"
    unfolding set_mask_eqs by metis
  with disconnect_keeps [OF law good c] c show ?thesis
    by (simp add: good_def) (simp add: updated_def Let_def setState_def upd_conn_def)
qed

text \<open>Taking the \<open>Filed\<close> of a connection out of its poller.\<close>

lemma remove_exact:
  assumes law: "io_laws S itst" and inv: "process_inv itst L live v" and c: "conns v c = Some y"
  shows "\<exists>w'. Filed_remove S (conn_filed y) v = Inr w' \<and> process_inv itst L live w' \<and> conns w' = conns v \<and>
    index (filedOf w' (conn_filed y)) = kNew \<and> fileds (epollerOf w' (conn_loop y)) (conn_fd y) = None \<and>
    itst (kern w') (epollfd (epollerOf w' (conn_loop y))) (conn_fd y) = None"
proof -
  let ?fp = "conn_filed y"
  have good: "good itst L live v v" using inv by (simp add: good_def)
  have fp: "?fp \<in> live" by (rule process_invD(2) [OF inv c])
  obtain k' where k': "Filed_remove S ?fp v = Inr (removed ?fp k' v)" "registry_inv itst L live (removed ?fp k' v)"
    using Filed_remove_exact [OF io_lawsD(1) [OF law] process_invD(1) [OF inv] fp] by metis
  have f: "filedOf (removed ?fp k' v) ?fp = (filedOf v ?fp)\<lparr>index := kNew\<rparr>" by (simp add: removed_def Let_def)
  have "process_inv itst L live (removed ?fp k' v)"
    using good_remove [OF law good fp] k'(1) by (simp add: good_def)
  moreover have "conns (removed ?fp k' v) = conns v" by (simp add: removed_def Let_def)
  ultimately show ?thesis
    using k'(1) registry_okD [OF k'(2) fp] process_invD(3) [OF inv c]
    by (auto simp: filed_ok_def f conn_ok_def Let_def)
qed

text \<open>
  C19. \<open>connectDestroyed\<close> leaves nothing behind, whatever the user's callback does in between: when it returns, the
  connection is not connected, neither the poller's map nor the kernel's interest list knows its descriptor, its
  \<open>Filed\<close> is new again, and the invariant holds. It ends the process on no path.
\<close>

theorem connection_unregistered:
  assumes law: "io_laws S itst" and inv: "process_inv itst L live w" and c: "conns w c = Some x"
  shows "outcome not_fatal (\<lambda>w'. process_inv itst L live w' \<and> index (filedOf w' (conn_filed x)) = kNew \<and>
      fileds (epollerOf w' (conn_loop x)) (conn_fd x) = None \<and>
      itst (kern w') (epollfd (epollerOf w' (conn_loop x))) (conn_fd x) = None \<and>
      (\<exists>y. conns w' c = Some y \<and> conn_name y = conn_name x \<and> conn_state y \<noteq> kConnected))
    (connectDestroyed S app tid c w)"
proof -
  have "outcome not_fatal (\<lambda>v. process_inv itst L live v \<and>
        (\<exists>y. conns v c = Some y \<and> conn_forward x y \<and> conn_state y \<noteq> kConnected))
      (if conn_state x = kConnected
       then bindE (disableAll S (conn_filed x) (setState kDisconnected c w)) (\<lambda>w.
         call_app S app tid (connectionCallback x) (EvConnection c) w)
       else Inr w)"
  proof (cases "conn_state x = kConnected")
    case False
    with inv c show ?thesis by auto
  next
    case True
    obtain v where v: "disableAll S (conn_filed x) (setState kDisconnected c w) = Inr v" "process_inv itst L live v"
      "conns v = (conns w)(c \<mapsto> x\<lparr>conn_state := kDisconnected\<rparr>)"
      using disconnect_exact [OF law inv c] by blast
    have "good itst L live v v" using v(2) by (simp add: good_def)
    from call_app_keeps [OF law this, of app tid "connectionCallback x" "EvConnection c"]
    have "outcome not_fatal (\<lambda>u. process_inv itst L live u \<and>
        (\<exists>y. conns u c = Some y \<and> conn_forward x y \<and> conn_state y \<noteq> kConnected))
        (call_app S app tid (connectionCallback x) (EvConnection c) v)"
    proof (rule outcome_weaken)
      fix u
      assume u: "good itst L live v u"
      obtain y where y: "conns u c = Some y" "conn_forward (x\<lparr>conn_state := kDisconnected\<rparr>) y"
        using forwardD [OF goodD(3) [OF u], of c] v(3) by auto
      then have "conn_state y \<noteq> kConnected" by (auto simp: conn_forward_def)
      moreover have "conn_forward x y" using y(2) True by (simp add: conn_forward_def)
      ultimately show "process_inv itst L live u \<and>
          (\<exists>y. conns u c = Some y \<and> conn_forward x y \<and> conn_state y \<noteq> kConnected)"
        using goodD(1) [OF u] y(1) by blast
    qed
    with True v(1) show ?thesis by simp
  qed
  then show ?thesis
    unfolding connectDestroyed_def with_conn_def c option.case
  proof (rule outcome_bind, elim conjE exE)
    fix v y
    assume v: "process_inv itst L live v" and y: "conns v c = Some y" "conn_forward x y" "conn_state y \<noteq> kConnected"
    then show "outcome not_fatal (\<lambda>w'. process_inv itst L live w' \<and> index (filedOf w' (conn_filed x)) = kNew \<and>
        fileds (epollerOf w' (conn_loop x)) (conn_fd x) = None \<and>
        itst (kern w') (epollfd (epollerOf w' (conn_loop x))) (conn_fd x) = None \<and>
        (\<exists>y. conns w' c = Some y \<and> conn_name y = conn_name x \<and> conn_state y \<noteq> kConnected)) (Filed_remove S (conn_filed x) v)"
      using remove_exact [OF law v y(1)] by (auto simp: conn_forward_def)
  qed
qed

theorem connection_unregistered_witness:
  "\<exists>w'. connectDestroyed sim_sys (\<lambda>_ _ _. []) 1 5 (demo_served kConnected) = Inr w' \<and> index (filedOf w' 1) = kNew"
proof -
  let ?w = "demo_served kConnected" and ?x = "demo_conn\<lparr>conn_name := ''s-1.2.3.4:80#1'', conn_state := kConnected\<rparr>"
  have c: "conns ?w 5 = Some ?x" by (simp add: demo_served_def)
  note out = connection_unregistered [OF sim_io_laws served_invD(6) [OF demo_served_inv] c, of "\<lambda>_ _ _. []" 1]
  obtain v where v: "disableAll sim_sys (conn_filed ?x) (setState kDisconnected 5 ?w) = Inr v"
    "process_inv sim_interest {0} (live_of {0, 2} ?w) v" "conns v 5 = Some (?x\<lparr>conn_state := kDisconnected\<rparr>)"
    using disconnect_exact [OF sim_io_laws served_invD(6) [OF demo_served_inv] c] by auto
  from remove_exact [OF sim_io_laws v(2,3)] obtain w' where "Filed_remove sim_sys (conn_filed ?x) v = Inr w'" by auto
  with v(1) c have "connectDestroyed sim_sys (\<lambda>_ _ _. []) 1 5 ?w = Inr w'"
    by (simp add: connectDestroyed_def with_conn_def call_app_def demo_conn_def)
  with out show ?thesis by (simp add: demo_conn_def)
qed

section \<open>Taking a connection out\<close>

text \<open>
  C21. Removing a closed connection takes two hops. From another thread \<open>removeConnection\<close> only queues the rest on the
  server's loop. There \<open>removeConnectionInLoop\<close> takes exactly the entry of this connection out of the map, so that
  the map no longer refers to it under any name, and queues its destruction as the last function of its own loop;
  no connection object changes, no other loop does, and the invariant holds.
\<close>

theorem removal_in_two_hops:
  assumes law: "io_laws S itst" and inv: "served_inv itst L base w" and c: "conns w c = Some x"
  shows "\<exists>w'. removeConnection S tid h c w =
      (if isLoopThread tid (srv_loop (the_server w)) w then Inr w'
       else Inr (queueinLoop S tid (srv_loop (the_server w)) (TRemoveConnection c) w)) \<and>
    server_task S app tid (TRemoveConnection c) w = Inr w' \<and>
    connections (the_server w') = (connections (the_server w))(conn_name x := None) \<and>
    (\<forall>nm. connections (the_server w') nm \<noteq> Some c) \<and> conns w' = conns w \<and>
    pendFuncs (loopOf w' (conn_loop x)) = pendFuncs (loopOf w (conn_loop x)) @ [TConnectDestroyed c] \<and>
    (\<forall>l. l \<noteq> conn_loop x \<longrightarrow> loopOf w' l = loopOf w l) \<and> served_inv itst L base w'"
proof -
  let ?v = "upd_server (\<lambda>s. s\<lparr>connections := (connections s)(conn_name x := None)\<rparr>) w"
  let ?w = "queueinLoop S tid (conn_loop x) (TConnectDestroyed c) ?v"
  have r: "removeConnectionInLoop S tid c w = Inr ?w"
    using c by (simp add: removeConnectionInLoop_def with_conn_def Let_def)
  have "the_server ?w = the_server ?v"
    using leaves_srv [OF queueinLoop_leaves [OF leaves_refl], of ?v S tid "conn_loop x" "TConnectDestroyed c"]
      served_more [OF leaves_more [OF queueinLoop_leaves [OF leaves_refl]], of S tid "conn_loop x" "TConnectDestroyed c" ?v]
    by simp
  then have m: "connections (the_server ?w) = (connections (the_server w))(conn_name x := None)"
    by (simp add: upd_server_def)
  moreover have "connections (the_server w) nm = Some c \<Longrightarrow> nm = conn_name x" for nm
    using server_invD(4) [OF server_okD(2) [OF served_invD(1) [OF inv]]] c by fastforce
  moreover have "conns ?w = conns w"
    using queueinLoop_frame(2) [OF io_lawsD(2) [OF law], where w = ?v] by simp
  moreover have "pendFuncs (loopOf ?w (conn_loop x)) = pendFuncs (loopOf w (conn_loop x)) @ [TConnectDestroyed c]"
    "\<forall>l. l \<noteq> conn_loop x \<longrightarrow> loopOf ?w l = loopOf w l"
    by (simp_all add: queueinLoop_def wake_after_post_def post_func_def wakeup_def upd_loop_def log_line_def
        upd_server_def Let_def split: prod.split)
  moreover have "served_inv itst L base ?w"
    using served_outcome [OF inv removeConnectionInLoop_keeps [OF law served_invD(5) [OF inv]]
        removeConnectionInLoop_stays, of tid c] r by simp
  ultimately show ?thesis
    using r by (intro exI [of _ ?w]) (auto simp: removeConnection_def runinLoop_def server_task_def)
qed

theorem removal_in_two_hops_witness:
  "\<exists>w'. removeConnection sim_sys 1 0 5 (demo_served kDisconnected) = Inr w' \<and>
     connections (the_server w') = Map.empty \<and> pendFuncs (loopOf w' 0) = [TConnectDestroyed 5]"
proof -
  let ?w = "demo_served kDisconnected" and ?x = "demo_conn\<lparr>conn_name := ''s-1.2.3.4:80#1'', conn_state := kDisconnected\<rparr>"
  have c: "conns ?w 5 = Some ?x" by (simp add: demo_served_def)
  have "isLoopThread 1 (srv_loop (the_server ?w)) ?w" "pendFuncs (loopOf ?w 0) = []" "conn_loop ?x = 0"
    "(connections (the_server ?w))(conn_name ?x := None) = Map.empty"
    by (simp_all add: demo_served_def demo_server_def isLoopThread_def demo_conn_def)
  with removal_in_two_hops [OF sim_io_laws demo_served_inv c, of 1 0 "\<lambda>_ _ _. []"] show ?thesis by auto
qed

end
