(* ===== verification/ServerStart.thy ===== *)
theory ServerStart
  imports ServerProps
begin

text \<open>
  The beginning of a server: the constructor establishes the invariant that \<open>system_safe\<close> carries through every run.
\<close>

section \<open>The constructor\<close>

lemma Socket_opts_frame [simp]:
  "filedOf (Socket_setopt S fd opt on v) = filedOf v" "epollerOf (Socket_setopt S fd opt on v) = epollerOf v"
  "machine.more (Socket_setopt S fd opt on v) = machine.more v"
  "kern (Socket_setopt S fd opt on v) = sys_setsockopt S fd opt (if on then 1 else 0) (kern v)"
  by (simp_all add: Socket_setopt_def)

text \<open>Exactly what the constructor does to the process, when the system calls succeed.\<close>

lemma mkServer_exact:
  fixes w :: "('k, 'z) served_scheme"
  assumes sock: "sys_socket S (kern w) = (fd, k1)" "0 \<le> fd" and ip: "toIpPort addr = Inr s"
    and bind: "sys_bind S fd addr (sys_setsockopt S fd SO_REUSEPORT 1 (sys_setsockopt S fd SO_REUSEADDR 1 k1)) = (r, k2)"
  shows "mkServer S (Some l) addr nm opt w =
    (if r \<noteq> 0 then Inl ExitFailure
     else Inr (w\<lparr>kern := k2, next_addr := next_addr w + 1,
       filedOf := (filedOf w)(next_addr w := setReadCallback HAcceptRead (mkFiled l fd)),
       pool := mkManagerPool l nm,
       the_acceptor := \<lparr>is_listen = False, acceptSocket = fd, acceptFiled = next_addr w, acceptLoop = l,
         newConnectionCallback = True\<rparr>,
       the_server := \<lparr>srv_loop = l, ipPort = s, srv_name = nm, started_count = 0, nextConnId = 1,
         srv_connectionCallback = None, srv_messageCallback = None, srv_writeCompleteCallback = None,
         threadInitCallback = None, connections = Map.empty\<rparr>\<rparr>))"
  using assms
  by (simp add: mkServer_def CheckLoopNotNull_def mkAcceptor_def createNonblockFd_def Socket_bindAddress_def
      setReuseAddr_def setReusePort_def upd_server_def upd_acceptor_def upd_pool_def upd_filed_def
      setNewConnectionCallback_def Socket_setopt_def Let_def)

text \<open>A call the constructor makes can fail.\<close>

definition socket_calls_fail :: "'k sys \<Rightarrow> bool" where
  "socket_calls_fail S \<longleftrightarrow> (\<exists>k. fst (sys_socket S k) < 0) \<or> (\<exists>fd a k. fst (sys_bind S fd a k) \<noteq> 0)"

lemma socket_calls_failI:
  "sys_socket S k = (n, k') \<Longrightarrow> n < 0 \<Longrightarrow> socket_calls_fail S" "sys_bind S fd a k = (m, k') \<Longrightarrow> m \<noteq> 0 \<Longrightarrow> socket_calls_fail S"
  unfolding socket_calls_fail_def by (metis fst_conv)+

lemma mkServer_outcome:
  assumes law: "interest_frame S itst" "socket_frame S itst" and reg: "registry_inv itst L base w"
    and none: "conns w = Map.empty" and addrs: "base \<subseteq> {..<next_addr w}"
    and fds: "inj_on (\<lambda>q. filed_fd (filedOf w q)) base" and l: "\<And>m. loop = Some m \<Longrightarrow> m \<in> L"
    and fresh: "\<And>n k. sys_socket S (kern w) = (n, k) \<Longrightarrow> 0 \<le> n \<Longrightarrow> \<forall>q \<in> base. filed_fd (filedOf w q) \<noteq> n"
  shows "outcome (\<lambda>e. e = ExitFailure \<and> (loop = None \<or> socket_calls_fail S))
    (\<lambda>w'. served_inv itst L (insert (next_addr w) base) w' \<and> acceptFiled (the_acceptor w') = next_addr w \<and>
       index (filedOf w' (next_addr w)) = kNew \<and> newConnectionCallback (the_acceptor w') \<and>
       connections (the_server w') = Map.empty \<and> nextConnId (the_server w') = 1 \<and>
       (\<exists>l. loop = Some l \<and> pool w' = mkManagerPool l nm \<and> srv_loop (the_server w') = l) \<and>
       threadInitCallback (the_server w') = None \<and> started_count (the_server w') = 0 \<and>
       conns w' = Map.empty \<and> next_addr w' = next_addr w + 1 \<and> next_tid w' = next_tid w \<and> loopOf w' = loopOf w \<and>
       loopInThread w' = loopInThread w \<and> (\<forall>q. q \<noteq> next_addr w \<longrightarrow> filedOf w' q = filedOf w q) \<and> epollerOf w' = epollerOf w \<and>
       (\<exists>fd k1 a r. sys_socket S (kern w) = (fd, k1) \<and> 0 \<le> fd \<and> filedOf w' (next_addr w) = setReadCallback HAcceptRead (mkFiled (the loop) fd) \<and>
          sys_bind S fd a (sys_setsockopt S fd SO_REUSEPORT 1 (sys_setsockopt S fd SO_REUSEADDR 1 k1)) = (r, kern w')))
    (mkServer S loop addr nm opt w)"
proof (cases loop)
  case None
  then show ?thesis by (simp add: mkServer_def CheckLoopNotNull_def)
next
  case (Some l)
  obtain fd k1 where sock: "sys_socket S (kern w) = (fd, k1)" by fastforce
  obtain s where s: "toIpPort addr = Inr s" "length s \<le> 21" using toIpPort_eq toIpPort_length by blast
  show ?thesis
  proof (cases "0 \<le> fd")
    case False
    with sock s Some socket_calls_failI(1) [OF sock] show ?thesis
      by (simp add: mkServer_def CheckLoopNotNull_def mkAcceptor_def createNonblockFd_def upd_server_def Let_def)
  next
    case True
    let ?k = "sys_setsockopt S fd SO_REUSEPORT 1 (sys_setsockopt S fd SO_REUSEADDR 1 k1)"
    obtain r k2 where bind: "sys_bind S fd addr ?k = (r, k2)" by fastforce
    note eq = mkServer_exact [OF sock True s(1) bind, of l nm opt]
    show ?thesis
    proof (cases "r = 0")
      case False
      with eq Some socket_calls_failI(2) [OF bind] show ?thesis by simp
    next
      case r: True
      let ?fp = "next_addr w"
      let ?srv = "\<lparr>srv_loop = l, ipPort = s, srv_name = nm, started_count = 0, nextConnId = 1,
         srv_connectionCallback = None, srv_messageCallback = None, srv_writeCompleteCallback = None,
         threadInitCallback = None, connections = Map.empty\<rparr>"
      obtain w' where eq': "mkServer S loop addr nm opt w = Inr w'"
        and w': "kern w' = k2" "next_tid w' = next_tid w" "loopOf w' = loopOf w" "loopInThread w' = loopInThread w" "next_addr w' = ?fp + 1" "epollerOf w' = epollerOf w" "conns w' = conns w"
          "filedOf w' = (filedOf w)(?fp := setReadCallback HAcceptRead (mkFiled l fd))"
          "pool w' = mkManagerPool l nm" "acceptFiled (the_acceptor w') = ?fp"
          "newConnectionCallback (the_acceptor w')" "the_server w' = ?srv"
        using eq r Some by simp
      have k: "itst k2 = itst (kern w)"
        using socket_frameD [OF law(2)] sock bind interest_frameD(6) [OF law(1)] by metis
      have fp: "?fp \<notin> base" using addrs by auto
      have lL: "l \<in> L" using assms(7) Some by simp
      have fd: "\<forall>q \<in> base. filed_fd (filedOf w q) \<noteq> fd" using fresh sock True by blast
      have "registry_inv itst L base w'"
        by (rule registry_outside [OF reg fp]) (simp_all add: k w')
      then have reg': "registry_inv itst L (insert ?fp base) w'"
        by (rule registry_insert) (use lL fd fp w' in \<open>auto simp: setReadCallback_def mkFiled_def kNew_def\<close>)
      have live: "live_of (insert ?fp base) w' = insert ?fp base" using none w' by (simp add: live_of_def)
      have "process_inv itst L (insert ?fp base) w'" using reg' none w' by (simp add: process_inv_def)
      moreover have "server_inv w'" using s(2) w' by (simp add: server_inv_def)
      moreover have "pool_inv (pool w')" "getAllLoops (pool w') = [l]"
        using w' by (simp_all add: pool_inv_def mkManagerPool_def getAllLoops_def)
      ultimately have "server_ok itst L (insert ?fp base) w'"
        using none addrs lL w' by (auto simp: server_ok_def)
      moreover have "inj_on (\<lambda>q. filed_fd (filedOf w' q)) (insert ?fp base)"
        using fds fd fp w' by (auto simp: inj_on_def setReadCallback_def mkFiled_def)
      ultimately have "served_inv itst L (insert ?fp base) w'"
        using none w' by (simp add: served_inv_def live)
      with eq' w' none sock bind True Some show ?thesis by (auto simp: setReadCallback_def mkFiled_def kNew_def)
    qed
  qed
qed

text \<open>
  C13. The constructor of \<open>Server\<close> ends the process with a fatal line exactly when the loop is null, \<open>socket\<close> fails or
  \<open>bind\<close>, called after the two options were set, fails. Otherwise it returns: the whole invariant holds with the acceptor's
  \<open>Filed\<close> live and new, reading with \<open>handleRead\<close> on the socket, which does not listen yet; there is no connection, the first
  id is 1, the pool has no thread, the callback for new connections is set, and nothing else of the process changed. It
  needs a registry in agreement for the loops there are, no connections yet, and a descriptor from \<open>socket\<close> that no live
  \<open>Filed\<close> has.
\<close>

theorem server_constructed:
  fixes w :: "('k, 'z) served_scheme"
  assumes law: "interest_frame S itst" "socket_frame S itst" and reg: "registry_inv itst L base w"
    and none: "conns w = Map.empty" and addrs: "base \<subseteq> {..<next_addr w}"
    and fds: "inj_on (\<lambda>q. filed_fd (filedOf w q)) base" and l: "\<And>m. loop = Some m \<Longrightarrow> m \<in> L"
    and sock: "sys_socket S (kern w) = (fd, k1)" and fresh: "0 \<le> fd \<Longrightarrow> \<forall>q \<in> base. filed_fd (filedOf w q) \<noteq> fd"
    and bind: "sys_bind S fd addr (sys_setsockopt S fd SO_REUSEPORT 1 (sys_setsockopt S fd SO_REUSEADDR 1 k1)) = (r, k2)"
  shows "if loop = None \<or> fd < 0 \<or> r \<noteq> 0 then mkServer S loop addr nm opt w = Inl ExitFailure
    else \<exists>w'. mkServer S loop addr nm opt w = Inr w' \<and>
       served_inv itst L (insert (next_addr w) base) w' \<and>
       the_acceptor w' = \<lparr>is_listen = False, acceptSocket = fd, acceptFiled = next_addr w, acceptLoop = the loop,
         newConnectionCallback = True\<rparr> \<and>
       filedOf w' = (filedOf w)(next_addr w := setReadCallback HAcceptRead (mkFiled (the loop) fd)) \<and>
       index (filedOf w' (next_addr w)) = kNew \<and> pool w' = mkManagerPool (the loop) nm \<and>
       srv_loop (the_server w') = the loop \<and> srv_name (the_server w') = nm \<and> started_count (the_server w') = 0 \<and>
       connections (the_server w') = Map.empty \<and> nextConnId (the_server w') = 1 \<and>
       w' = w\<lparr>kern := k2, next_addr := next_addr w + 1, filedOf := filedOf w', pool := pool w',
         the_acceptor := the_acceptor w', the_server := the_server w'\<rparr>"
proof -
  obtain s where s: "toIpPort addr = Inr s" using toIpPort_eq by blast
  have out: "outcome (\<lambda>_. True) (served_inv itst L (insert (next_addr w) base)) (mkServer S loop addr nm opt w)"
  proof (rule outcome_mono [OF mkServer_outcome [OF law reg none addrs fds]])
    show "m \<in> L" if "loop = Some m" for m by (rule l [OF that])
    show "\<forall>q \<in> base. filed_fd (filedOf w q) \<noteq> n" if "sys_socket S (kern w) = (n, k)" "0 \<le> n" for n k
      using fresh sock that by simp
  qed simp_all
  show ?thesis
  proof (cases "loop = None \<or> fd < 0")
    case True
    then show ?thesis
      using sock s by (cases loop) (simp_all add: mkServer_def CheckLoopNotNull_def mkAcceptor_def createNonblockFd_def
        upd_server_def Let_def)
  next
    case False
    then obtain m where "loop = Some m" "0 \<le> fd" by auto
    moreover have "index (setReadCallback HAcceptRead (mkFiled m fd)) = kNew" by (simp add: setReadCallback_def mkFiled_def kNew_def)
    moreover note mkServer_exact [OF sock \<open>0 \<le> fd\<close> s bind, of m nm opt]
    ultimately show ?thesis using out by (cases "r = 0") simp_all
  qed
qed

theorem server_constructed_witness:
  "\<exists>w'. mkServer sim_sys (Some 0) default_address ''s'' kNoReusePort ((demo_served kConnected)\<lparr>conns := Map.empty\<rparr>) = Inr w' \<and>
     served_inv sim_interest {0} {0, 10} w' \<and> nextConnId (the_server w') = 1"
proof -
  let ?w = "(demo_served kConnected)\<lparr>conns := Map.empty\<rparr>"
  have reg: "registry_inv sim_interest {0} {0} ?w"
    by (simp add: demo_served_def registry_inv_def filed_ok_def mkFiled_def kNew_def ksim0_def belongs_def)
  have w: "next_addr ?w = 10" "conns ?w = Map.empty" "{0} \<subseteq> {..<next_addr ?w}" by (simp_all add: demo_served_def)
  obtain fd k1 where sock: "sys_socket sim_sys (kern ?w) = (fd, k1)" by fastforce
  have fd: "\<not> fd < 0" "\<forall>q \<in> {0}. filed_fd (filedOf ?w q) \<noteq> fd"
    using sock by (simp_all add: demo_served_def sim_sys_def sim_fresh_def mkFiled_def)
  have bind: "sys_bind sim_sys fd default_address (sys_setsockopt sim_sys fd SO_REUSEPORT 1 (sys_setsockopt sim_sys fd SO_REUSEADDR 1 k1)) = (0, k1)"
    by (simp add: sim_sys_def)
  show ?thesis
    using server_constructed [OF sim_interest_frame sim_socket_frame reg w(2,3) _ _ sock _ bind, of "Some 0" "''s''" kNoReusePort] fd w(1)
    by (auto simp: insert_commute)
qed

end
