(* ===== verification/LoopFrame.thy ===== *)
theory LoopFrame
  imports ProcessFrame
begin

text \<open>
  What the operations on connections do to the loops, to the kernel's open descriptors and to other objects: they
  append functions to queues and may set \<open>quit_\<close>; they open and close nothing; a connection that is not yet
  established and every \<open>Filed\<close> that belongs to no established connection stay as they are.
\<close>

section \<open>The relation\<close>

text \<open>
  What an operation has to respect: the connections that are idle, which wait to be established or are closed for
  good, the \<open>Filed\<close>s it must not touch, the \<open>Filed\<close>s it may unregister, the connections it may disconnect, and the loop
  of each connection.
\<close>

record scope =
  sc_idle :: "nat set"
  sc_fixed :: "nat set"
  sc_gone :: "nat set"
  sc_closing :: "nat set"
  sc_home :: "nat \<Rightarrow> nat option"

text \<open>The functions that may be appended to the queue of the loop \<open>l\<close>.\<close>

definition light :: "scope \<Rightarrow> nat \<Rightarrow> task \<Rightarrow> bool" where
  "light X l t \<longleftrightarrow> (case t of
       TConnectEstablished c \<Rightarrow> False
     | TSendInLoop c a n \<Rightarrow> c \<notin> sc_idle X \<and> sc_home X c \<noteq> None
     | TRemoveConnection c \<Rightarrow> sc_home X c \<noteq> None
     | TConnectDestroyed c \<Rightarrow> sc_home X c = Some l \<and> c \<in> sc_closing X
     | _ \<Rightarrow> True)"

definition queue_grows :: "scope \<Rightarrow> nat \<Rightarrow> event_loop \<Rightarrow> event_loop \<Rightarrow> bool" where
  "queue_grows X l e e' \<longleftrightarrow> looping e' = looping e \<and> threadId e' = threadId e \<and> wakeupFd e' = wakeupFd e \<and>
     wakeupFiled e' = wakeupFiled e \<and> activeFileds e' = activeFileds e \<and> isCallPendFunc e' = isCallPendFunc e \<and>
     (quit e \<longrightarrow> quit e') \<and> (\<exists>ts. pendFuncs e' = pendFuncs e @ ts \<and> (\<forall>t \<in> set ts. light X l t))"

lemma queue_grows_refl [simp]: "queue_grows X l e e"
  by (simp add: queue_grows_def)

lemma queue_grows_trans: "queue_grows X l e f \<Longrightarrow> queue_grows X l f g \<Longrightarrow> queue_grows X l e g"
  unfolding queue_grows_def by (elim conjE exE, intro conjI) (auto simp: ball_Un)

text \<open>The state is as the scope says.\<close>

definition frozen :: "scope \<Rightarrow> ('k, 'z) process_scheme \<Rightarrow> bool" where
  "frozen X w \<longleftrightarrow> (\<forall>c. sc_home X c = map_option conn_loop (conns w c)) \<and>
     (\<forall>c x. conns w c = Some x \<longrightarrow> (if c \<in> sc_idle X then conn_state x = kConnecting \<or> conn_state x = kDisconnected
       else conn_filed x \<notin> sc_fixed X))"

definition kept_conn :: "scope \<Rightarrow> nat \<Rightarrow> connection \<Rightarrow> connection \<Rightarrow> bool" where
  "kept_conn X c x y \<longleftrightarrow> conn_filed y = conn_filed x \<and> conn_loop y = conn_loop x \<and> conn_name y = conn_name x \<and>
     (c \<in> sc_idle X \<longrightarrow> conn_state y = conn_state x) \<and>
     (conn_state x = kDisconnected \<longrightarrow> conn_state y = kDisconnected) \<and>
     (conn_state y = kDisconnected \<longrightarrow> conn_state x = kDisconnected \<or> c \<in> sc_closing X)"

text \<open>The removal of a connection is only queued when it is disconnected.\<close>

definition settled :: "('k, 'z) process_scheme \<Rightarrow> task \<Rightarrow> bool" where
  "settled w t \<longleftrightarrow> (\<forall>c x. t = TRemoveConnection c \<or> t = TConnectDestroyed c \<longrightarrow> conns w c = Some x \<longrightarrow>
     conn_state x = kDisconnected)"

lemma settled_simps [simp]:
  "settled w (TWriteComplete h c)" "settled w (THighWaterMark h c n)" "settled w (TUser i)" "settled w TListen"
  "settled w (TShutdownInLoop c)" "settled w (TSendInLoop c a n)"
  "settled w (TRemoveConnection c) \<longleftrightarrow> (\<forall>x. conns w c = Some x \<longrightarrow> conn_state x = kDisconnected)"
  "settled w (TConnectDestroyed c) \<longleftrightarrow> (\<forall>x. conns w c = Some x \<longrightarrow> conn_state x = kDisconnected)"
  by (simp_all add: settled_def)

lemma settled_same: "conns v = conns w \<Longrightarrow> settled v t = settled w t"
  by (simp add: settled_def)

definition onward :: "scope \<Rightarrow> ('k \<Rightarrow> 'o) \<Rightarrow> ('k, 'z) process_scheme \<Rightarrow> ('k, 'z) process_scheme \<Rightarrow> bool" where
  "onward X obs w w' \<longleftrightarrow> obs (kern w') = obs (kern w) \<and> (\<forall>l. queue_grows X l (loopOf w l) (loopOf w' l)) \<and>
     loopInThread w' = loopInThread w \<and> (\<forall>l. epollfd (epollerOf w' l) = epollfd (epollerOf w l)) \<and>
     (\<forall>q \<in> sc_fixed X. filedOf w' q = filedOf w q) \<and>
     (\<forall>q. q \<notin> sc_gone X \<longrightarrow> index (filedOf w q) \<noteq> kNew \<longrightarrow> index (filedOf w' q) \<noteq> kNew) \<and>
     (\<forall>c. rel_option (kept_conn X c) (conns w c) (conns w' c)) \<and>
     (\<forall>l. \<forall>t \<in> set (pendFuncs (loopOf w' l)). t \<in> set (pendFuncs (loopOf w l)) \<or> settled w' t)"

lemma kept_conn_refl [simp]: "kept_conn X c x x"
  by (simp add: kept_conn_def)

lemma conns_refl [simp]: "rel_option (kept_conn X c) o' o'"
  by (rule option.rel_refl) simp

lemma conns_trans: "rel_option (kept_conn X c) p q \<Longrightarrow> rel_option (kept_conn X c) q r \<Longrightarrow> rel_option (kept_conn X c) p r"
  by (cases p; cases q; cases r) (auto simp: kept_conn_def)

lemma settled_kept:
  assumes "settled v t" and "\<And>c. rel_option (kept_conn X c) (conns v c) (conns w c)"
  shows "settled w t"
proof -
  have "conn_state y = kDisconnected"
    if "conns w c = Some y" "\<And>x. conns v c = Some x \<Longrightarrow> conn_state x = kDisconnected" for c y
    using assms(2) [of c] that by (auto simp: option_rel_Some2 kept_conn_def)
  with assms(1) show ?thesis unfolding settled_def by blast
qed

lemma onward_refl [simp]: "onward X obs w w"
  by (simp add: onward_def)

lemma onward_trans:
  assumes "onward X obs u v" and "onward X obs v w"
  shows "onward X obs u w"
proof -
  have q: "queue_grows X l (loopOf u l) (loopOf w l)" for l
    using assms queue_grows_trans unfolding onward_def by blast
  have c: "rel_option (kept_conn X c) (conns u c) (conns w c)" for c
    using assms conns_trans unfolding onward_def by blast
  have "settled w t" if "settled v t" for t
    by (rule settled_kept [where X = X, OF that]) (use assms(2) in \<open>simp add: onward_def\<close>)
  then have "t \<in> set (pendFuncs (loopOf u l)) \<or> settled w t" if "t \<in> set (pendFuncs (loopOf w l))" for l t
    using that assms unfolding onward_def by blast
  with q c assms show ?thesis unfolding onward_def by (elim conjE, intro conjI) simp_all
qed

lemma onwardD:
  assumes "onward X obs w w'"
  shows "obs (kern w') = obs (kern w)" and "queue_grows X l (loopOf w l) (loopOf w' l)"
    and "q \<in> sc_fixed X \<Longrightarrow> filedOf w' q = filedOf w q"
    and "q \<notin> sc_gone X \<Longrightarrow> index (filedOf w q) \<noteq> kNew \<Longrightarrow> index (filedOf w' q) \<noteq> kNew"
    and "rel_option (kept_conn X c) (conns w c) (conns w' c)"
    and "epollfd (epollerOf w' l) = epollfd (epollerOf w l)"
    and "t \<in> set (pendFuncs (loopOf w' l)) \<Longrightarrow> t \<in> set (pendFuncs (loopOf w l)) \<or> settled w' t"
  using assms unfolding onward_def by blast+

lemma frozen_onward:
  assumes f: "frozen X w" and o: "onward X obs w v"
  shows "frozen X v"
proof -
  have "sc_home X c = map_option conn_loop (conns v c)" for c
    using f onwardD(5) [OF o, of c] by (cases "conns w c"; cases "conns v c") (auto simp: frozen_def kept_conn_def)
  moreover have "if c \<in> sc_idle X then conn_state y = kConnecting \<or> conn_state y = kDisconnected else conn_filed y \<notin> sc_fixed X" if y: "conns v c = Some y" for c y
  proof -
    obtain x where "conns w c = Some x" "kept_conn X c x y"
      using onwardD(5) [OF o, of c] y by (auto simp: option_rel_Some2)
    with f show ?thesis by (auto simp: frozen_def kept_conn_def split: if_splits)
  qed
  ultimately show ?thesis by (auto simp: frozen_def)
qed

lemma settled_onward: "settled v t \<Longrightarrow> onward X obs v w \<Longrightarrow> settled w t"
  by (rule settled_kept) (auto dest: onwardD(5))

lemma frozenD:
  assumes "frozen X w" and "conns w c = Some x"
  shows "c \<notin> sc_idle X \<Longrightarrow> conn_filed x \<notin> sc_fixed X" and "c \<in> sc_idle X \<Longrightarrow> conn_state x = kConnecting \<or> conn_state x = kDisconnected"
    and "sc_home X c = Some (conn_loop x)"
  using assms by (auto simp: frozen_def split: if_splits)

text \<open>The scope without connections to establish, seen from a state.\<close>

definition calm :: "nat set \<Rightarrow> ('k, 'z) process_scheme \<Rightarrow> scope" where
  "calm F w = \<lparr>sc_idle = {}, sc_fixed = F, sc_gone = {}, sc_closing = {},
     sc_home = (\<lambda>c. map_option conn_loop (conns w c))\<rparr>"

lemma frozen_calm: "(\<And>c x. conns w c = Some x \<Longrightarrow> conn_filed x \<notin> F) \<Longrightarrow> frozen (calm F w) w"
  by (simp add: frozen_def calm_def)

lemma onward_same:
  "obs (kern v') = obs (kern v) \<Longrightarrow> loopOf v' = loopOf v \<Longrightarrow> loopInThread v' = loopInThread v \<Longrightarrow>
     (\<And>l. epollfd (epollerOf v' l) = epollfd (epollerOf v l)) \<Longrightarrow> filedOf v' = filedOf v \<Longrightarrow> conns v' = conns v \<Longrightarrow>
     onward X obs w v' \<longleftrightarrow> onward X obs w v"
  by (simp add: onward_def settled_same [of v' v])

lemma onward_upd [simp]:
  "onward X obs w (log_line lv m v) \<longleftrightarrow> onward X obs w v" "onward X obs w (v\<lparr>strings := sm\<rparr>) \<longleftrightarrow> onward X obs w v"
  by (rule onward_same; simp add: log_line_def)+

lemma onward_kern: "obs k = obs (kern v) \<Longrightarrow> onward X obs w (v\<lparr>kern := k\<rparr>) \<longleftrightarrow> onward X obs w v"
  by (rule onward_same) simp_all

lemma onward_epoller:
  "epollfd (g (epollerOf v l)) = epollfd (epollerOf v l) \<Longrightarrow> onward X obs w (upd_epoller l g v) \<longleftrightarrow> onward X obs w v"
  by (rule onward_same) (simp_all add: upd_epoller_def)

lemma onward_filed:
  "fp \<notin> sc_fixed X \<Longrightarrow> fp \<in> sc_gone X \<or> (\<forall>f. index f \<noteq> kNew \<longrightarrow> index (h f) \<noteq> kNew) \<Longrightarrow> onward X obs w v \<Longrightarrow>
     onward X obs w (upd_filed fp h v)"
  by (rule onward_trans, assumption) (auto simp: onward_def upd_filed_def)

lemma onward_conn:
  "(\<And>x. conns v c = Some x \<Longrightarrow> kept_conn X c x (g x)) \<Longrightarrow> onward X obs w v \<Longrightarrow> onward X obs w (upd_conn c g v)"
  by (rule onward_trans, assumption) (auto simp: onward_def upd_conn_def option.rel_map intro: option.rel_refl_strong)

lemma onward_loop:
  "queue_grows X l (loopOf v l) (g (loopOf v l)) \<Longrightarrow>
     (\<forall>t \<in> set (pendFuncs (g (loopOf v l))). t \<in> set (pendFuncs (loopOf v l)) \<or> settled v t) \<Longrightarrow> onward X obs w v \<Longrightarrow> onward X obs w (upd_loop l g v)"
  by (rule onward_trans, assumption) (auto simp: onward_def upd_loop_def settled_def)

text \<open>An operation that may disconnect nothing.\<close>

lemma quiet_tasks:
  assumes "onward X obs w v" and "sc_closing X = {}" and "TConnectDestroyed c \<in> set (pendFuncs (loopOf v l))"
  shows "TConnectDestroyed c \<in> set (pendFuncs (loopOf w l))"
proof -
  obtain ts where ts: "pendFuncs (loopOf v l) = pendFuncs (loopOf w l) @ ts" "\<forall>t \<in> set ts. light X l t"
    using onwardD(2) [OF assms(1), of l] by (auto simp: queue_grows_def)
  have "TConnectDestroyed c \<notin> set ts" using bspec [OF ts(2), of "TConnectDestroyed c"] assms(2) by (auto simp: light_def)
  with ts(1) assms(3) show ?thesis by simp
qed

lemma quiet_states:
  assumes "onward X obs w v" and "sc_closing X = {}" and "conns v c = Some y" and "conn_state y = kDisconnected"
  shows "\<exists>x. conns w c = Some x \<and> conn_state x = kDisconnected"
  using onwardD(5) [OF assms(1), of c] assms(2-4) by (auto simp: option_rel_Some2 kept_conn_def)

abbreviation moves :: "scope \<Rightarrow> ('k \<Rightarrow> 'o) \<Rightarrow> ('k, 'z) process_scheme \<Rightarrow> fault + ('k, 'z) process_scheme \<Rightarrow> bool" where
  "moves X obs w \<equiv> outcome (\<lambda>_. True) (onward X obs w)"

lemma moves_chain:
  assumes "moves X obs w r" and fz: "frozen X w"
    and f: "\<And>v. r = Inr v \<Longrightarrow> onward X obs w v \<Longrightarrow> frozen X v \<Longrightarrow> moves X obs v (f v)"
  shows "moves X obs w (bindE r f)"
proof (cases r)
  case (Inr v)
  with assms(1) have v: "onward X obs w v" by simp
  with f [OF Inr v frozen_onward [OF fz v]] Inr show ?thesis by (cases "f v") (auto intro: onward_trans)
qed simp

lemma moves_mono: "moves X obs v r \<Longrightarrow> onward X obs w v \<Longrightarrow> moves X obs w r"
  by (cases r) (auto intro: onward_trans)

lemma with_conn_moves: "(\<And>x. conns v c = Some x \<Longrightarrow> moves X obs w (f x)) \<Longrightarrow> moves X obs w (with_conn c v f)"
  by (simp add: with_conn_def split: option.split)

section \<open>Events and queues\<close>

lemma updateHelper_moves: "still S obs \<Longrightarrow> onward X obs w v \<Longrightarrow> moves X obs w (updateHelper S l op fp v)"
  using stillD(7) [of S obs] by (auto simp: updateHelper_def onward_kern Let_def split: prod.split)

lemma index_kept: "i \<noteq> kNew \<Longrightarrow> fp \<notin> sc_fixed X \<Longrightarrow> onward X obs w v \<Longrightarrow> onward X obs w (upd_filed fp (setIndex i) v)"
  by (rule onward_filed) (simp_all add: setIndex_def)

lemma Epoller_update_moves:
  fixes S :: "'a sys" and w :: "('a, 'b) process_scheme"
  assumes s: "still S obs" and fp: "fp \<notin> sc_fixed X"
  shows "moves X obs w (Epoller_update S l fp w)"
proof -
  have del: "moves X obs w (bindE (updateHelper S l EPOLL_CTL_DEL fp w) (\<lambda>w. Inr (upd_filed fp (setIndex kDeleted) w)))"
    by (rule outcome_bind [OF updateHelper_moves [OF s onward_refl, where X = X]])
      (simp add: index_kept [OF _ fp] kDeleted_def kNew_def)
  have add: "moves X obs w (updateHelper S l EPOLL_CTL_ADD fp (upd_filed fp (setIndex kAdded) v))" if "onward X obs w v" for v
    by (rule updateHelper_moves [OF s index_kept [OF _ fp that]]) (simp add: kAdded_def kNew_def)
  show ?thesis
    unfolding Epoller_update_def Let_def
    by (auto simp: onward_epoller intro!: add del updateHelper_moves [OF s onward_refl])
qed

lemma Epoller_remove_moves:
  fixes S :: "'a sys" and w :: "('a, 'b) process_scheme"
  assumes s: "still S obs" and fp: "fp \<notin> sc_fixed X" "fp \<in> sc_gone X"
  shows "moves X obs w (Epoller_remove S l fp w)"
proof -
  have new: "onward X obs w (upd_filed fp (setIndex kNew) v)" if "onward X obs w v" for v
    by (rule onward_filed [OF fp(1) _ that]) (simp add: fp)
  let ?w = "upd_epoller l (\<lambda>e. e\<lparr>fileds := (fileds e)(filed_fd (filedOf w fp) := None)\<rparr>) w"
  have w: "onward X obs w ?w" by (simp add: onward_epoller)
  have "moves X obs w (bindE (updateHelper S l EPOLL_CTL_DEL fp ?w) (\<lambda>w. Inr (upd_filed fp (setIndex kNew) w)))"
    by (rule outcome_bind [OF updateHelper_moves [OF s w]]) (simp add: new)
  with new [OF w] show ?thesis by (simp add: Epoller_remove_def Let_def)
qed

lemma set_mask_moves:
  assumes "still S obs" and "fp \<notin> sc_fixed X" and "onward X obs w v"
  shows "moves X obs w (set_mask S fp m v)"
  unfolding set_mask_def Filed_update_def EventLoop_update_def
  by (rule moves_mono [OF Epoller_update_moves [OF assms(1,2)] onward_filed [OF assms(2) _ assms(3)]]) simp

lemma Filed_remove_moves:
  "still S obs \<Longrightarrow> fp \<notin> sc_fixed X \<Longrightarrow> fp \<in> sc_gone X \<Longrightarrow> moves X obs w (Filed_remove S fp w)"
  unfolding Filed_remove_def EventLoop_remove_def by (rule Epoller_remove_moves)

lemma wakeup_moves: "still S obs \<Longrightarrow> onward X obs w v \<Longrightarrow> onward X obs w (wakeup S l v)"
  using stillD(3) [of S obs] by (auto simp: wakeup_def onward_kern Let_def split: prod.split)

lemma queueinLoop_moves: "still S obs \<Longrightarrow> light X l t \<Longrightarrow> settled v t \<Longrightarrow> onward X obs w v \<Longrightarrow> onward X obs w (queueinLoop S tid l t v)"
  by (auto simp: queueinLoop_def wake_after_post_def post_func_def queue_grows_def intro!: wakeup_moves onward_loop)

lemma quit_loop_moves: "still S obs \<Longrightarrow> onward X obs w v \<Longrightarrow> onward X obs w (quit_loop S tid l v)"
  by (auto simp: quit_loop_def queue_grows_def Let_def intro!: wakeup_moves onward_loop)

lemma Socket_shutdownWrite_moves: "still S obs \<Longrightarrow> onward X obs w v \<Longrightarrow> onward X obs w (Socket_shutdownWrite S fd v)"
  using stillD(4) [of S obs] by (auto simp: Socket_shutdownWrite_def onward_kern Let_def split: prod.split)

section \<open>Operations on connections\<close>

lemma light_simps [simp]:
  "light X l (TWriteComplete h c)" "light X l (THighWaterMark h c n)" "light X l (TUser i)" "light X l TListen"
  "light X l (TShutdownInLoop c)"
  by (simp_all add: light_def)

lemma check_high_water_moves: "still S obs \<Longrightarrow> onward X obs w v \<Longrightarrow> onward X obs w (check_high_water S tid c r x v)"
  by (simp add: check_high_water_def queueinLoop_moves Let_def split: option.split)

lemma sendinLoop_queue_moves:
  assumes s: "still S obs" and c: "c \<notin> sc_idle X" "conn_filed x \<notin> sc_fixed X" and v: "onward X obs w v"
  shows "moves X obs w (sendinLoop_queue S tid c a o' r x v)"
proof -
  have "onward X obs w (upd_conn c (\<lambda>x. x\<lparr>outputBuffer := b\<rparr>) (check_high_water S tid c r x v))" for b
    by (rule onward_conn [OF _ check_high_water_moves [OF s v]]) (simp add: kept_conn_def)
  then show ?thesis
    unfolding sendinLoop_queue_def Let_def set_mask_eqs
    by (auto intro!: outcome_bind [OF any_outcome] set_mask_moves [OF s c(2)])
qed

lemma sendinLoop_moves:
  assumes s: "still S obs" and fz: "frozen X w"
    and c: "\<And>x. conns w c = Some x \<Longrightarrow> c \<in> sc_idle X \<Longrightarrow> conn_state x = kDisconnected"
  shows "moves X obs w (sendinLoop S tid c a len w)"
proof -
  have wr: "outcome (\<lambda>_. True) (\<lambda>(n, r, e, w'). onward X obs w w') (sendinLoop_write S tid c a len x w)" for x
    unfolding sendinLoop_write_def using stillD(3) [OF s]
    by (cases "read_string a 0 len w")
      (auto simp: Let_def onward_kern queueinLoop_moves [OF s] split: prod.split option.split)
  have "moves X obs w (bindE (if \<not> isWriting (filedOf w (conn_filed x)) \<and> readableBytes (outputBuffer x) = 0
       then sendinLoop_write S tid c a len x w else Inr (0, len, False, w))
       (\<lambda>(nwrote, remaining, faultError, w).
         if \<not> faultError \<and> remaining > 0 then sendinLoop_queue S tid c a nwrote remaining x w else Inr w))"
    if x: "conns w c = Some x" "conn_state x \<noteq> kDisconnected" for x
  proof -
    have i: "c \<notin> sc_idle X" using c [OF x(1)] x(2) by blast
    show ?thesis
      by (rule outcome_bind [where P = "\<lambda>(n, r, e, w'). onward X obs w w'"])
        (use wr sendinLoop_queue_moves [OF s i frozenD(1) [OF fz x(1) i]] in auto)
  qed
  then show ?thesis by (simp add: sendinLoop_def with_conn_def split: option.split)
qed

lemma shutdownInLoop_moves: "still S obs \<Longrightarrow> onward X obs w v \<Longrightarrow> moves X obs w (shutdownInLoop S c v)"
  by (simp add: shutdownInLoop_def with_conn_def Socket_shutdownWrite_moves split: option.split)

lemma established_not_new: "frozen X w \<Longrightarrow> conns w c = Some x \<Longrightarrow> conn_state x = kConnected \<Longrightarrow> c \<notin> sc_idle X"
  using frozenD(2) [of X w c x] by auto

lemma do_api_moves:
  assumes s: "still S obs" and fz: "frozen X w"
  shows "moves X obs w (do_api S tid x w)"
proof (cases x)
  case (ApiSend c a)
  have "c \<notin> sc_idle X \<and> light X l (TSendInLoop c a n)" if "conns w c = Some y" "conn_state y = kConnected" for y l n
    using established_not_new [OF fz that(1)] frozenD(3) [OF fz that(1)] that(2) by (simp add: light_def)
  with ApiSend show ?thesis
    by (auto simp: send_def runinLoop_def Let_def
        split: option.split intro!: with_conn_moves queueinLoop_moves [OF s] sendinLoop_moves [OF s fz])
next
  case (ApiShutdown c)
  have "onward X obs w (setState kDisconnecting c w)" if "conns w c = Some y" "conn_state y = kConnected" for y
    unfolding setState_def
    by (rule onward_conn) (use established_not_new [OF fz that(1)] that in \<open>simp_all add: kept_conn_def\<close>)
  with ApiShutdown show ?thesis
    by (auto simp: shutdown_def runinLoop_def intro!: with_conn_moves queueinLoop_moves [OF s] shutdownInLoop_moves [OF s])
next
  case (ApiTakeAll c a)
  then show ?thesis by (auto simp: kept_conn_def intro!: with_conn_moves outcome_bind [OF any_outcome] onward_conn)
qed (auto simp: setMessageCallback_def setWriteCompleteCallback_def setHighWaterMarkCallback_def kept_conn_def
    intro!: with_conn_moves onward_conn queueinLoop_moves [OF s] quit_loop_moves [OF s])

lemma call_app_moves:
  assumes s: "still S obs" and fz: "frozen X w" and v: "onward X obs w v"
  shows "moves X obs w (call_app S app tid cb ev v)"
proof -
  have "moves X obs w (do_api S tid x u)" if "onward X obs w u" for x u
    by (rule moves_mono [OF do_api_moves [OF s frozen_onward [OF fz that]] that])
  then show ?thesis
    using v by (auto simp: call_app_def split: option.split intro!: outcome_runE)
qed

section \<open>Handlers and tasks\<close>

lemma setState_moves:
  "c \<notin> sc_idle X \<Longrightarrow> (\<And>x. conns v c = Some x \<Longrightarrow> conn_state x = kDisconnected \<Longrightarrow> st = kDisconnected) \<Longrightarrow>
     (st = kDisconnected \<Longrightarrow> c \<in> sc_closing X) \<Longrightarrow> onward X obs w v \<Longrightarrow> onward X obs w (setState st c v)"
  unfolding setState_def by (rule onward_conn) (simp_all add: kept_conn_def)

lemma connectEstablished_moves:
  assumes s: "still S obs" and fz: "frozen X w" and c: "c \<notin> sc_idle X"
    and st: "\<And>x. conns w c = Some x \<Longrightarrow> conn_state x \<noteq> kDisconnected"
  shows "moves X obs w (connectEstablished S app tid c w)"
  unfolding connectEstablished_def set_mask_eqs
proof (intro with_conn_moves)
  fix x assume x: "conns w c = Some x"
  have "onward X obs w (upd_filed (conn_filed x) (tie c) (setState kConnected c w))"
    by (rule onward_filed [OF frozenD(1) [OF fz x c] _ setState_moves [OF c _ _ onward_refl]]) (use st in \<open>simp_all add: tie_def\<close>)
  then show "moves X obs w (bindE (set_mask S (conn_filed x) mask_enableReading (upd_filed (conn_filed x) (tie c) (setState kConnected c w)))
      (\<lambda>w. call_app S app tid (connectionCallback x) (EvConnection c) w))"
    by (intro moves_chain [OF _ fz] set_mask_moves [OF s frozenD(1) [OF fz x c]] call_app_moves [OF s _ onward_refl])
qed

lemma connectDestroyed_moves:
  assumes s: "still S obs" and fz: "frozen X w" and c: "c \<notin> sc_idle X"
    and gone: "\<And>x. conns w c = Some x \<Longrightarrow> conn_filed x \<in> sc_gone X"
    and closing: "\<And>x. conns w c = Some x \<Longrightarrow> conn_state x = kConnected \<Longrightarrow> c \<in> sc_closing X"
  shows "moves X obs w (connectDestroyed S app tid c w)"
  unfolding connectDestroyed_def set_mask_eqs
proof (intro with_conn_moves)
  fix x assume x: "conns w c = Some x"
  note fp = frozenD(1) [OF fz x c]
  have "moves X obs w (bindE (set_mask S (conn_filed x) (\<lambda>_. kNoneEvent) (setState kDisconnected c w))
      (\<lambda>w. call_app S app tid (connectionCallback x) (EvConnection c) w))" if "conn_state x = kConnected"
    by (intro moves_chain [OF _ fz] set_mask_moves [OF s fp] setState_moves [OF c] call_app_moves [OF s _ onward_refl] onward_refl refl
        closing [OF x that])
  then show "moves X obs w (bindE (if conn_state x = kConnected
              then bindE (set_mask S (conn_filed x) (\<lambda>_. kNoneEvent) (setState kDisconnected c w)) (\<lambda>w.
                call_app S app tid (connectionCallback x) (EvConnection c) w)
              else Inr w) (\<lambda>w. Filed_remove S (conn_filed x) w))"
    by (intro moves_chain [OF _ fz] Filed_remove_moves [OF s fp gone [OF x]]) simp
qed

lemma handleError_moves: "still S obs \<Longrightarrow> onward X obs w v \<Longrightarrow> moves X obs w (handleError S c v)"
  using stillD(5) [of S obs] by (auto simp: handleError_def onward_kern intro!: with_conn_moves split: prod.split)

lemma readFd_moves:
  assumes s: "still S obs"
  shows "outcome (\<lambda>_. True) (\<lambda>(n, e, b', k'). obs k' = obs k) (readFd S fd saved b k)"
proof -
  obtain m d k1 where rd: "sys_readv S fd (readFd_iov b) k = (m, d, k1)" by (metis prod_cases3)
  with stillD(2) [OF s rd] show ?thesis
    by (auto simp: readFd_def Let_def intro!: outcome_bind [OF any_outcome])
qed

lemma writeFd_moves:
  assumes s: "still S obs"
  shows "outcome (\<lambda>_. True) (\<lambda>(n, e, k'). obs k' = obs k) (writeFd S fd saved b k)"
  using stillD(3) [OF s] by (auto simp: writeFd_def Let_def split: prod.split intro!: outcome_bind [OF any_outcome])

lemma handleWrite_moves:
  assumes s: "still S obs" and fz: "frozen X w" and c: "c \<notin> sc_idle X"
  shows "moves X obs w (handleWrite S tid c w)"
proof -
  have drained: "moves X obs w (bindE (set_mask S (conn_filed x) m v) (\<lambda>w.
        let w = (case cb of Some h \<Rightarrow> queueinLoop S tid l (TWriteComplete h c) w | None \<Rightarrow> w)
        in if st then shutdownInLoop S c w else Inr w))" if "onward X obs w v" "conns w c = Some x" for v x m cb l st
    by (rule outcome_bind [OF set_mask_moves [OF s frozenD(1) [OF fz that(2) c] that(1)]])
      (auto simp: Let_def queueinLoop_moves [OF s] split: option.split intro!: shutdownInLoop_moves [OF s])
  show ?thesis
    unfolding handleWrite_def set_mask_eqs
  proof (intro with_conn_moves)
    fix x
    assume x: "conns w c = Some x"
    show "moves X obs w (if isWriting (filedOf w (conn_filed x))
     then bindE (writeFd S (filed_fd (filedOf w (conn_filed x))) 0 (outputBuffer x) (kern w)) (\<lambda>(n, savedErrno, k').
       let w = w\<lparr>kern := k'\<rparr> in
       if n > 0
       then let b = retrieve (of_int n) (outputBuffer x); w = upd_conn c (\<lambda>x. x\<lparr>outputBuffer := b\<rparr>) w in
         if readableBytes b = 0
         then bindE (set_mask S (conn_filed x) mask_disableWriting w) (\<lambda>w.
           let w = (case writeCompleteCallback x of
                      Some cb \<Rightarrow> queueinLoop S tid (conn_loop x) (TWriteComplete cb c) w | None \<Rightarrow> w)
           in if conn_state x = kDisconnecting then shutdownInLoop S c w else Inr w)
         else Inr (log_line ERROR ''TcpConnection::handleWrite'' w)
       else Inr (log_line ERROR ''TcpConnection fd=%d is down, no more writing'' w))
     else Inr w)"
    proof (cases "isWriting (filedOf w (conn_filed x))")
      case True
      show ?thesis
        unfolding if_P [OF True]
      proof (rule outcome_bind [OF writeFd_moves [OF s]], clarify)
        fix n e k'
        assume k': "obs k' = obs (kern w)"
        let ?b = "retrieve (of_int n) (outputBuffer x)"
        let ?v = "upd_conn c (\<lambda>x. x\<lparr>outputBuffer := ?b\<rparr>) (w\<lparr>kern := k'\<rparr>)"
        have v: "onward X obs w ?v"
          by (rule onward_conn) (use k' in \<open>simp_all add: kept_conn_def onward_kern\<close>)
        show "moves X obs w (let w = w\<lparr>kern := k'\<rparr> in
           if n > 0
           then let b = ?b; w = upd_conn c (\<lambda>x. x\<lparr>outputBuffer := b\<rparr>) w in
             if readableBytes b = 0
             then bindE (set_mask S (conn_filed x) mask_disableWriting w) (\<lambda>w.
               let w = (case writeCompleteCallback x of
                          Some cb \<Rightarrow> queueinLoop S tid (conn_loop x) (TWriteComplete cb c) w | None \<Rightarrow> w)
               in if conn_state x = kDisconnecting then shutdownInLoop S c w else Inr w)
             else Inr (log_line ERROR ''TcpConnection::handleWrite'' w)
           else Inr (log_line ERROR ''TcpConnection fd=%d is down, no more writing'' w))"
          using drained [OF v x, where m = mask_disableWriting and cb = "writeCompleteCallback x" and
              l = "conn_loop x" and st = "conn_state x = kDisconnecting"] v k'
          by (simp add: Let_def onward_kern)
      qed
    qed simp
  qed
qed

text \<open>With the meaning of the closing callback given, all handlers and tasks of a connection.\<close>

lemma handleClose_moves:
  assumes s: "still S obs" and fz: "frozen X w" and c: "c \<notin> sc_idle X" "c \<in> sc_closing X"
    and cb: "\<And>h v. frozen X v \<Longrightarrow> settled v (TConnectDestroyed c) \<Longrightarrow> conns v c \<noteq> None \<Longrightarrow>
      moves X obs v (closecb tid h c v)"
  shows "moves X obs w (handleClose S app closecb tid c w)"
  unfolding handleClose_def set_mask_eqs
proof (intro with_conn_moves)
  fix x assume x: "conns w c = Some x"
  let ?w = "setState kDisconnected c w"
  have w: "onward X obs w ?w" by (rule setState_moves [OF c(1) _ c(2) onward_refl]) simp
  have fw: "frozen X ?w" by (rule frozen_onward [OF fz w])
  have fp: "conn_filed x \<notin> sc_fixed X" by (rule frozenD(1) [OF fz x c(1)])
  have closed: "settled ?w (TConnectDestroyed c)" by (auto simp: setState_def upd_conn_def)
  have rest: "moves X obs v (with_conn c v (\<lambda>x. case conn_closeCallback x of
      None \<Rightarrow> Inl BadFunctionCall | Some h \<Rightarrow> closecb tid h c v))" if "frozen X v" "settled v (TConnectDestroyed c)" for v
    using cb [OF that] by (auto intro!: with_conn_moves split: option.split)
  have "moves X obs ?w (bindE (set_mask S (conn_filed x) (\<lambda>_. kNoneEvent) ?w) (\<lambda>w.
      bindE (call_app S app tid (connectionCallback x) (EvConnection c) w) (\<lambda>w.
        with_conn c w (\<lambda>x. case conn_closeCallback x of None \<Rightarrow> Inl BadFunctionCall | Some h \<Rightarrow> closecb tid h c w))))"
  proof (rule moves_chain [OF set_mask_moves [OF s fp onward_refl] fw])
    fix v assume v: "onward X obs ?w v" "frozen X v"
    show "moves X obs v (bindE (call_app S app tid (connectionCallback x) (EvConnection c) v) (\<lambda>w.
        with_conn c w (\<lambda>x. case conn_closeCallback x of None \<Rightarrow> Inl BadFunctionCall | Some h \<Rightarrow> closecb tid h c w)))"
    proof (rule moves_chain [OF call_app_moves [OF s v(2) onward_refl] v(2)])
      fix u assume u: "onward X obs v u" "frozen X u"
      show "moves X obs u (with_conn c u (\<lambda>x. case conn_closeCallback x of
          None \<Rightarrow> Inl BadFunctionCall | Some h \<Rightarrow> closecb tid h c u))"
        by (rule rest [OF u(2) settled_onward [OF settled_onward [OF closed v(1)] u(1)]])
    qed
  qed
  then show "moves X obs w (bindE (set_mask S (conn_filed x) (\<lambda>_. kNoneEvent) ?w) (\<lambda>w.
      bindE (call_app S app tid (connectionCallback x) (EvConnection c) w) (\<lambda>w.
        with_conn c w (\<lambda>x. case conn_closeCallback x of None \<Rightarrow> Inl BadFunctionCall | Some h \<Rightarrow> closecb tid h c w))))"
    by (rule moves_mono) (rule w)
qed

lemma handleRead_moves:
  assumes s: "still S obs" and fz: "frozen X w" and c: "c \<notin> sc_idle X" "c \<in> sc_closing X"
    and cb: "\<And>h v. frozen X v \<Longrightarrow> settled v (TConnectDestroyed c) \<Longrightarrow> conns v c \<noteq> None \<Longrightarrow>
      moves X obs v (closecb tid h c v)"
  shows "moves X obs w (handleRead S app closecb tid c now w)"
  unfolding handleRead_def
proof (intro with_conn_moves)
  fix x
  show "moves X obs w (bindE (readFd S (filed_fd (filedOf w (conn_filed x))) 0 (inputBuffer x) (kern w)) (\<lambda>(n, savedErrno, b, k').
         let w = upd_conn c (\<lambda>x. x\<lparr>inputBuffer := b\<rparr>) (w\<lparr>kern := k'\<rparr>) in
         if n > 0 then call_app S app tid (messageCallback x) (EvMessage c now) w
         else if n = 0 then handleClose S app closecb tid c w
         else handleError S c (log_line ERROR ''TcpConnection::handleRead''
                (w\<lparr>kern := sys_set_errno S savedErrno (kern w)\<rparr>))))"
  proof (rule outcome_bind [OF readFd_moves [OF s]], clarify)
    fix n e b' k'
    assume k': "obs k' = obs (kern w)"
    let ?v = "upd_conn c (\<lambda>x. x\<lparr>inputBuffer := b'\<rparr>) (w\<lparr>kern := k'\<rparr>)"
    have v: "onward X obs w ?v" by (rule onward_conn) (use k' in \<open>simp_all add: kept_conn_def onward_kern\<close>)
    note fv = frozen_onward [OF fz v]
    have "moves X obs w (handleError S c (log_line lv m (?v\<lparr>kern := sys_set_errno S e (kern ?v)\<rparr>)))" for lv m
      using v by (intro handleError_moves [OF s]) (simp add: onward_kern stillD(1) [OF s])
    moreover have "moves X obs w (handleClose S app closecb tid c ?v)"
      by (rule moves_mono [OF handleClose_moves [OF s fv c] v]) (rule cb)
    ultimately show "moves X obs w (let w = ?v in
         if n > 0 then call_app S app tid (messageCallback x) (EvMessage c now) w
         else if n = 0 then handleClose S app closecb tid c w
         else handleError S c (log_line ERROR ''TcpConnection::handleRead''
                (w\<lparr>kern := sys_set_errno S e (kern w)\<rparr>)))"
      using moves_mono [OF call_app_moves [OF s fv onward_refl] v] unfolding Let_def by simp
  qed
qed

text \<open>The connection whose handler it is.\<close>

definition handler_conn :: "handler \<Rightarrow> nat option" where
  "handler_conn h = (case h of HConnRead c \<Rightarrow> Some c | HConnWrite c \<Rightarrow> Some c | HConnClose c \<Rightarrow> Some c
     | HConnError c \<Rightarrow> Some c | _ \<Rightarrow> None)"

lemma conn_handler_moves:
  assumes s: "still S obs" and fz: "frozen X w" and c: "\<And>c. handler_conn h = Some c \<Longrightarrow> c \<notin> sc_idle X \<and> c \<in> sc_closing X"
    and cb: "\<And>h c v. c \<in> sc_closing X \<Longrightarrow> frozen X v \<Longrightarrow> settled v (TConnectDestroyed c) \<Longrightarrow> conns v c \<noteq> None \<Longrightarrow>
      moves X obs v (closecb tid h c v)"
    and h: "conn_handler S app closecb tid now h w = Some r"
  shows "moves X obs w r"
proof (cases h)
  case (HConnRead d)
  with c have d: "d \<notin> sc_idle X" "d \<in> sc_closing X" by (simp_all add: handler_conn_def)
  have "moves X obs w (handleRead S app closecb tid d now w)" by (rule handleRead_moves [OF s fz d]) (rule cb [OF d(2)])
  with HConnRead h show ?thesis by simp
next
  case (HConnClose d)
  with c have d: "d \<notin> sc_idle X" "d \<in> sc_closing X" by (simp_all add: handler_conn_def)
  have "moves X obs w (handleClose S app closecb tid d w)" by (rule handleClose_moves [OF s fz d]) (rule cb [OF d(2)])
  with HConnClose h show ?thesis by simp
next
  case (HConnWrite d)
  with c have d: "d \<notin> sc_idle X" "d \<in> sc_closing X" by (simp_all add: handler_conn_def)
  have "moves X obs w (handleWrite S tid d w)" by (rule handleWrite_moves [OF s fz d(1)])
  with HConnWrite h show ?thesis by simp
qed (use h handleError_moves [OF s onward_refl] in auto)

lemma conn_task_moves:
  assumes s: "still S obs" and fz: "frozen X w" and r: "conn_task S app tid t w = Some r"
    and e: "\<And>c. t = TConnectEstablished c \<Longrightarrow> c \<notin> sc_idle X \<and> (\<forall>x. conns w c = Some x \<longrightarrow> conn_state x \<noteq> kDisconnected)"
    and d: "\<And>c a n x. t = TSendInLoop c a n \<Longrightarrow> conns w c = Some x \<Longrightarrow> c \<in> sc_idle X \<Longrightarrow> conn_state x = kDisconnected"
    and g: "\<And>c. t = TConnectDestroyed c \<Longrightarrow> c \<notin> sc_idle X \<and> (\<forall>x. conns w c = Some x \<longrightarrow> conn_filed x \<in> sc_gone X) \<and>
      (\<forall>x. conns w c = Some x \<longrightarrow> conn_state x = kConnected \<longrightarrow> c \<in> sc_closing X)"
  shows "moves X obs w r"
  using r e d g connectEstablished_moves [OF s fz] connectDestroyed_moves [OF s fz]
    sendinLoop_moves [OF s fz] shutdownInLoop_moves [OF s onward_refl] call_app_moves [OF s fz onward_refl]
  by (cases t) auto

end
