(* ===== verification/ServerBoot.thy ===== *)
theory ServerBoot
  imports ServerStart LoopFrame
begin

text \<open>
  Starting the server: a new event loop joins the process and keeps its invariant, so that \<open>Server::start\<close> leaves a
  process with all its loops running under the invariant, each watching its own event descriptor.
\<close>

section \<open>A new event loop\<close>

text \<open>Every descriptor the process registers or polls is open.\<close>

definition fds_open :: "('k \<Rightarrow> int set) \<Rightarrow> nat set \<Rightarrow> nat set \<Rightarrow> ('k, 'z) machine_scheme \<Rightarrow> bool" where
  "fds_open used L live w \<longleftrightarrow> (\<forall>q \<in> live. filed_fd (filedOf w q) \<in> used (kern w)) \<and>
     (\<forall>l \<in> L. epollfd (epollerOf w l) \<in> used (kern w))"

lemma registry_new_loop:
  assumes inv: "registry_inv itst L live w" and l: "l \<notin> L" and n: "n \<notin> (\<lambda>m. epollfd (epollerOf w m)) ` L"
    and f: "filedOf w' = filedOf w" and e: "epollerOf w' = (epollerOf w)(l := e')"
    and e': "fileds e' = Map.empty" "epollfd e' = n" and k: "itst (kern w') = (itst (kern w))(n := Map.empty)"
  shows "registry_inv itst (insert l L) live w'"
proof (rule registry_invI)
  have old: "epollfd (epollerOf w m) \<noteq> n" if "m \<in> L" for m using n that by auto
  have same: "epollerOf w' m = epollerOf w m" if "m \<in> L" for m using l that by (auto simp: e)
  show "filed_loop (filedOf w' q) \<in> insert l L" if "q \<in> live" for q
    using registry_okD [OF inv that] f by simp
  show "filed_ok itst w' q" if "q \<in> live" for q
    using registry_okD [OF inv that] old same f k by (simp add: filed_ok_def Let_def)
  have "inj_on (\<lambda>m. epollfd (epollerOf w' m)) L"
    using registry_injD(1) [OF inv] same by (simp add: inj_on_def)
  moreover have "epollfd (epollerOf w' l) = n" by (simp add: e e')
  ultimately show "inj_on (\<lambda>m. epollfd (epollerOf w' m)) (insert l L)"
    using old same by fastforce
  show "inj_on (\<lambda>q. (filed_loop (filedOf w' q), filed_fd (filedOf w' q))) live"
    using registry_injD(2) [OF inv] f by simp
  show "belongs w' live m fd p" if "m \<in> insert l L" "fileds (epollerOf w' m) fd = Some p" for m fd p
  proof (cases "m = l")
    case True
    with that e e' show ?thesis by simp
  next
    case False
    with that e have "m \<in> L" "fileds (epollerOf w m) fd = Some p" by simp_all
    from registry_entD [OF inv this] f show ?thesis by (simp add: belongs_def)
  qed
  show "belongs w' live m fd p" if "m \<in> insert l L" "itst (kern w') (epollfd (epollerOf w' m)) fd = Some (ev, p)" for m fd ev p
  proof (cases "m = l")
    case True
    with that e e' k show ?thesis by simp
  next
    case False
    with that(1) have "m \<in> L" by simp
    with that(2) False old [OF this] e k have "itst (kern w) (epollfd (epollerOf w m)) fd = Some (ev, p)" by simp
    from registry_regD [OF inv \<open>m \<in> L\<close> this] f show ?thesis by (simp add: belongs_def)
  qed
qed

text \<open>What the constructor of \<open>EventLoop\<close> needs and gives.\<close>

definition new_event_loop :: "int \<Rightarrow> nat \<Rightarrow> int \<Rightarrow> event_loop" where
  "new_event_loop tid fp fd = \<lparr>looping = False, quit = False, threadId = tid, epollReturnTime = 0, wakeupFd = fd,
     wakeupFiled = fp, activeFileds = [], isCallPendFunc = False, pendFuncs = []\<rparr>"

definition loop_made ::
  "'k interest \<Rightarrow> ('k \<Rightarrow> int set) \<Rightarrow> nat set \<Rightarrow> nat set \<Rightarrow> int \<Rightarrow> nat \<Rightarrow> nat \<Rightarrow> ('k, 'z) process_scheme \<Rightarrow> ('k, 'z) process_scheme \<Rightarrow> bool" where
  "loop_made itst used L live tid l fp w w' \<longleftrightarrow> process_inv itst (insert l L) (insert fp live) w' \<and>
     fds_open used (insert l L) (insert fp live) w' \<and> conns w' = conns w \<and> process.more w' = process.more w \<and>
     (\<forall>q. q \<noteq> fp \<longrightarrow> filedOf w' q = filedOf w q) \<and>
     (\<forall>q \<in> live. filed_fd (filedOf w' q) \<noteq> filed_fd (filedOf w' fp)) \<and>
     loopOf w' = (loopOf w)(l := new_event_loop tid fp (filed_fd (filedOf w' fp))) \<and>
     loopInThread w' = (loopInThread w)(tid \<mapsto> l) \<and>
     (\<exists>fd. filedOf w' fp = (setReadCallback (HWakeupRead l) (mkFiled l fd))\<lparr>events := kReadEvent, index := kAdded\<rparr>) \<and>
     itst (kern w') (epollfd (epollerOf w' l)) (filed_fd (filedOf w' fp)) = Some (kReadEvent, fp)"

definition loop_calls_fail :: "'k sys \<Rightarrow> bool" where
  "loop_calls_fail S \<longleftrightarrow> (\<exists>k. fst (sys_epoll_create S k) < 0) \<or> (\<exists>k. fst (sys_eventfd S k) < 0)"

lemma loop_calls_failI:
  "sys_epoll_create S k = (n, k') \<Longrightarrow> n < 0 \<Longrightarrow> loop_calls_fail S" "sys_eventfd S k = (n, k') \<Longrightarrow> n < 0 \<Longrightarrow> loop_calls_fail S"
  unfolding loop_calls_fail_def by (metis fst_conv)+

lemma mkEventLoop_made:
  fixes w :: "('k, 'z) process_scheme"
  assumes law: "io_laws S itst" "fd_law S itst used" and inv: "process_inv itst L live w"
    and fds: "fds_open used L live w" and l: "l \<notin> L" and fp: "fp \<notin> live"
  shows "outcome (\<lambda>e. e = ExitFailure \<and> (loop_calls_fail S \<or> loopInThread w tid \<noteq> None)) (loop_made itst used L live tid l fp w)
    (mkEventLoop S tid l fp w)"
proof -
  obtain ep k1 where ec: "sys_epoll_create S (kern w) = (ep, k1)" by fastforce
  obtain fd k2 where ev: "sys_eventfd S k1 = (fd, k2)" by fastforce
  note lawE = fd_lawD(2) [OF law(2) ec] and lawV = fd_lawD(3) [OF law(2) ev]
  show ?thesis
  proof (cases "ep < 0 \<or> fd < 0 \<or> loopInThread w tid \<noteq> None")
    case True
    then show ?thesis using loop_calls_failI(1) [OF ec] loop_calls_failI(2) [OF ev]
      by (auto simp: mkEventLoop_def mkEpoller_def ec createEventfd_def ev upd_epoller_def upd_filed_def upd_loop_def Let_def)
  next
    case False
    then have ok: "0 \<le> ep" "0 \<le> fd" "loopInThread w tid = None" by auto
    let ?e = "\<lparr>eventList = replicate kEventListSize (0, 0), fileds = Map.empty, epollfd = ep, ownerLoop = l\<rparr>"
    let ?f = "setReadCallback (HWakeupRead l) (mkFiled l fd)"
    let ?v = "w\<lparr>epollerOf := (epollerOf w)(l := ?e), kern := k2, loopOf := (loopOf w)(l := new_event_loop tid fp fd),
      loopInThread := (loopInThread w)(tid \<mapsto> l), filedOf := (filedOf w)(fp := ?f)\<rparr>"
    have mk: "mkEventLoop S tid l fp w = enableReading S fp ?v"
      using ok by (simp add: mkEventLoop_def mkEpoller_def ec createEventfd_def ev upd_epoller_def upd_filed_def
          upd_loop_def new_event_loop_def Let_def)
    have used: "used k2 = insert fd (insert ep (used (kern w)))" "ep \<notin> used (kern w)" "fd \<notin> used (kern w)" "fd \<noteq> ep"
      using lawE lawV ok by (auto simp: opens_def)
    have itst: "itst k2 = (itst (kern w))(ep := Map.empty)" using lawE lawV ok by simp
    let ?u = "w\<lparr>kern := k2, epollerOf := (epollerOf w)(l := ?e)\<rparr>"
    have "registry_inv itst (insert l L) live ?u"
      by (rule registry_new_loop [OF process_invD(1) [OF inv] l, where e' = ?e and n = ep])
        (use fds used itst in \<open>auto simp: fds_open_def\<close>)
    then have "registry_inv itst (insert l L) live ?v"
      by (rule registry_outside [OF _ fp]) simp_all
    then have reg: "registry_inv itst (insert l L) (insert fp live) ?v"
      by (rule registry_insert)
        (use fds used fp in \<open>auto simp: fds_open_def setReadCallback_def mkFiled_def kNew_def\<close>)
    have fpl: "fp \<in> insert fp live" by simp
    obtain k3 where k3: "enableReading S fp ?v = Inr (updated fp (mask_enableReading (events (filedOf ?v fp))) k3 ?v)"
      "registry_inv itst (insert l L) (insert fp live) (updated fp (mask_enableReading (events (filedOf ?v fp))) k3 ?v)"
      using set_mask_exact [OF io_lawsD(1) [OF law(1)] reg fpl, of mask_enableReading] unfolding set_mask_eqs by metis
    have e0: "mask_enableReading (events (filedOf ?v fp)) = kReadEvent"
      by (simp add: setReadCallback_def mkFiled_def mask_enableReading_def)
    define w' where "w' = updated fp kReadEvent k3 ?v"
    have w': "enableReading S fp ?v = Inr w'" "registry_inv itst (insert l L) (insert fp live) w'"
      unfolding w'_def by (rule k3 [unfolded e0])+
    have ne: "kReadEvent \<noteq> kNoneEvent" using reading_not_none [of 0] by (simp add: mask_enableReading_def)
    have fields: "conns w' = conns w" "process.more w' = process.more w" "kern w' = k3"
      "loopOf w' = (loopOf w)(l := new_event_loop tid fp fd)" "loopInThread w' = (loopInThread w)(tid \<mapsto> l)"
      "filedOf w' = (filedOf w)(fp := ?f\<lparr>events := kReadEvent, index := kAdded\<rparr>)"
      "\<And>m. epollfd (epollerOf w' m) = (if m = l then ep else epollfd (epollerOf w m))"
      by (simp_all add: w'_def updated_def next_index_def setReadCallback_def mkFiled_def ne Let_def)
    have "used k3 = used k2"
      using set_mask_moves [OF fd_lawD(1) [OF law(2)] _ onward_refl, of fp "calm {} w" ?v mask_enableReading] w'(1) fields(3)
      by (simp add: set_mask_eqs onward_def calm_def)
    then have "fds_open used (insert l L) (insert fp live) w'"
      using fds used by (auto simp: fds_open_def fields setReadCallback_def mkFiled_def)
    moreover have "filed_fd (filedOf w q) \<noteq> fd" if "q \<in> live" for q
      using fds used that by (auto simp: fds_open_def)
    moreover have "conn_ok w' x" if "conns w c = Some x" for c x
      using process_invD(2,3) [OF inv that] fp by (auto simp: conn_ok_def fields)
    then have "process_inv itst (insert l L) (insert fp live) w'"
      using w'(2) process_invD(2,4) [OF inv] by (auto simp: process_inv_def fields)
    moreover have "itst (kern w') (epollfd (epollerOf w' l)) fd = Some (kReadEvent, fp)"
      using watched [OF w'(2) fpl] by (simp add: fields setReadCallback_def mkFiled_def)
    ultimately show ?thesis
      using w'(1) fp by (auto simp: mk loop_made_def fields setReadCallback_def mkFiled_def)
  qed
qed

section \<open>Starting the threads\<close>

text \<open>
  The invariant while the server starts: that of the process, with every descriptor open, every address and thread
  id in use below the next free one, and the index of the pool in range for the loops still to come.
\<close>

definition handlers_of :: "filed \<Rightarrow> handler set" where
  "handlers_of f = {h. Some h \<in> {closeCallback f, errorCallback f, readCallback f, writeCallback f}}"

definition base_handlers :: "nat set \<Rightarrow> ('k, 'z) served_scheme \<Rightarrow> bool" where
  "base_handlers base w \<longleftrightarrow> (\<forall>q \<in> base. \<forall>h \<in> handlers_of (filedOf w q). handler_conn h = None) \<and>
     (\<forall>m. readCallback (filedOf w (acceptFiled (the_acceptor w))) \<noteq> Some (HWakeupRead m))"

definition light_queues :: "nat set \<Rightarrow> ('k, 'z) process_scheme \<Rightarrow> bool" where
  "light_queues L w \<longleftrightarrow> (\<forall>m \<in> L. \<forall>t \<in> set (pendFuncs (loopOf w m)). light (calm {} w) m t)"

definition boot_inv ::
  "'k interest \<Rightarrow> ('k \<Rightarrow> int set) \<Rightarrow> nat set \<Rightarrow> nat set \<Rightarrow> ('k, 'z) served_scheme \<Rightarrow> bool" where
  "boot_inv itst used L base w \<longleftrightarrow> served_inv itst L base w \<and> fds_open used L (live_of base w) w \<and>
     L \<subseteq> {..<next_addr w} \<and> nextLoop (pool w) = 0 \<and> base_handlers base w \<and> light_queues L w"

lemma boot_invD:
  assumes "boot_inv itst used L base w"
  shows "served_inv itst L base w" and "fds_open used L (live_of base w) w" and "L \<subseteq> {..<next_addr w}"
    and "nextLoop (pool w) = 0" and "base_handlers base w" and "light_queues L w"
  using assms by (simp_all add: boot_inv_def)

lemma light_calm: "light (calm F w) m t = light (calm G w) m t"
  by (cases t) (simp_all add: light_def calm_def)

lemma light_queues_onward:
  assumes "light_queues L w" and o: "onward (calm F w) obs w v"
  shows "light_queues L v"
proof -
  have "map_option conn_loop (conns v c) = map_option conn_loop (conns w c)" for c
    using onwardD(5) [OF o, of c] by (cases "conns w c"; cases "conns v c") (auto simp: kept_conn_def)
  then have same: "light (calm {} v) m t = light (calm {} w) m t" for m t
    by (cases t) (simp_all add: light_def calm_def)
  have "light (calm {} v) m t" if "m \<in> L" "t \<in> set (pendFuncs (loopOf v m))" for m t
  proof -
    obtain ts where ts: "pendFuncs (loopOf v m) = pendFuncs (loopOf w m) @ ts" "\<forall>t \<in> set ts. light (calm F w) m t"
      using onwardD(2) [OF o, of m] by (auto simp: queue_grows_def)
    with that assms(1) show ?thesis by (auto simp: same light_queues_def light_calm [of F w m t "{}"])
  qed
  then show ?thesis by (simp add: light_queues_def)
qed

text \<open>The invariant does not depend on what the start-up counts.\<close>

lemma boot_inv_counts:
  fixes w :: "('k, 'z) served_scheme"
  assumes inv: "boot_inv itst used L base w" and n: "next_addr w \<le> n"
    and p: "nextLoop p = 0" "set (getAllLoops p) \<subseteq> L"
  shows "boot_inv itst used L base (w\<lparr>next_addr := n, next_tid := t, create_num := cn, pool := p\<rparr>)"
proof -
  let ?w = "w\<lparr>next_addr := n, next_tid := t, create_num := cn, pool := p\<rparr>"
  note s = boot_invD(1) [OF inv]
  have live: "live_of base ?w = live_of base w" by (simp add: live_of_def)
  have "process_inv itst L (live_of base w) ?w"
    using good_frame [OF served_invD(5) [OF s], of ?w] by (auto simp: same_objects_def dest: goodD(1))
  moreover have "server_inv ?w"
    using server_okD(2) [OF served_invD(1) [OF s]] by (simp add: server_inv_def)
  ultimately have "server_ok itst L (live_of base w) ?w"
    using server_okD(5,6) [OF served_invD(1) [OF s]] n p by (auto simp: server_ok_def pool_inv_def)
  then show ?thesis
    using inv served_invD(2-4) [OF s] n p(1)
    by (auto simp: boot_inv_def served_inv_def live fds_open_def base_handlers_def light_queues_def calm_def)
qed

text \<open>A loop that is set up for its thread: its event descriptor's \<open>Filed\<close> wakes this loop.\<close>

definition loop_ready :: "int \<Rightarrow> nat \<Rightarrow> ('k, 'z) process_scheme \<Rightarrow> bool" where
  "loop_ready tid l w \<longleftrightarrow> threadId (loopOf w l) = tid \<and> wakeupFiled (loopOf w l) = l + 1 \<and>
     wakeupFd (loopOf w l) = filed_fd (filedOf w (l + 1)) \<and>
     filed_loop (filedOf w (l + 1)) = l \<and> readCallback (filedOf w (l + 1)) = Some (HWakeupRead l) \<and>
     events (filedOf w (l + 1)) = kReadEvent \<and> index (filedOf w (l + 1)) = kAdded"

lemma loop_ready_keeps:
  "loop_ready tid l w \<Longrightarrow> onward X obs w v \<Longrightarrow> l + 1 \<in> sc_fixed X \<Longrightarrow> loop_ready tid l v"
  by (auto simp: loop_ready_def onward_def queue_grows_def)

definition unmoved :: "nat set \<Rightarrow> ('k, 'z) served_scheme \<Rightarrow> ('k, 'z) served_scheme \<Rightarrow> bool" where
  "unmoved base w v \<longleftrightarrow> pool v = pool w \<and> next_addr v = next_addr w \<and> next_tid v = next_tid w \<and>
     the_acceptor v = the_acceptor w \<and> the_server v = the_server w \<and> dom (conns v) = dom (conns w) \<and>
     loopInThread v = loopInThread w \<and> (\<forall>t m. m + 1 \<in> base \<longrightarrow> loop_ready t m w \<longrightarrow> loop_ready t m v)"

lemma boot_inv_call:
  fixes w :: "('k, 'z) served_scheme"
  assumes law: "io_laws S itst" "fd_law S itst used" and inv: "boot_inv itst used L base w"
  shows "outcome not_fatal (\<lambda>v. boot_inv itst used L base v \<and> unmoved base w v) (call_app S app tid cb e w)"
proof -
  have fz: "frozen (calm base w) w" by (rule frozen_calm) (rule served_invD(3) [OF boot_invD(1) [OF inv]])
  have "outcome not_fatal (\<lambda>v. (good itst L (live_of base w) w v \<and> leaves w v) \<and> onward (calm base w) used w v)
      (call_app S app tid cb e w)"
    by (rule both_outcomes [OF both_outcomes [OF call_app_keeps [OF law(1) served_invD(5) [OF boot_invD(1) [OF inv]]]
          call_app_stays [OF leaves_refl]] call_app_moves [OF fd_lawD(1) [OF law(2)] fz onward_refl]])
  then show ?thesis
  proof (rule outcome_weaken, elim conjE)
    fix v assume v: "good itst L (live_of base w) w v" "leaves w v" "onward (calm base w) used w v"
    have "handlers_of (filedOf v q) = handlers_of (filedOf w q)" "readCallback (filedOf v q) = readCallback (filedOf w q)" for q
      using v(2) by (auto simp: leaves_def same_callbacks_def handlers_of_def)
    with boot_invD(5) [OF inv] served_more [OF leaves_more [OF v(2)]] have "base_handlers base v" by (simp add: base_handlers_def)
    with served_inv_step [OF boot_invD(1) [OF inv] leaves_srv [OF v(2)] v(1)] boot_invD(2-4) [OF inv] v(3)
      leaves_srv [OF v(2)] light_queues_onward [OF boot_invD(6) [OF inv] v(3)]
    have "boot_inv itst used L base v"
      by (auto simp: boot_inv_def fds_open_def srv_leaves_def onward_def same_callbacks_def)
    moreover have "loop_ready t m v" if "m + 1 \<in> base" "loop_ready t m w" for t m
      by (rule loop_ready_keeps [OF that(2) v(3)]) (use that(1) in \<open>simp add: calm_def\<close>)
    ultimately show "boot_inv itst used L base v \<and> unmoved base w v"
      using pooled_more [OF leaves_more [OF v(2)]] served_more [OF leaves_more [OF v(2)]] leaves_dom [OF v(2)] v(3)
      by (simp add: unmoved_def onward_def)
  qed
qed

lemma mkEventLoop_boot:
  fixes w :: "('k, 'z) served_scheme"
  assumes law: "io_laws S itst" "fd_law S itst used" and inv: "boot_inv itst used L base w"
    and w2: "w2 = w\<lparr>next_tid := tid + 1, next_addr := l + 2\<rparr>" and l: "l = next_addr w"
  shows "outcome (\<lambda>e. e = ExitFailure \<and> (loop_calls_fail S \<or> loopInThread w tid \<noteq> None))
    (\<lambda>v. boot_inv itst used (insert l L) (insert (l + 1) base) v \<and> loop_ready tid l v \<and>
       (\<forall>m t. m \<in> L \<longrightarrow> loop_ready t m w \<longrightarrow> m + 1 \<in> base \<longrightarrow> loop_ready t m v) \<and> pool v = pool w \<and>
       next_addr v = l + 2 \<and> next_tid v = tid + 1 \<and> the_acceptor v = the_acceptor w \<and> the_server v = the_server w \<and>
       conns v = conns w \<and> loopInThread v = (loopInThread w)(tid \<mapsto> l))
    (mkEventLoop S tid l (l + 1) w2)"
proof -
  note s = boot_invD(1) [OF inv]
  note ok = served_invD(1) [OF s]
  have same: "process_inv itst L (live_of base w) w2" "fds_open used L (live_of base w) w2"
    using good_frame [OF served_invD(5) [OF s], of w2] boot_invD(2) [OF inv]
    by (auto simp: w2 same_objects_def fds_open_def dest: goodD(1))
  have below: "live_of base w \<subseteq> {..<l}" "L \<subseteq> {..<l}" using server_okD(5) [OF ok] boot_invD(3) [OF inv] l by simp_all
  then have new: "l \<notin> L" "l + 1 \<notin> live_of base w" by auto
  show ?thesis
  proof (rule outcome_mono [OF mkEventLoop_made [OF law same new, of tid]])
    fix v
    assume made: "loop_made itst used L (live_of base w) tid l (l + 1) w2 v"
    then obtain fd where fd: "filedOf v (l + 1) = (setReadCallback (HWakeupRead l) (mkFiled l fd))\<lparr>events := kReadEvent, index := kAdded\<rparr>"
      unfolding loop_made_def by blast
    have v: "process_inv itst (insert l L) (insert (l + 1) (live_of base w)) v"
      "fds_open used (insert l L) (insert (l + 1) (live_of base w)) v" "conns v = conns w"
      "process.more v = process.more w2" "\<And>q. q \<noteq> l + 1 \<Longrightarrow> filedOf v q = filedOf w q"
      "\<And>q. q \<in> live_of base w \<Longrightarrow> filed_fd (filedOf v q) \<noteq> filed_fd (filedOf v (l + 1))"
      "loopOf v = (loopOf w)(l := new_event_loop tid (l + 1) (filed_fd (filedOf v (l + 1))))"
      "loopInThread v = (loopInThread w)(tid \<mapsto> l)"
      using made unfolding loop_made_def w2 by simp_all
    have more: "pool v = pool w" "next_addr v = l + 2" "the_acceptor v = the_acceptor w" "the_server v = the_server w"
      "next_tid v = tid + 1"
      using served_more [OF v(4)] pooled_more [OF v(4)] by (simp_all add: w2)
    have live: "live_of (insert (l + 1) base) v = insert (l + 1) (live_of base w)"
      using v(3) by (auto simp: live_of_def)
    have "server_inv v" using server_okD(2) [OF ok] more v(3) by (simp add: server_inv_def)
    then have "server_ok itst (insert l L) (live_of (insert (l + 1) base) v) v"
      unfolding server_ok_def live using v(1,3) server_okD(3-6) [OF ok] more l by auto
    moreover have "inj_on (\<lambda>q. filed_fd (filedOf v q)) (insert (l + 1) (live_of base w))"
    proof -
      have "inj_on (\<lambda>q. filed_fd (filedOf v q)) (live_of base w)"
        using served_invD(2) [OF s] v(5) new(2) by (simp add: inj_on_def) metis
      moreover have "filed_fd (filedOf v (l + 1)) \<notin> (\<lambda>q. filed_fd (filedOf v q)) ` live_of base w" using v(6) by force
      ultimately show ?thesis by (auto simp: inj_on_insert)
    qed
    moreover have "conn_filed x \<noteq> l + 1" if "conns w c = Some x" for c x
      using live_of_conn [OF that, of base] new(2) by metis
    ultimately have "served_inv itst (insert l L) (insert (l + 1) base) v"
      unfolding served_inv_def live using served_invD(3,4) [OF s] more(3) v(3) by auto
    moreover have light_v: "light_queues (insert l L) v"
      using boot_invD(6) [OF inv] v(3,7) new(1) by (auto simp: light_queues_def calm_def new_event_loop_def)
    moreover have base_v: "base_handlers (insert (l + 1) base) v"
    proof -
      have "acceptFiled (the_acceptor w) \<noteq> l + 1" using served_invD(4) [OF s] new(2) by (auto simp: live_of_def)
      then have "readCallback (filedOf v (acceptFiled (the_acceptor v))) \<noteq> Some (HWakeupRead m)" for m
        using boot_invD(5) [OF inv] v(5) more(3) by (simp add: base_handlers_def)
      moreover have "handler_conn h = None" if "h \<in> handlers_of (filedOf v (l + 1))" for h
        using that fd by (simp add: handlers_of_def setReadCallback_def mkFiled_def handler_conn_def)
      moreover have "handler_conn h = None" if "q \<in> base" "h \<in> handlers_of (filedOf v q)" for q h
      proof -
        have "q \<noteq> l + 1" using that(1) new(2) by (auto simp: live_of_def)
        with that v(5) boot_invD(5) [OF inv] show ?thesis by (simp add: base_handlers_def)
      qed
      ultimately show ?thesis by (simp add: base_handlers_def)
    qed
    ultimately have boot: "boot_inv itst used (insert l L) (insert (l + 1) base) v"
      unfolding boot_inv_def live using v(2) below more boot_invD(4) [OF inv] base_v light_v by auto
    have "loop_ready tid l v" using v(7) fd by (simp add: loop_ready_def new_event_loop_def setReadCallback_def mkFiled_def)
    moreover have "loop_ready t m v" if "m \<in> L" "loop_ready t m w" "m + 1 \<in> base" for m t
    proof -
      have "m \<noteq> l" "m + 1 \<noteq> l + 1" using that(1) new(1) by auto
      with that(2) v(5,7) show ?thesis by (simp add: loop_ready_def)
    qed
    ultimately show "boot_inv itst used (insert l L) (insert (l + 1) base) v \<and> loop_ready tid l v \<and>
       (\<forall>m t. m \<in> L \<longrightarrow> loop_ready t m w \<longrightarrow> m + 1 \<in> base \<longrightarrow> loop_ready t m v) \<and> pool v = pool w \<and>
       next_addr v = l + 2 \<and> next_tid v = tid + 1 \<and> the_acceptor v = the_acceptor w \<and> the_server v = the_server w \<and>
       conns v = conns w \<and> loopInThread v = (loopInThread w)(tid \<mapsto> l)"
      using boot more v(3,8) by blast
  qed (simp_all add: w2)
qed

text \<open>
  One thread of the pool, then all of them. The start ends in a fault only when a call fails that a new loop needs, when
  the new thread has a loop already, or when the callback for new threads, run in a process in order, ends in that fault.
\<close>

definition threads_free :: "('k, 'z) served_scheme \<Rightarrow> bool" where
  "threads_free w \<longleftrightarrow> (\<forall>t \<ge> next_tid w. loopInThread w t = None)"

definition init_faults ::
  "'k sys \<Rightarrow> 'k interest \<Rightarrow> ('k \<Rightarrow> int set) \<Rightarrow> ('k, 'z) server_app \<Rightarrow> nat option \<Rightarrow> fault \<Rightarrow> bool" where
  "init_faults S itst used app cb e \<longleftrightarrow> (\<exists>h tid l v L base. cb = Some h \<and> boot_inv itst used L base v \<and>
     call_app S app tid cb (EvThreadInit l) v = Inl e)"

definition boot_fault ::
  "'k sys \<Rightarrow> 'k interest \<Rightarrow> ('k \<Rightarrow> int set) \<Rightarrow> ('k, 'z) server_app \<Rightarrow> nat option \<Rightarrow> bool \<Rightarrow> fault \<Rightarrow> bool" where
  "boot_fault S itst used app cb free e \<longleftrightarrow>
     e = ExitFailure \<and> (loop_calls_fail S \<or> \<not> free) \<or> init_faults S itst used app cb e"

lemma boot_inv_init:
  fixes w :: "('k, 'z) served_scheme"
  assumes law: "io_laws S itst" "fd_law S itst used" and inv: "boot_inv itst used L base w"
  shows "outcome (boot_fault S itst used app (Some h) free) (\<lambda>v. boot_inv itst used L base v \<and> unmoved base w v)
    (call_app S app tid (Some h) (EvThreadInit l) w)"
proof (cases "call_app S app tid (Some h) (EvThreadInit l) w")
  case (Inl e)
  with inv have "init_faults S itst used app (Some h) e" unfolding init_faults_def by blast
  with Inl show ?thesis by (simp add: boot_fault_def)
next
  case (Inr v)
  with boot_inv_call [OF assms, of app tid "Some h" "EvThreadInit l"] show ?thesis by simp
qed

definition joined ::
  "'k interest \<Rightarrow> ('k \<Rightarrow> int set) \<Rightarrow> nat set \<Rightarrow> nat set \<Rightarrow> ('k, 'z) served_scheme \<Rightarrow> ('k, 'z) served_scheme \<Rightarrow> bool" where
  "joined itst used L base w v \<longleftrightarrow>
     boot_inv itst used (insert (next_addr w) L) (insert (next_addr w + 1) base) v \<and>
     loops (pool v) = loops (pool w) @ [next_addr w] \<and> threads_num (pool v) = threads_num (pool w) \<and>
     loop_ready (next_tid w) (next_addr w) v \<and>
     (\<forall>m t. m \<in> L \<longrightarrow> m + 1 \<in> base \<longrightarrow> loop_ready t m w \<longrightarrow> loop_ready t m v) \<and>
     next_addr v = next_addr w + 2 \<and> next_tid v = next_tid w + 1 \<and> the_acceptor v = the_acceptor w \<and>
     the_server v = the_server w \<and> dom (conns v) = dom (conns w) \<and> (threads_free w \<longrightarrow> threads_free v)"

lemma start_one_boot:
  fixes w :: "('k, 'z) served_scheme"
  assumes law: "io_laws S itst" "fd_law S itst used" and inv: "boot_inv itst used L base w"
    and pl: "set (loops (pool w)) \<subseteq> L"
  shows "outcome (boot_fault S itst used app cb (threads_free w)) (joined itst used L base w) (start_one S app cb i w)"
proof -
  let ?E = "boot_fault S itst used app cb (threads_free w)"
  let ?l = "next_addr w" and ?tid = "next_tid w"
  obtain num t where t: "mkThread (create_num w) (manager_name (pool_name (pool w)) (int i)) = (num, t)" by fastforce
  let ?t = "Thread_start ?tid t"
  let ?w1 = "w\<lparr>next_addr := ?l, next_tid := ?tid, create_num := num, pool := (pool w)\<lparr>threads := threads (pool w) @ [?t]\<rparr>\<rparr>"
  have w1: "upd_pool (\<lambda>p. p\<lparr>threads := threads p @ [?t]\<rparr>) (w\<lparr>create_num := num\<rparr>) = ?w1"
    by (simp add: upd_pool_def)
  have b1: "boot_inv itst used L base ?w1"
    by (rule boot_inv_counts [OF inv])
      (use boot_invD(4) [OF inv] server_okD(4) [OF served_invD(1) [OF boot_invD(1) [OF inv]]] in
        \<open>simp_all add: getAllLoops_def split: if_splits\<close>)
  have ready1: "loop_ready s m (w\<lparr>create_num := n, pool := p\<rparr>) \<longleftrightarrow> loop_ready s m w" for s m n p
    by (simp add: loop_ready_def)
  define P where "P v \<longleftrightarrow> boot_inv itst used (insert ?l L) (insert (?l + 1) base) v \<and> loop_ready ?tid ?l v \<and>
       (\<forall>m s. m \<in> L \<longrightarrow> loop_ready s m w \<longrightarrow> m + 1 \<in> base \<longrightarrow> loop_ready s m v) \<and> pool v = pool ?w1 \<and>
       next_addr v = ?l + 2 \<and> next_tid v = ?tid + 1 \<and> the_acceptor v = the_acceptor w \<and>
       the_server v = the_server w \<and> dom (conns v) = dom (conns w) \<and>
       loopInThread v = (loopInThread w)(?tid \<mapsto> ?l)" for v :: "('k, 'z) served_scheme"
  have made: "outcome ?E P
      (mkEventLoop S ?tid ?l (?l + 1) (?w1\<lparr>next_tid := ?tid + 1, next_addr := ?l + 2\<rparr>))"
    by (rule outcome_mono [OF mkEventLoop_boot [OF law b1 refl, where tid = ?tid]])
      (auto simp: P_def ready1 boot_fault_def threads_free_def)
  have called: "outcome ?E P
      (case cb of None \<Rightarrow> Inr v | Some h \<Rightarrow> call_app S app ?tid (Some h) (EvThreadInit ?l) v)" if v: "P v" for v
  proof (cases cb)
    case None
    with v show ?thesis by simp
  next
    case (Some h)
    have "boot_inv itst used (insert ?l L) (insert (?l + 1) base) v" using v by (simp add: P_def)
    from boot_inv_init [OF law this, of app h "threads_free w" ?tid ?l]
    have "outcome ?E P (call_app S app ?tid (Some h) (EvThreadInit ?l) v)"
      unfolding Some by (rule outcome_weaken) (use v in \<open>auto simp: P_def unmoved_def\<close>)
    with Some show ?thesis by simp
  qed
  have at: "next_addr ?w1 = ?l" "next_tid ?w1 = ?tid" by simp_all
  have "outcome ?E (\<lambda>(l, v). l = ?l \<and> P v) (startLoop S app cb ?w1)"
    unfolding startLoop_def Let_def at
    by (rule outcome_bind [OF made], rule outcome_bind [OF called]) simp_all
  then show ?thesis
    unfolding start_one_def t Let_def prod.case w1
  proof (rule outcome_bind, clarify)
    fix v assume v: "P v"
    let ?p = "(pool v)\<lparr>loops := loops (pool v) @ [?l]\<rparr>"
    let ?u = "v\<lparr>next_addr := next_addr v, next_tid := next_tid v, create_num := create_num v, pool := ?p\<rparr>"
    have u: "upd_pool (\<lambda>p. p\<lparr>loops := loops p @ [?l]\<rparr>) v = ?u" by (simp add: upd_pool_def)
    have pool: "pool v = (pool w)\<lparr>threads := threads (pool w) @ [?t]\<rparr>" using v by (simp add: P_def)
    have "boot_inv itst used (insert ?l L) (insert (?l + 1) base) ?u"
      by (rule boot_inv_counts) (use v pl boot_invD(4) [OF inv] in \<open>auto simp: P_def getAllLoops_def\<close>)
    moreover have "loop_ready s m ?u \<longleftrightarrow> loop_ready s m v" for s m by (simp add: loop_ready_def)
    moreover have "threads_free w \<longrightarrow> threads_free ?u" using v by (simp add: P_def threads_free_def)
    ultimately have "joined itst used L base w ?u" using v pool unfolding joined_def P_def by simp
    then show "outcome ?E (joined itst used L base w) (Inr (upd_pool (\<lambda>p. p\<lparr>loops := loops p @ [?l]\<rparr>) v))"
      unfolding u by simp
  qed
qed

definition all_joined ::
  "'k interest \<Rightarrow> ('k \<Rightarrow> int set) \<Rightarrow> nat set \<Rightarrow> nat set \<Rightarrow> nat \<Rightarrow> ('k, 'z) served_scheme \<Rightarrow> ('k, 'z) served_scheme \<Rightarrow> bool" where
  "all_joined itst used L base n w v \<longleftrightarrow>
     boot_inv itst used (L \<union> (\<lambda>i. next_addr w + 2 * i) ` {..<n}) (base \<union> (\<lambda>i. next_addr w + 2 * i + 1) ` {..<n}) v \<and>
     loops (pool v) = loops (pool w) @ map (\<lambda>i. next_addr w + 2 * i) [0..<n] \<and> threads_num (pool v) = threads_num (pool w) \<and>
     (\<forall>i < n. loop_ready (next_tid w + int i) (next_addr w + 2 * i) v) \<and>
     (\<forall>m t. m \<in> L \<longrightarrow> m + 1 \<in> base \<longrightarrow> loop_ready t m w \<longrightarrow> loop_ready t m v) \<and>
     next_addr v = next_addr w + 2 * n \<and> next_tid v = next_tid w + int n \<and> the_acceptor v = the_acceptor w \<and>
     the_server v = the_server w \<and> dom (conns v) = dom (conns w) \<and> (threads_free w \<longrightarrow> threads_free v)"

lemma start_all_boot:
  fixes w :: "('k, 'z) served_scheme"
  assumes law: "io_laws S itst" "fd_law S itst used" and inv: "boot_inv itst used L base w"
    and pl: "set (loops (pool w)) \<subseteq> L"
  shows "outcome (boot_fault S itst used app cb (threads_free w)) (all_joined itst used L base n w) (runE (start_one S app cb) [0..<n] w)"
proof (induction n)
  case 0
  then show ?case using inv by (simp add: all_joined_def)
next
  case (Suc n)
  let ?l = "\<lambda>i. next_addr w + 2 * i" and ?L = "L \<union> (\<lambda>i. next_addr w + 2 * i) ` {..<n}"
    and ?base = "base \<union> (\<lambda>i. next_addr w + 2 * i + 1) ` {..<n}"
  have "runE (start_one S app cb) [] = Inr" by (simp add: fun_eq_iff)
  then have run: "runE (start_one S app cb) [0..<Suc n] w = bindE (runE (start_one S app cb) [0..<n] w) (start_one S app cb n)"
    by (simp add: runE_append) (cases "runE (start_one S app cb) [0..<n] w", simp_all)
  have "outcome (boot_fault S itst used app cb (threads_free w)) (all_joined itst used L base (Suc n) w) (start_one S app cb n v)"
    if v: "all_joined itst used L base n w v" for v
  proof -
    have v': "boot_inv itst used ?L ?base v" "loops (pool v) = loops (pool w) @ map ?l [0..<n]" "next_addr v = ?l n"
      "next_tid v = next_tid w + int n" using v by (simp_all add: all_joined_def)
    have "set (loops (pool v)) \<subseteq> ?L" using v'(2) pl by auto
    from start_one_boot [OF law v'(1) this, of app cb n] show ?thesis
    proof (rule outcome_mono)
      show "boot_fault S itst used app cb (threads_free w) e" if "boot_fault S itst used app cb (threads_free v) e" for e
        using that v by (auto simp: boot_fault_def all_joined_def)
      fix u assume u: "joined itst used ?L ?base v u"
      have sets: "insert (?l n) ?L = L \<union> ?l ` {..<Suc n}" "insert (?l n + 1) ?base = base \<union> (\<lambda>i. ?l i + 1) ` {..<Suc n}"
        by (auto simp: lessThan_Suc)
      have "boot_inv itst used (L \<union> ?l ` {..<Suc n}) (base \<union> (\<lambda>i. ?l i + 1) ` {..<Suc n}) u"
        using u v'(3) unfolding joined_def sets [symmetric] by simp
      moreover have "loop_ready (next_tid w + int i) (?l i) u" if "i < Suc n" for i
      proof (cases "i = n")
        case True
        with u v'(3,4) show ?thesis by (simp add: joined_def)
      next
        case False
        with that have "?l i \<in> ?L" "?l i + 1 \<in> ?base" "loop_ready (next_tid w + int i) (?l i) v"
          using v by (auto simp: all_joined_def)
        then show ?thesis using u unfolding joined_def by blast
      qed
      ultimately show "all_joined itst used L base (Suc n) w u"
        using u v unfolding all_joined_def joined_def by simp
    qed
  qed
  with Suc show ?case unfolding run by (intro outcome_bind)
qed

text \<open>\<open>ManagerPool::start\<close>, from a pool that has no loop yet.\<close>

lemma pool_start_boot:
  fixes w :: "('k, 'z) served_scheme"
  assumes law: "io_laws S itst" "fd_law S itst used" and inv: "boot_inv itst used L base w"
    and none: "loops (pool w) = []" and n: "n = nat (threads_num (pool w))"
  shows "outcome (boot_fault S itst used app cb (threads_free w)) (all_joined itst used L base n w) (ManagerPool_start S app tid cb w)"
proof -
  let ?E = "boot_fault S itst used app cb (threads_free w)"
  let ?p = "(pool w)\<lparr>pool_start := True\<rparr>"
  let ?w = "w\<lparr>next_addr := next_addr w, next_tid := next_tid w, create_num := create_num w, pool := ?p\<rparr>"
  have w: "upd_pool (\<lambda>p. p\<lparr>pool_start := True\<rparr>) w = ?w" by (simp add: upd_pool_def)
  have "set (getAllLoops ?p) \<subseteq> L"
    using server_okD(4) [OF served_invD(1) [OF boot_invD(1) [OF inv]]] by (simp add: getAllLoops_def split: if_splits)
  then have inv1: "boot_inv itst used L base ?w"
    using boot_invD(4) [OF inv] by (intro boot_inv_counts [OF inv]) simp_all
  have same: "all_joined itst used L base n ?w = all_joined itst used L base n w"
    by (simp add: all_joined_def loop_ready_def threads_free_def fun_eq_iff)
  have "outcome ?E (all_joined itst used L base n w) (runE (start_one S app cb) [0..<n] ?w)"
    using start_all_boot [OF law inv1, where n = n and app = app and cb = cb, unfolded same] none by (simp add: threads_free_def)
  moreover have "outcome ?E (all_joined itst used L base n w) (call_app S app tid (Some h) (EvThreadInit l) v)"
    if v: "all_joined itst used L base n w v" and "cb = Some h" for v l h
  proof -
    let ?L = "L \<union> (\<lambda>i. next_addr w + 2 * i) ` {..<n}" and ?base = "base \<union> (\<lambda>i. next_addr w + 2 * i + 1) ` {..<n}"
    have "boot_inv itst used ?L ?base v" using v by (simp add: all_joined_def)
    from boot_inv_init [OF law this, of app h "threads_free w" tid l] show ?thesis
      unfolding that(2) by (rule outcome_weaken) (use v in \<open>auto simp: all_joined_def unmoved_def threads_free_def\<close>)
  qed
  ultimately show ?thesis
    unfolding ManagerPool_start_def Let_def w using n by (auto intro!: outcome_bind)
qed

section \<open>Starting the server\<close>

lemma boot_inv_server:
  fixes w :: "('k, 'z) served_scheme"
  assumes inv: "boot_inv itst used L base w"
    and "srv_name (g (the_server w)) = srv_name (the_server w)" "ipPort (g (the_server w)) = ipPort (the_server w)"
      "nextConnId (g (the_server w)) = nextConnId (the_server w)" "connections (g (the_server w)) = connections (the_server w)"
  shows "boot_inv itst used L base (upd_server g w)"
proof -
  have name: "conn_name_of ((g (the_server w))\<lparr>nextConnId := i\<rparr>) = conn_name_of ((the_server w)\<lparr>nextConnId := i\<rparr>)" for i
    using assms by (simp add: conn_name_of_def)
  have "boot_inv itst used L base (w\<lparr>the_server := g (the_server w)\<rparr>) \<longleftrightarrow> boot_inv itst used L base w"
    using assms(2-5) name by (simp add: boot_inv_def served_inv_def server_ok_def server_inv_def process_inv_def conn_ok_def
        live_of_def registry_inv_def filed_ok_def belongs_def fds_open_def base_handlers_def light_queues_def calm_def Let_def)
  with inv show ?thesis by (simp add: upd_server_def)
qed

text \<open>What listening changes beside the acceptor: nothing of the other \<open>Filed\<close>s, and no queue.\<close>

definition listened :: "('k \<Rightarrow> int set) \<Rightarrow> ('k, 'z) served_scheme \<Rightarrow> ('k, 'z) served_scheme \<Rightarrow> bool" where
  "listened used w v \<longleftrightarrow> pool v = pool w \<and> the_server v = the_server w \<and> next_addr v = next_addr w \<and>
     (\<exists>b. the_acceptor v = (the_acceptor w)\<lparr>is_listen := b\<rparr>) \<and> leaves (upd_acceptor (\<lambda>_. the_acceptor v) w) v \<and>
     onward (calm (- {acceptFiled (the_acceptor w)}) w) used w v"

lemma Acceptor_listen_effect:
  fixes w :: "('k, 'z) served_scheme"
  assumes law: "fd_law S itst used"
  shows "outcome (\<lambda>_. True) (\<lambda>v. is_listen (the_acceptor v) \<and> listened used w v) (Acceptor_listen S w)"
proof -
  obtain r k where li: "sys_listen S (acceptSocket (the_acceptor w)) 1024 (kern w) = (r, k)" by fastforce
  let ?fp = "acceptFiled (the_acceptor w)"
  let ?u = "upd_acceptor (\<lambda>a. a\<lparr>is_listen := True\<rparr>) w"
  let ?v = "?u\<lparr>kern := k\<rparr>"
  have v: "onward (calm (- {?fp}) w) used w ?v" using fd_lawD(8) [OF law li] by (simp add: onward_def upd_acceptor_def)
  have "outcome (\<lambda>_. True) (\<lambda>u. is_listen (the_acceptor u) \<and> listened used w u) (set_mask S ?fp mask_enableReading ?v)"
  proof (rule outcome_weaken [OF both_outcomes [OF set_mask_stays [of ?u ?v] set_mask_moves [OF fd_lawD(1) [OF law] _ v]]])
    fix u assume u: "leaves ?u u \<and> onward (calm (- {?fp}) w) used w u"
    with served_more [OF leaves_more [of ?u u]]
    have "pool u = pool w" "next_addr u = next_addr w" "the_acceptor u = (the_acceptor w)\<lparr>is_listen := True\<rparr>" "the_server u = the_server w"
      by (simp_all add: upd_acceptor_def)
    with u show "is_listen (the_acceptor u) \<and> listened used w u" by (auto simp: listened_def upd_acceptor_def)
  qed (simp_all add: calm_def)
  with li show ?thesis by (simp add: Acceptor_listen_def Socket_listen_def set_mask_eqs upd_acceptor_def)
qed

lemma queue_listen_effect:
  fixes w :: "('k, 'z) served_scheme"
  assumes law: "fd_law S itst used"
  shows "listened used w (queueinLoop S tid l TListen w) \<and>
     TListen \<in> set (pendFuncs (loopOf (queueinLoop S tid l TListen w) l)) \<and>
     isLoopThread tid l (queueinLoop S tid l TListen w) = isLoopThread tid l w"
proof -
  let ?v = "queueinLoop S tid l TListen w" and ?X = "calm (- {acceptFiled (the_acceptor w)}) w"
  note still = fd_lawD(1) [OF law]
  have lv: "leaves w ?v" by (rule queueinLoop_leaves [OF leaves_refl])
  have o: "onward ?X used w ?v" by (rule queueinLoop_moves [OF still _ _ onward_refl]) simp_all
  have "onward ?X used (post_func l TListen w) ?v"
    by (auto simp: queueinLoop_def wake_after_post_def intro: wakeup_moves [OF still])
  then have "queue_grows ?X l (loopOf (post_func l TListen w) l) (loopOf ?v l)" by (rule onwardD(2))
  then have "TListen \<in> set (pendFuncs (loopOf ?v l))" by (auto simp: queue_grows_def post_func_def upd_loop_def)
  moreover have "isLoopThread tid l ?v = isLoopThread tid l w"
    using onwardD(2) [OF o, of l] by (simp add: isLoopThread_def queue_grows_def)
  moreover have "(the_acceptor w)\<lparr>is_listen := is_listen (the_acceptor w)\<rparr> = the_acceptor w" by simp
  then have "\<exists>b. the_acceptor w = (the_acceptor w)\<lparr>is_listen := b\<rparr>" by metis
  moreover have "upd_acceptor (\<lambda>_. the_acceptor w) w = w" by (simp add: upd_acceptor_def)
  ultimately show ?thesis
    using served_more [OF leaves_more [OF lv]] lv o by (simp add: listened_def)
qed

text \<open>So everything that was ready stays so.\<close>

lemma listened_ready:
  assumes base: "base_handlers base w" and v: "listened used w v" and r: "loop_ready t m w"
  shows "loop_ready t m v"
proof (rule loop_ready_keeps [OF r])
  show "onward (calm (- {acceptFiled (the_acceptor w)}) w) used w v" using v by (simp add: listened_def)
  have "acceptFiled (the_acceptor w) \<noteq> m + 1" using base r by (auto simp: base_handlers_def loop_ready_def)
  then show "m + 1 \<in> sc_fixed (calm (- {acceptFiled (the_acceptor w)}) w)" by (simp add: calm_def)
qed

lemma listened_calm:
  fixes w :: "('k, 'z) served_scheme"
  assumes v: "listened used w v" and base: "base_handlers base w" and q: "light_queues L w" and f: "fds_open used L live w"
  shows "base_handlers base v \<and> light_queues L v \<and> dom (conns v) = dom (conns w) \<and> fds_open used L live v"
proof -
  have lv: "leaves (upd_acceptor (\<lambda>_. the_acceptor v) w) v" and o: "onward (calm (- {acceptFiled (the_acceptor w)}) w) used w v"
    and acc: "acceptFiled (the_acceptor v) = acceptFiled (the_acceptor w)" using v by (auto simp: listened_def)
  have cb: "same_callbacks (filedOf w q) (filedOf v q)" for q
    using leaves_callbacks [OF lv, of q] by (simp add: upd_acceptor_def)
  have "handlers_of (filedOf v q) = handlers_of (filedOf w q)" "readCallback (filedOf v q) = readCallback (filedOf w q)"
    "filed_fd (filedOf v q) = filed_fd (filedOf w q)" for q
    using cb [of q] by (auto simp: same_callbacks_def handlers_of_def)
  moreover have "dom (conns v) = dom (conns w)" using leaves_dom [OF lv] by (simp add: upd_acceptor_def)
  ultimately show ?thesis
    using light_queues_onward [OF q o] base acc f o by (simp add: base_handlers_def fds_open_def onward_def)
qed

definition ready_inv ::
  "'k interest \<Rightarrow> ('k \<Rightarrow> int set) \<Rightarrow> nat set \<Rightarrow> nat set \<Rightarrow> ('k, 'z) served_scheme \<Rightarrow> bool" where
  "ready_inv itst used L base w \<longleftrightarrow> served_inv itst L base w \<and> fds_open used L (live_of base w) w \<and>
     L \<subseteq> {..<next_addr w} \<and> base_handlers base w \<and> light_queues L w"

definition started_up ::
  "'k interest \<Rightarrow> ('k \<Rightarrow> int set) \<Rightarrow> nat set \<Rightarrow> nat set \<Rightarrow> nat \<Rightarrow> int \<Rightarrow> ('k, 'z) served_scheme \<Rightarrow> ('k, 'z) served_scheme \<Rightarrow> bool" where
  "started_up itst used L base n tid w v \<longleftrightarrow>
     ready_inv itst used (L \<union> (\<lambda>i. next_addr w + 2 * i) ` {..<n}) (base \<union> (\<lambda>i. next_addr w + 2 * i + 1) ` {..<n}) v \<and>
     dom (conns v) = dom (conns w) \<and> loops (pool v) = map (\<lambda>i. next_addr w + 2 * i) [0..<n] \<and>
     (\<forall>i < n. loop_ready (next_tid w + int i) (next_addr w + 2 * i) v) \<and> started_count (the_server v) = 1 \<and>
     (is_listen (the_acceptor v) \<or> \<not> isLoopThread tid (srv_loop (the_server w)) v \<and>
        TListen \<in> set (pendFuncs (loopOf v (srv_loop (the_server w))))) \<and>
     (\<forall>m t. m \<in> L \<longrightarrow> m + 1 \<in> base \<longrightarrow> loop_ready t m w \<longrightarrow> loop_ready t m v)"

lemma listened_up:
  fixes w v u :: "('k, 'z) served_scheme"
  assumes v: "all_joined itst used L base n (upd_server (\<lambda>s. s\<lparr>started_count := 1\<rparr>) w) v" and none: "loops (pool w) = []"
    and u: "listened used v u" "served_inv itst (L \<union> (\<lambda>i. next_addr w + 2 * i) ` {..<n}) (base \<union> (\<lambda>i. next_addr w + 2 * i + 1) ` {..<n}) u"
    and l: "is_listen (the_acceptor u) \<or> \<not> isLoopThread tid (srv_loop (the_server w)) u \<and> TListen \<in> set (pendFuncs (loopOf u (srv_loop (the_server w))))"
  shows "started_up itst used L base n tid w u"
proof -
  let ?w = "upd_server (\<lambda>s. s\<lparr>started_count := 1\<rparr>) w"
  let ?L = "L \<union> (\<lambda>i. next_addr w + 2 * i) ` {..<n}" and ?base = "base \<union> (\<lambda>i. next_addr w + 2 * i + 1) ` {..<n}"
  have w: "pool ?w = pool w" "next_addr ?w = next_addr w" "next_tid ?w = next_tid w" "started_count (the_server ?w) = 1"
    "conns ?w = conns w" "loop_ready t m ?w \<longleftrightarrow> loop_ready t m w" for t m by (simp_all add: upd_server_def loop_ready_def)
  have b: "boot_inv itst used ?L ?base v" using v w by (simp add: all_joined_def)
  have "live_of ?base u = live_of ?base v"
  proof -
    have "rel_option (kept_conn (calm (- {acceptFiled (the_acceptor v)}) v) c) (conns v c) (conns u c)" for c
      using u(1) by (simp add: listened_def onward_def)
    note rel = this
    have "map_option conn_filed (conns u c) = map_option conn_filed (conns v c)" for c
      by (cases "conns u c"; cases "conns v c") (use rel [of c] in \<open>auto simp: kept_conn_def\<close>)
    then have "(\<exists>x. conns u c = Some x \<and> conn_filed x = q) \<longleftrightarrow> (\<exists>x. conns v c = Some x \<and> conn_filed x = q)" for c q
      using map_option_eq_Some [of conn_filed "conns u c" q] map_option_eq_Some [of conn_filed "conns v c" q] by simp
    then show ?thesis by (simp add: live_of_def)
  qed
  with listened_calm [OF u(1) boot_invD(5,6,2) [OF b]] boot_invD(3) [OF b] u
  have "ready_inv itst used ?L ?base u \<and> dom (conns u) = dom (conns v)" by (simp add: ready_inv_def listened_def)
  moreover have "loop_ready t m u" if "loop_ready t m v" for t m
    by (rule listened_ready [OF boot_invD(5) [OF b] u(1) that])
  ultimately show ?thesis using v w l none u(1) by (simp add: started_up_def all_joined_def listened_def)
qed

text \<open>The faults of a start: those of its threads, and a failed \<open>listen\<close>.\<close>

definition start_fault ::
  "'k sys \<Rightarrow> 'k interest \<Rightarrow> ('k \<Rightarrow> int set) \<Rightarrow> ('k, 'z) server_app \<Rightarrow> nat option \<Rightarrow> bool \<Rightarrow> fault \<Rightarrow> bool" where
  "start_fault S itst used app cb free e \<longleftrightarrow>
     boot_fault S itst used app cb free e \<or> e = ExitFailure \<and> (\<exists>fd n k. fst (sys_listen S fd n k) \<noteq> 0)"

lemma Server_start_outcome:
  fixes w :: "('k, 'z) served_scheme"
  assumes law: "io_laws S itst" "fd_law S itst used" and inv: "boot_inv itst used L base w"
    and first: "started_count (the_server w) = 0" and none: "loops (pool w) = []" and n: "threads_num (pool w) = int n"
  shows "outcome (start_fault S itst used app (threadInitCallback (the_server w)) (threads_free w)) (started_up itst used L base n tid w) (Server_start S app tid w)"
proof -
  let ?L = "L \<union> (\<lambda>i. next_addr w + 2 * i) ` {..<n}" and ?base = "base \<union> (\<lambda>i. next_addr w + 2 * i + 1) ` {..<n}"
  let ?w = "upd_server (\<lambda>s. s\<lparr>started_count := 1\<rparr>) w"
  have w: "pool ?w = pool w" "next_addr ?w = next_addr w" "srv_loop (the_server ?w) = srv_loop (the_server w)"
    "threads_free ?w = threads_free w" "threadInitCallback (the_server ?w) = threadInitCallback (the_server w)"
    by (simp_all add: upd_server_def threads_free_def)
  let ?cb = "threadInitCallback (the_server w)"
  let ?E = "start_fault S itst used app ?cb (threads_free w)"
  have "boot_inv itst used L base ?w" by (rule boot_inv_server [OF inv]) simp_all
  from pool_start_boot [OF law this, of n app ?cb tid] w n none
  have "outcome ?E (all_joined itst used L base n ?w) (ManagerPool_start S app tid ?cb ?w)"
    by (auto simp: start_fault_def elim: outcome_mono)
  moreover have "outcome ?E (started_up itst used L base n tid w)
    (runinLoop S tid (srv_loop (the_server v)) TListen (Acceptor_listen S) v)" if v: "all_joined itst used L base n ?w v" for v
  proof -
    have v': "served_inv itst ?L ?base v" "srv_loop (the_server v) = srv_loop (the_server w)"
      using v w by (auto simp: all_joined_def dest: boot_invD(1))
    show ?thesis
    proof (cases "isLoopThread tid (srv_loop (the_server v)) v")
      case True
      from both_outcomes [OF Acceptor_listen_outcome [OF law(1) v'(1)] Acceptor_listen_effect [OF law(2)]] True show ?thesis
        by (auto simp: runinLoop_def start_fault_def elim!: outcome_mono intro: listened_up [OF v none])
    next
      case False
      let ?u = "queueinLoop S tid (srv_loop (the_server v)) TListen v"
      have "served_inv itst ?L ?base ?u"
        using served_inv_step [OF v'(1) leaves_srv [OF queueinLoop_leaves [OF leaves_refl]]
            queue_keeps [OF law(1) served_invD(5) [OF v'(1)]]] by blast
      with False queue_listen_effect [OF law(2), of v tid "srv_loop (the_server v)"] show ?thesis
        by (simp add: runinLoop_def v'(2) listened_up [OF v none])
    qed
  qed
  moreover have "upd_server (\<lambda>s. s\<lparr>started_count := started_count s + 1\<rparr>) w = ?w" using first by (simp add: upd_server_def)
  ultimately show ?thesis
    using first w(5) unfolding Server_start_def Let_def by (auto intro!: outcome_bind)
qed

text \<open>
  C14. The first \<open>start\<close> of a server returns with one loop for each thread that was asked for, each owned by its own new
  thread and woken through its own registered event descriptor; the whole invariant holds of the larger process; and the
  acceptor listens, or is queued to. The only faults are the fatal line of a kernel that can fail \<open>epoll_create1\<close>,
  \<open>eventfd\<close> or \<open>listen\<close>, and the faults of the callback for new threads, run in a process in which the invariant holds; so
  that in a kernel that fails none of the three the start of a server without that callback returns. The thread ids from
  the next one on have no loop yet.
\<close>

theorem server_started:
  fixes w :: "('k, 'z) served_scheme"
  assumes law: "io_laws S itst" "fd_law S itst used" and inv: "boot_inv itst used L base w"
    and first: "started_count (the_server w) = 0" and none: "loops (pool w) = []" and n: "threads_num (pool w) = int n"
    and free: "\<And>t. next_tid w \<le> t \<Longrightarrow> loopInThread w t = None"
  shows "outcome
    (\<lambda>e. (e = ExitFailure \<and> (\<exists>k. fst (sys_epoll_create S k) < 0 \<or> fst (sys_eventfd S k) < 0 \<or> (\<exists>fd m. fst (sys_listen S fd m k) \<noteq> 0))) \<or>
       (\<exists>h t l v L' base'. threadInitCallback (the_server w) = Some h \<and> boot_inv itst used L' base' v \<and>
          call_app S app t (Some h) (EvThreadInit l) v = Inl e))
    (\<lambda>v. served_inv itst (L \<union> (\<lambda>i. next_addr w + 2 * i) ` {..<n}) (base \<union> (\<lambda>i. next_addr w + 2 * i + 1) ` {..<n}) v \<and>
       loops (pool v) = map (\<lambda>i. next_addr w + 2 * i) [0..<n] \<and>
       (\<forall>i < n. loop_ready (next_tid w + int i) (next_addr w + 2 * i) v) \<and> started_count (the_server v) = 1 \<and>
       (is_listen (the_acceptor v) \<or> TListen \<in> set (pendFuncs (loopOf v (srv_loop (the_server w))))))
    (Server_start S app tid w)"
proof (rule outcome_mono [OF Server_start_outcome [OF law inv first none n, of app tid]])
  fix e assume "start_fault S itst used app (threadInitCallback (the_server w)) (threads_free w) e"
  moreover have "threads_free w" using free by (simp add: threads_free_def)
  ultimately have "e = ExitFailure \<and> (loop_calls_fail S \<or> (\<exists>fd m k. fst (sys_listen S fd m k) \<noteq> 0)) \<or>
      init_faults S itst used app (threadInitCallback (the_server w)) e"
    unfolding start_fault_def boot_fault_def by blast
  then show "(e = ExitFailure \<and> (\<exists>k. fst (sys_epoll_create S k) < 0 \<or> fst (sys_eventfd S k) < 0 \<or> (\<exists>fd m. fst (sys_listen S fd m k) \<noteq> 0))) \<or>
       (\<exists>h t l v L' base'. threadInitCallback (the_server w) = Some h \<and> boot_inv itst used L' base' v \<and>
          call_app S app t (Some h) (EvThreadInit l) v = Inl e)"
    unfolding init_faults_def loop_calls_fail_def by (elim disjE conjE exE) (blast, blast, blast, metis)
qed (auto simp: started_up_def ready_inv_def)

definition demo_start :: "ksim served" where
  "demo_start = (demo_served kConnected)\<lparr>next_addr := 10, next_tid := 2, create_num := 0,
     pool := setThread_num 2 (mkManagerPool 0 ''io''), the_server := demo_server\<lparr>started_count := 0\<rparr>\<rparr>"

lemma demo_start_inv: "boot_inv sim_interest sim_used {0} {0, 2} demo_start"
proof -
  have live: "live_of {0, 2} (demo_served st) = {0, 1, 2}" for st
    by (auto simp: live_of_def demo_served_def demo_conn_def)
  have "fds_open sim_used {0} {0, 1, 2} (demo_served kConnected)"
    by (simp add: fds_open_def demo_served_def sim_used_def ksim0_def new_filed_def mkFiled_def)
  moreover have "base_handlers {0, 2} (demo_served kConnected)" "light_queues {0} (demo_served kConnected)"
    by (simp_all add: base_handlers_def light_queues_def handlers_of_def demo_served_def mkFiled_def)
  moreover have "{0 :: nat} \<subseteq> {..<next_addr (demo_served kConnected)}" "nextLoop (pool (demo_served kConnected)) = 0"
    by (simp_all add: demo_served_def mkManagerPool_def)
  ultimately have "boot_inv sim_interest sim_used {0} {0, 2} (demo_served kConnected)"
    using demo_served_inv [of kConnected] unfolding boot_inv_def live by simp
  then have "boot_inv sim_interest sim_used {0} {0, 2} (upd_server (\<lambda>s. s\<lparr>started_count := 0\<rparr>) (demo_served kConnected))"
    by (rule boot_inv_server) simp_all
  from boot_inv_counts [OF this, of 10 "setThread_num 2 (mkManagerPool 0 ''io'')" 0 2]
  show ?thesis
    by (simp add: demo_start_def upd_server_def demo_served_def setThread_num_def mkManagerPool_def getAllLoops_def)
qed

lemma sim_calls_succeed:
  "\<not> fst (sys_epoll_create sim_sys k) < 0" "\<not> fst (sys_eventfd sim_sys k) < 0" "\<not> fst (sys_socket sim_sys k) < 0"
  "fst (sys_bind sim_sys fd a k) = 0" "fst (sys_listen sim_sys fd m k) = 0"
  by (simp_all add: sim_sys_def sim_fresh_def)

theorem server_started_witness:
  "\<exists>v. Server_start sim_sys (\<lambda>_ _ _. []) 1 demo_start = Inr v \<and> loops (pool v) = [10, 12] \<and> started_count (the_server v) = 1"
proof -
  have at: "started_count (the_server demo_start) = 0" "loops (pool demo_start) = []"
    "threads_num (pool demo_start) = int 2" "next_addr demo_start = 10" "threadInitCallback (the_server demo_start) = None"
    by (simp_all add: demo_start_def setThread_num_def mkManagerPool_def demo_server_def)
  have free: "loopInThread demo_start t = None" if "next_tid demo_start \<le> t" for t
    using that by (simp add: demo_start_def demo_served_def)
  from server_started [OF sim_io_laws sim_fd_law demo_start_inv at(1-3) free, of "\<lambda>_ _ _. []" 1] at(4,5) show ?thesis
    by (cases "Server_start sim_sys (\<lambda>_ _ _. []) 1 demo_start") (auto simp: upt_rec sim_calls_succeed)
qed

end
