(* ===== verification/SystemInv.thy ===== *)
theory SystemInv
  imports ServerBoot
begin

text \<open>
  The invariant of the running process: what the loops hold in their hands, the functions they still have to call
  and the \<open>Filed\<close>s they still have to dispatch, against the connections, the server's map and the registrations. Every
  handler, queued function and call of the application keeps it, for every application.
\<close>

section \<open>The invariant\<close>

text \<open>
  A connection is idle while its \<open>Filed\<close> is unregistered: before it is established and after it is closed for good.
  Each connection's \<open>Filed\<close> calls its own handlers only; a connection to be established is in the server's map; and
  its name was made from an id already used.
\<close>

definition idle_conns :: "('k, 'z) process_scheme \<Rightarrow> nat set" where
  "idle_conns w = {c. \<exists>x. conns w c = Some x \<and> index (filedOf w (conn_filed x)) = kNew}"

definition conn_sane :: "('k, 'z) served_scheme \<Rightarrow> nat \<Rightarrow> connection \<Rightarrow> bool" where
  "conn_sane w c x \<longleftrightarrow> (\<forall>h \<in> handlers_of (filedOf w (conn_filed x)). handler_conn h = Some c) \<and>
     (c \<in> idle_conns w \<longrightarrow> conn_state x = kConnecting \<or> conn_state x = kDisconnected) \<and>
     (conn_state x = kConnecting \<longrightarrow> c \<in> idle_conns w \<and> connections (the_server w) (conn_name x) = Some c) \<and>
     (\<exists>i. 1 \<le> i \<and> i < nextConnId (the_server w) \<and> conn_name x = conn_name_of ((the_server w)\<lparr>nextConnId := i\<rparr>))"

text \<open>What has to be true for a function queued on the loop \<open>l\<close>.\<close>

definition fit :: "('k, 'z) served_scheme \<Rightarrow> nat \<Rightarrow> task \<Rightarrow> bool" where
  "fit w l t \<longleftrightarrow> (case t of
       TConnectEstablished c \<Rightarrow> (\<exists>x. conns w c = Some x \<and> conn_state x = kConnecting \<and> conn_loop x = l)
     | TSendInLoop c a n \<Rightarrow> c < next_addr w \<and> (\<forall>x. conns w c = Some x \<longrightarrow> conn_state x \<noteq> kConnecting)
     | TRemoveConnection c \<Rightarrow> c < next_addr w \<and> (\<forall>x. conns w c = Some x \<longrightarrow> conn_state x = kDisconnected)
     | TConnectDestroyed c \<Rightarrow> c < next_addr w \<and> (\<forall>nm. connections (the_server w) nm \<noteq> Some c) \<and>
         (\<forall>x. conns w c = Some x \<longrightarrow> conn_state x = kDisconnected \<and> conn_loop x = l)
     | _ \<Rightarrow> True)"

definition tasks_ok :: "nat set \<Rightarrow> (nat \<Rightarrow> task list) \<Rightarrow> ('k, 'z) served_scheme \<Rightarrow> bool" where
  "tasks_ok L ts w \<longleftrightarrow> (\<forall>l \<in> L. (\<forall>t \<in> set (ts l). fit w l t) \<and> (\<forall>c. count_list (ts l) (TConnectEstablished c) \<le> 1))"

text \<open>
  What holds a connection. Until it is destroyed it is on one of three stages: in the server's map, and then its removal
  is queued on the server's loop if it is disconnected; out of the map, with the function that unregisters it queued
  on its own loop; out of the map and unregistered.
\<close>

definition held :: "(nat \<Rightarrow> task list) \<Rightarrow> ('k, 'z) served_scheme \<Rightarrow> nat \<Rightarrow> connection \<Rightarrow> bool" where
  "held ts w c x \<longleftrightarrow>
     connections (the_server w) (conn_name x) = Some c \<and>
       (conn_state x = kDisconnected \<longrightarrow> TRemoveConnection c \<in> set (ts (srv_loop (the_server w)))) \<or>
     TConnectDestroyed c \<in> set (ts (conn_loop x)) \<or>
     c \<in> idle_conns w \<and> connections (the_server w) (conn_name x) \<noteq> Some c"

text \<open>A \<open>Filed\<close> the loop \<open>l\<close> may dispatch.\<close>

definition ripe :: "nat set \<Rightarrow> ('k, 'z) served_scheme \<Rightarrow> nat \<Rightarrow> nat \<Rightarrow> bool" where
  "ripe base w l fp \<longleftrightarrow> fp \<in> live_of base w \<and> filed_loop (filedOf w fp) = l \<and> index (filedOf w fp) \<noteq> kNew"

abbreviation pending :: "(nat \<Rightarrow> task list) \<Rightarrow> ('k, 'z) served_scheme \<Rightarrow> nat \<Rightarrow> task list" where
  "pending C w l \<equiv> C l @ pendFuncs (loopOf w l)"

definition one_name :: "('k, 'z) process_scheme \<Rightarrow> bool" where
  "one_name w \<longleftrightarrow> (\<forall>c x d y. conns w c = Some x \<longrightarrow> conns w d = Some y \<longrightarrow> conn_name x = conn_name y \<longrightarrow> c = d)"

text \<open>
  The whole, of the loops \<open>L\<close> with the threads \<open>owner\<close>: \<open>C l\<close> are the functions the loop has taken out of its queue and
  not called yet, \<open>D l\<close> the \<open>Filed\<close>s its poller reported and it has not dispatched yet.
\<close>

definition system_inv ::
  "'k interest \<Rightarrow> ('k \<Rightarrow> int set) \<Rightarrow> nat set \<Rightarrow> nat set \<Rightarrow> (nat \<Rightarrow> int) \<Rightarrow> (nat \<Rightarrow> task list) \<Rightarrow> (nat \<Rightarrow> nat list) \<Rightarrow>
     ('k, 'z) served_scheme \<Rightarrow> bool" where
  "system_inv itst used L base owner C D w \<longleftrightarrow> served_inv itst L base w \<and>
     (\<forall>q \<in> live_of base w. filed_fd (filedOf w q) \<in> used (kern w)) \<and> base_handlers base w \<and>
     (\<forall>l \<in> L. threadId (loopOf w l) = owner l) \<and>
     (\<forall>c x. conns w c = Some x \<longrightarrow> conn_sane w c x \<and> held (pending C w) w c x) \<and> one_name w \<and>
     tasks_ok L (pending C w) w \<and> (\<forall>l \<in> L. \<forall>fp \<in> set (D l). ripe base w l fp)"

lemma system_invD:
  assumes "system_inv itst used L base owner C D w"
  shows "served_inv itst L base w" and "\<And>q. q \<in> live_of base w \<Longrightarrow> filed_fd (filedOf w q) \<in> used (kern w)"
    and "base_handlers base w" and "\<And>l. l \<in> L \<Longrightarrow> threadId (loopOf w l) = owner l"
    and "\<And>c x. conns w c = Some x \<Longrightarrow> conn_sane w c x" and "\<And>c x. conns w c = Some x \<Longrightarrow> held (pending C w) w c x"
    and "one_name w" and "tasks_ok L (pending C w) w"
    and "\<And>l fp. l \<in> L \<Longrightarrow> fp \<in> set (D l) \<Longrightarrow> ripe base w l fp"
  using assms unfolding system_inv_def by blast+

lemma tasks_okD:
  assumes "tasks_ok L ts w" and "l \<in> L"
  shows "t \<in> set (ts l) \<Longrightarrow> fit w l t" and "count_list (ts l) (TConnectEstablished c) \<le> 1"
  using assms by (simp_all add: tasks_ok_def)

lemma idle_iff: "conns w c = Some x \<Longrightarrow> c \<in> idle_conns w \<longleftrightarrow> index (filedOf w (conn_filed x)) = kNew"
  by (simp add: idle_conns_def)

section \<open>What a step does to it\<close>

text \<open>
  The scope of a step: the idle connections apart from those in \<open>E\<close>, which the step itself establishes or closes, with
  their \<open>Filed\<close>s; the \<open>Filed\<close>s in \<open>R\<close>, which it may unregister; the connections in \<open>K\<close>, which it may disconnect.
\<close>

definition scope_of :: "nat set \<Rightarrow> nat set \<Rightarrow> nat set \<Rightarrow> ('k, 'z) process_scheme \<Rightarrow> scope" where
  "scope_of R E K w = \<lparr>sc_idle = idle_conns w - E,
     sc_fixed = {q. \<exists>c x. c \<in> idle_conns w - E \<and> conns w c = Some x \<and> conn_filed x = q}, sc_gone = R, sc_closing = K,
     sc_home = (\<lambda>c. map_option conn_loop (conns w c))\<rparr>"

lemma scope_of_simps [simp]:
  "sc_idle (scope_of R E K w) = idle_conns w - E" "sc_gone (scope_of R E K w) = R"
  "sc_closing (scope_of R E K w) = K"
  "sc_home (scope_of R E K w) = (\<lambda>c. map_option conn_loop (conns w c))"
  by (simp_all add: scope_of_def)

lemma frozen_scope:
  assumes inv: "system_inv itst used L base owner C D w"
  shows "frozen (scope_of R E K w) w"
proof -
  note p = served_invD(6) [OF system_invD(1) [OF inv]]
  have "conn_filed x \<notin> sc_fixed (scope_of R E K w)" if "conns w c = Some x" "c \<notin> idle_conns w - E" for c x
  proof
    assume "conn_filed x \<in> sc_fixed (scope_of R E K w)"
    then obtain d y where d: "d \<in> idle_conns w - E" "conns w d = Some y" "conn_filed y = conn_filed x"
      by (auto simp: scope_of_def)
    with process_invD(4) [OF p d(2) that(1)] that(2) show False by simp
  qed
  moreover have "conn_state x = kConnecting \<or> conn_state x = kDisconnected" if "conns w c = Some x" "c \<in> idle_conns w" for c x
    using system_invD(5) [OF inv that(1)] that(2) by (simp add: conn_sane_def)
  ultimately show ?thesis by (simp add: frozen_def)
qed

text \<open>
  Connections only leave the server's map when the function that unregisters them has been queued, and it is queued only
  for connections that are no longer in the map.
\<close>

definition released :: "('k, 'z) served_scheme \<Rightarrow> ('k, 'z) served_scheme \<Rightarrow> bool" where
  "released w w' \<longleftrightarrow> (\<forall>nm c. connections (the_server w) nm = Some c \<longrightarrow> connections (the_server w') nm = Some c \<or>
     (\<exists>d x. conns w' d = Some x \<and> conn_name x = nm \<and> TConnectDestroyed d \<in> set (pendFuncs (loopOf w' (conn_loop x))))) \<and>
     (\<forall>l c. TConnectDestroyed c \<in> set (pendFuncs (loopOf w' l)) \<longrightarrow> TConnectDestroyed c \<in> set (pendFuncs (loopOf w l)) \<or>
       (\<forall>nm. connections (the_server w') nm \<noteq> Some c))"

lemma released_posted:
  "released w v \<Longrightarrow> TConnectDestroyed c \<in> set (pendFuncs (loopOf v l)) \<Longrightarrow>
     TConnectDestroyed c \<in> set (pendFuncs (loopOf w l)) \<or> connections (the_server v) nm \<noteq> Some c"
  unfolding released_def by blast

lemma released_quiet:
  "onward X obs w v \<Longrightarrow> sc_closing X = {} \<Longrightarrow> the_server v = the_server w \<Longrightarrow> released w v"
  using quiet_tasks [of X obs w v] by (auto simp: released_def)

text \<open>The function a disconnected connection waits for.\<close>

definition leaving :: "('k, 'z) served_scheme \<Rightarrow> nat \<Rightarrow> connection \<Rightarrow> bool" where
  "leaving w c x \<longleftrightarrow> TRemoveConnection c \<in> set (pendFuncs (loopOf w (srv_loop (the_server w)))) \<or>
     TConnectDestroyed c \<in> set (pendFuncs (loopOf w (conn_loop x)))"

lemma map_le_Some: "m \<subseteq>\<^sub>m n \<Longrightarrow> m k = Some v \<Longrightarrow> n k = Some v"
  by (metis domI map_le_def)

text \<open>
  The step: from the state \<open>w\<close> to \<open>v\<close>, while the functions the loops have in hand go from \<open>C\<close> to \<open>C'\<close>.
\<close>

lemma kept_back:
  assumes o: "onward X obs w v" and dom: "dom (conns v) = dom (conns w)" and y: "conns v c = Some y"
  obtains x where "conns w c = Some x" and "kept_conn X c x y"
proof -
  obtain x where "conns w c = Some x" using domI [of "conns v", OF y] unfolding dom by (auto simp only: domD dom_def mem_Collect_eq)
  with that onwardD(5) [OF o, of c] y show ?thesis by simp
qed

lemma idle_back:
  assumes o: "onward (scope_of R E K w) obs w v" and dom: "dom (conns v) = dom (conns w)" and c: "c \<notin> E"
    and R: "\<And>x. conns w c = Some x \<Longrightarrow> conn_filed x \<notin> R"
  shows "c \<in> idle_conns v \<longleftrightarrow> c \<in> idle_conns w"
proof -
  have "index (filedOf v (conn_filed y)) = kNew \<longleftrightarrow> index (filedOf w (conn_filed x)) = kNew"
    if x: "conns w c = Some x" and y: "conns v c = Some y" for x y
  proof -
    have fp: "conn_filed y = conn_filed x" using onwardD(5) [OF o, of c] x y by (simp add: kept_conn_def)
    show ?thesis
    proof
      assume "index (filedOf w (conn_filed x)) = kNew"
      with x c have "conn_filed x \<in> sc_fixed (scope_of R E K w)" by (auto simp: scope_of_def idle_conns_def)
      with fp onwardD(3) [OF o] \<open>index (filedOf w (conn_filed x)) = kNew\<close> show "index (filedOf v (conn_filed y)) = kNew" by simp
    next
      assume "index (filedOf v (conn_filed y)) = kNew"
      with fp onwardD(4) [OF o, of "conn_filed x"] R [OF x] show "index (filedOf w (conn_filed x)) = kNew" by auto
    qed
  qed
  moreover have "(\<exists>y. conns v c = Some y) \<longleftrightarrow> (\<exists>x. conns w c = Some x)" using dom unfolding dom_def by blast
  ultimately show ?thesis unfolding idle_conns_def by blast
qed

lemma fit_kept:
  assumes inv: "system_inv itst used L base owner C D w" and fit: "fit w l t"
    and o: "onward (scope_of R E K w) obs w v" and leaves: "srv_leaves w v" and fwd: "forward w v"
    and E: "\<And>c. c \<in> E \<Longrightarrow> t \<noteq> TConnectEstablished c"
  shows "fit v l t"
proof -
  have dom: "dom (conns v) = dom (conns w)" and nx: "next_addr v = next_addr w" using leaves by (simp_all add: srv_leaves_def)
  have before: "\<exists>x. conns w c = Some x \<and> conn_state x \<le> conn_state y \<and> conn_loop y = conn_loop x" if y: "conns v c = Some y" for c y
  proof -
    obtain x where x: "conns w c = Some x" by (rule kept_back [OF o dom y])
    with forwardD [OF fwd x] y show ?thesis by (auto simp: conn_forward_def)
  qed
  show ?thesis
  proof (cases t)
    case (TConnectEstablished c)
    with fit obtain x where x: "conns w c = Some x" "conn_state x = kConnecting" "conn_loop x = l" by (auto simp: fit_def)
    then have "c \<in> idle_conns w" using system_invD(5) [OF inv x(1)] by (simp add: conn_sane_def)
    moreover have "c \<notin> E" using E TConnectEstablished by blast
    ultimately have "c \<in> sc_idle (scope_of R E K w)" by simp
    with onwardD(5) [OF o, of c] x TConnectEstablished show ?thesis
      by (auto simp: fit_def option_rel_Some1 kept_conn_def)
  next
    case (TSendInLoop c a n)
    have "conn_state y \<noteq> kConnecting" if y: "conns v c = Some y" for y
    proof -
      obtain x where x: "conns w c = Some x" "conn_state x \<le> conn_state y" using before [OF y] by blast
      with fit TSendInLoop have "conn_state x \<noteq> kConnecting" by (simp add: fit_def)
      with x(2) show ?thesis by (cases "conn_state x") auto
    qed
    with fit TSendInLoop nx show ?thesis by (simp add: fit_def)
  next
    case (TRemoveConnection c)
    have "conn_state y = kDisconnected" if y: "conns v c = Some y" for y
    proof -
      obtain x where x: "conns w c = Some x" "conn_state x \<le> conn_state y" using before [OF y] by blast
      with fit TRemoveConnection have "conn_state x = kDisconnected" by (simp add: fit_def)
      with x(2) show ?thesis by (cases "conn_state y") auto
    qed
    with fit TRemoveConnection nx show ?thesis by (simp add: fit_def)
  next
    case (TConnectDestroyed c)
    have "conn_state y = kDisconnected \<and> conn_loop y = l" if y: "conns v c = Some y" for y
    proof -
      obtain x where x: "conns w c = Some x" "conn_state x \<le> conn_state y" "conn_loop y = conn_loop x" using before [OF y] by blast
      with fit TConnectDestroyed have "conn_state x = kDisconnected" "conn_loop x = l" by (auto simp: fit_def)
      with x(2,3) show ?thesis by (cases "conn_state y") auto
    qed
    moreover have "connections (the_server v) nm \<noteq> Some c" for nm
      using fit TConnectDestroyed leaves by (auto simp: fit_def srv_leaves_def dest: map_le_Some)
    ultimately show ?thesis using fit TConnectDestroyed nx by (simp add: fit_def)
  qed (simp_all add: fit_def)
qed

text \<open>The functions a step appends fit.\<close>

lemma fit_new:
  assumes inv: "system_inv itst used L base owner C D w" and light: "light (scope_of R E K w) l t" and settled: "settled v t"
    and o: "onward (scope_of R E K w) obs w v" and leaves: "srv_leaves w v" and fwd: "forward w v"
    and E: "\<And>c y. c \<in> E \<Longrightarrow> conns v c = Some y \<Longrightarrow> conn_state y \<noteq> kConnecting"
    and posted: "\<And>c nm. t = TConnectDestroyed c \<Longrightarrow> connections (the_server v) nm \<noteq> Some c"
  shows "fit v l t"
proof -
  have dom: "dom (conns v) = dom (conns w)" and nx: "next_addr v = next_addr w" using leaves by (simp_all add: srv_leaves_def)
  have below: "c < next_addr w" if "conns w c \<noteq> None" for c
    using server_okD(6) [OF served_invD(1) [OF system_invD(1) [OF inv]]] that by auto
  show ?thesis
  proof (cases t)
    case (TSendInLoop c a n)
    with light have c: "c \<notin> idle_conns w - E" "conns w c \<noteq> None" by (auto simp: light_def)
    have "conn_state y \<noteq> kConnecting" if y: "conns v c = Some y" for y
    proof (cases "c \<in> E")
      case False
      obtain x where x: "conns w c = Some x" using c(2) by blast
      with c(1) False system_invD(5) [OF inv x] have "conn_state x \<noteq> kConnecting" by (auto simp: conn_sane_def)
      with forwardD [OF fwd x] y show ?thesis by (cases "conn_state x") (auto simp: conn_forward_def)
    qed (use E y in blast)
    with TSendInLoop below [OF c(2)] nx show ?thesis by (simp add: fit_def)
  next
    case (TRemoveConnection c)
    with light have "conns w c \<noteq> None" by (auto simp: light_def)
    with TRemoveConnection below settled nx show ?thesis by (simp add: fit_def)
  next
    case (TConnectDestroyed c)
    with light obtain x where x: "conns w c = Some x" "conn_loop x = l" by (auto simp: light_def)
    have "conn_loop y = l" if "conns v c = Some y" for y
      using forwardD [OF fwd x(1)] that x(2) by (auto simp: conn_forward_def)
    with TConnectDestroyed below [of c] x(1) settled nx posted show ?thesis by (simp add: fit_def)
  qed (use light in \<open>simp_all add: fit_def light_def\<close>)
qed

lemma conn_loop_in:
  "system_inv itst used L base owner C D w \<Longrightarrow> conns w c = Some x \<Longrightarrow> conn_loop x \<in> L"
  using process_invD(1-3) [OF served_invD(6) [OF system_invD(1)]] registry_okD by (metis conn_ok_def)

lemma one_nameD: "one_name w \<Longrightarrow> conns w c = Some x \<Longrightarrow> conns w d = Some y \<Longrightarrow> conn_name x = conn_name y \<Longrightarrow> c = d"
  unfolding one_name_def by blast

lemma count_light: "\<forall>t \<in> set ts. light X l t \<Longrightarrow> count_list ts (TConnectEstablished c) = 0"
  by (induction ts) (auto simp: light_def)

lemma tasks_onward:
  assumes inv: "system_inv itst used L base owner C D w"
    and o: "onward (scope_of R E K w) obs w v" and leaves: "srv_leaves w v" and fwd: "forward w v" and rel: "released w v"
    and C: "\<And>l. \<exists>pre. C l = pre @ C' l"
    and est: "\<And>l c. l \<in> L \<Longrightarrow> c \<in> E \<Longrightarrow> TConnectEstablished c \<notin> set (pending C' w l)"
    and E: "\<And>c y. c \<in> E \<Longrightarrow> conns v c = Some y \<Longrightarrow> conn_state y \<noteq> kConnecting"
  shows "tasks_ok L (pending C' v) v"
proof -
  have "(\<forall>t \<in> set (pending C' v l). fit v l t) \<and> (\<forall>c. count_list (pending C' v l) (TConnectEstablished c) \<le> 1)"
    if l: "l \<in> L" for l
  proof -
    obtain pre where pre: "C l = pre @ C' l" using C by blast
    obtain ts where ts: "pendFuncs (loopOf v l) = pendFuncs (loopOf w l) @ ts" "\<forall>t \<in> set ts. light (scope_of R E K w) l t"
      using onwardD(2) [OF o, of l] by (auto simp: queue_grows_def)
    note old = tasks_okD [OF system_invD(8) [OF inv] l]
    have kept: "fit v l t" if t: "t \<in> set (pending C' w l)" for t
    proof (rule fit_kept [OF inv _ o leaves fwd])
      show "fit w l t" using old(1) t pre by auto
      show "t \<noteq> TConnectEstablished c" if "c \<in> E" for c using est [OF l that] t by auto
    qed
    have new: "fit v l t" if t: "t \<in> set ts" for t
    proof (cases "t \<in> set (pendFuncs (loopOf w l))")
      case False
      with onwardD(7) [OF o, of t l] ts(1) t have "settled v t" by simp
      moreover have "connections (the_server v) nm \<noteq> Some c" if "t = TConnectDestroyed c" for c nm
        using released_posted [OF rel, of c l nm] False t ts(1) that by auto
      ultimately show ?thesis using ts(2) t by (intro fit_new [OF inv _ _ o leaves fwd E]) auto
    qed (use kept in simp)
    have "count_list (pending C' v l) (TConnectEstablished c) \<le> 1" for c
      using old(2) [of c] ts count_light [OF ts(2), of c] pre by simp
    moreover have "set (pending C' v l) = set (pending C' w l) \<union> set ts" using ts(1) by auto
    ultimately show ?thesis using kept new by blast
  qed
  then show ?thesis by (simp add: tasks_ok_def)
qed

lemma one_name_onward:
  assumes "one_name w" and o: "onward X obs w v" and dom: "dom (conns v) = dom (conns w)"
  shows "one_name v"
proof -
  have "c = d" if c: "conns v c = Some x" and d: "conns v d = Some y" and e: "conn_name x = conn_name y" for c x d y
  proof -
    obtain x' where "conns w c = Some x'" "conn_name x = conn_name x'"
      using kept_back [OF o dom c] by (auto simp: kept_conn_def)
    moreover obtain y' where "conns w d = Some y'" "conn_name y = conn_name y'"
      using kept_back [OF o dom d] by (auto simp: kept_conn_def)
    ultimately show ?thesis using one_nameD [OF assms(1)] e by metis
  qed
  then show ?thesis by (auto simp: one_name_def)
qed

text \<open>An entry of the map that is gone was released.\<close>

lemma released_held:
  assumes rel: "released w v" and y: "conns v c = Some y" and one: "one_name v"
    and c: "connections (the_server w) (conn_name y) = Some c"
  shows "connections (the_server v) (conn_name y) = Some c \<or> TConnectDestroyed c \<in> set (pendFuncs (loopOf v (conn_loop y)))"
proof -
  from rel c consider "connections (the_server v) (conn_name y) = Some c"
    | d z where "conns v d = Some z" "conn_name z = conn_name y" "TConnectDestroyed d \<in> set (pendFuncs (loopOf v (conn_loop z)))"
    unfolding released_def by blast
  then show ?thesis
  proof cases
    case (2 d z)
    with one_nameD [OF one 2(1) y] y show ?thesis by auto
  qed simp
qed

lemma same_callbacks_handlers: "same_callbacks f g \<Longrightarrow> handlers_of g = handlers_of f"
  by (simp add: same_callbacks_def handlers_of_def)

lemma system_onward:
  assumes inv: "system_inv itst used L base owner C D w"
    and o: "onward (scope_of R E K w) used w v" and leaves: "srv_leaves w v" and good: "good itst L (live_of base w) w v"
    and rel: "released w v" and C: "\<And>l. \<exists>pre. C l = pre @ C' l"
    and gone: "\<And>l c. l \<in> L \<Longrightarrow> TConnectDestroyed c \<in> set (C l) \<Longrightarrow> TConnectDestroyed c \<notin> set (C' l) \<Longrightarrow> c \<in> E"
    and R: "\<And>l fp. l \<in> L \<Longrightarrow> fp \<in> set (D l) \<Longrightarrow> fp \<notin> R" and Rc: "\<And>c x. conns w c = Some x \<Longrightarrow> conn_filed x \<in> R \<Longrightarrow> c \<in> E"
    and est: "\<And>l c. l \<in> L \<Longrightarrow> c \<in> E \<Longrightarrow> TConnectEstablished c \<notin> set (pending C' w l)"
    and E: "\<And>c y. c \<in> E \<Longrightarrow> conns v c = Some y \<Longrightarrow> conn_state y \<noteq> kConnecting \<and>
      (c \<in> idle_conns v \<longrightarrow> conn_state y = kDisconnected) \<and> held (pending C' v) v c y"
    and K: "\<And>c y. c \<in> K \<Longrightarrow> conns v c = Some y \<Longrightarrow> conn_state y = kDisconnected \<Longrightarrow>
      leaving v c y \<or> (\<exists>x. conns w c = Some x \<and> conn_state x = kDisconnected) \<and> C' = C"
    and removed: "\<And>l c. TRemoveConnection c \<in> set (C l) \<Longrightarrow> TRemoveConnection c \<notin> set (C' l) \<Longrightarrow> c \<in> K"
  shows "system_inv itst used L base owner C' D v"
proof -
  note s = system_invD(1) [OF inv]
  note fwd = goodD(3) [OF good]
  have dom: "dom (conns v) = dom (conns w)" and cb: "\<And>q. same_callbacks (filedOf w q) (filedOf v q)"
    and acc: "the_acceptor v = the_acceptor w" and srv: "\<exists>m. the_server v = (the_server w)\<lparr>connections := m\<rparr>"
    and shrinks: "connections (the_server v) \<subseteq>\<^sub>m connections (the_server w)" and base: "srv_loop (the_server v) = srv_loop (the_server w)"
    using leaves by (auto simp: srv_leaves_def)
  have grown: "set (pendFuncs (loopOf w l)) \<subseteq> set (pendFuncs (loopOf v l))" for l
    using onwardD(2) [OF o, of l] by (auto simp: queue_grows_def)
  from served_inv_step [OF s leaves good] have sv: "served_inv itst L base v" and live: "live_of base v = live_of base w" by simp_all
  have tasks: "tasks_ok L (pending C' v) v"
    by (rule tasks_onward [OF inv o leaves fwd rel C]) (use est E in blast)+
  have one: "one_name v" by (rule one_name_onward [OF system_invD(7) [OF inv] o dom])
  have handlers: "handlers_of (filedOf v q) = handlers_of (filedOf w q)" "readCallback (filedOf v q) = readCallback (filedOf w q)" for q
    using same_callbacks_handlers [OF cb] cb [of q] by (simp_all add: same_callbacks_def)
  have "conn_sane v c y \<and> held (pending C' v) v c y" if y: "conns v c = Some y" for c y
  proof -
    obtain x where x: "conns w c = Some x" "kept_conn (scope_of R E K w) c x y" by (rule kept_back [OF o dom y])
    have f: "conn_filed y = conn_filed x" "conn_name y = conn_name x" "conn_loop y = conn_loop x" "conn_state x \<le> conn_state y"
      using forwardD [OF fwd x(1)] y by (auto simp: conn_forward_def)
    note sane = system_invD(5) [OF inv x(1), unfolded conn_sane_def]
    have lL: "conn_loop y \<in> L" using conn_loop_in [OF inv x(1)] f(3) by simp
    have own: "\<forall>h \<in> handlers_of (filedOf v (conn_filed y)). handler_conn h = Some c" using sane f(1) handlers by simp
    have id: "\<exists>i. 1 \<le> i \<and> i < nextConnId (the_server v) \<and> conn_name y = conn_name_of ((the_server v)\<lparr>nextConnId := i\<rparr>)"
      using sane f(2) srv by (auto simp: conn_name_of_def)
    show ?thesis
    proof (cases "c \<in> E")
      case True
      with E [OF True y] own id show ?thesis by (auto simp: conn_sane_def)
    next
      case False
      have idle: "c \<in> idle_conns v \<longleftrightarrow> c \<in> idle_conns w" by (rule idle_back [OF o dom False]) (use Rc False in blast)
      then have st: "c \<in> idle_conns v \<Longrightarrow> conn_state y = conn_state x" using x(2) False by (simp add: kept_conn_def)
      have map: "connections (the_server v) (conn_name y) = Some c \<or> TConnectDestroyed c \<in> set (pendFuncs (loopOf v (conn_loop y)))"
        if "connections (the_server w) (conn_name x) = Some c"
        by (rule released_held [OF rel y one]) (use that f(2) in simp)
      have new: "c \<in> idle_conns v \<and> connections (the_server v) (conn_name y) = Some c" if k: "conn_state y = kConnecting"
      proof -
        have "conn_state x = kConnecting" using f(4) k by (cases "conn_state x") auto
        with sane idle map have *: "c \<in> idle_conns v" "connections (the_server v) (conn_name y) = Some c \<or>
            TConnectDestroyed c \<in> set (pendFuncs (loopOf v (conn_loop y)))" by simp_all
        moreover have "TConnectDestroyed c \<notin> set (pendFuncs (loopOf v (conn_loop y)))"
          using tasks_okD(1) [OF tasks lL, of "TConnectDestroyed c"] y k by (auto simp: fit_def)
        ultimately show ?thesis by blast
      qed
      have removal: "TRemoveConnection c \<in> set (pending C' v (srv_loop (the_server v))) \<or> TConnectDestroyed c \<in> set (pending C' v (conn_loop y))"
        if d: "conn_state y = kDisconnected"
          and before: "conn_state x = kDisconnected \<Longrightarrow> TRemoveConnection c \<in> set (pending C w (srv_loop (the_server w)))"
      proof (cases "c \<in> K")
        case True
        with K [OF True y d] x(1) before grown base show ?thesis by (auto simp: leaving_def)
      next
        case False
        with d x(2) have "conn_state x = kDisconnected" by (auto simp: kept_conn_def)
        from before [OF this] removed [of c "srv_loop (the_server w)"] False grown base show ?thesis by auto
      qed
      have "held (pending C' v) v c y"
        using system_invD(6) [OF inv x(1)] unfolding held_def [of "pending C w"]
      proof (elim disjE conjE)
        assume h: "connections (the_server w) (conn_name x) = Some c"
          "conn_state x = kDisconnected \<longrightarrow> TRemoveConnection c \<in> set (pending C w (srv_loop (the_server w)))"
        from map [OF h(1)] removal h(2) show ?thesis unfolding held_def by auto
      next
        assume "TConnectDestroyed c \<in> set (pending C w (conn_loop x))"
        with gone [OF lL, of c] False grown [of "conn_loop y"] f(3) show ?thesis by (auto simp: held_def)
      next
        assume "c \<in> idle_conns w" "connections (the_server w) (conn_name x) \<noteq> Some c"
        with idle f(2) show ?thesis by (auto simp: held_def dest: map_le_Some [OF shrinks])
      qed
      with own id idle st sane new show ?thesis by (auto simp: conn_sane_def)
    qed
  qed
  moreover have "ripe base v l fp" if "l \<in> L" "fp \<in> set (D l)" for l fp
    using system_invD(9) [OF inv that] R [OF that] onwardD(4) [OF o, of fp] cb [of fp] live
    by (simp add: ripe_def same_callbacks_def)
  moreover have "threadId (loopOf v l) = owner l" if "l \<in> L" for l
    using system_invD(4) [OF inv that] onwardD(2) [OF o, of l] by (simp add: queue_grows_def)
  moreover have "base_handlers base v" using system_invD(3) [OF inv] by (simp add: base_handlers_def handlers acc)
  moreover have "filed_fd (filedOf v q) \<in> used (kern v)" if "q \<in> live_of base v" for q
    using system_invD(2) [OF inv, of q] that live onwardD(1) [OF o] cb [of q] by (simp add: same_callbacks_def)
  ultimately show ?thesis using sv tasks one unfolding system_inv_def by blast
qed

section \<open>Operations\<close>

text \<open>Removing a connection from the server.\<close>

lemma wakeup_loops [simp]: "loopOf (wakeup S l w) = loopOf w"
  by (simp add: wakeup_def Let_def log_line_def split: prod.split)

lemma queueinLoop_pend [simp]: "pendFuncs (loopOf (queueinLoop S tid l t w) m) = pendFuncs (loopOf w m) @ (if m = l then [t] else [])"
  by (simp add: queueinLoop_def wake_after_post_def post_func_def upd_loop_def)

lemma queueinLoop_server [simp]: "the_server (queueinLoop S tid l t w) = the_server w" for w :: "('k, 'z) served_scheme"
  using served_more [OF leaves_more [OF queueinLoop_leaves [OF leaves_refl, of w S tid l t]]] by simp

lemma queueinLoop_conns [simp]: "conns (queueinLoop S tid l t w) = conns w"
  by (auto simp: queueinLoop_def wake_after_post_def post_func_def wakeup_def log_line_def upd_loop_def Let_def split: prod.split)

text \<open>The entries of the map have the names of their connections.\<close>

definition named :: "('k, 'z) served_scheme \<Rightarrow> bool" where
  "named w \<longleftrightarrow> (\<forall>nm c x. connections (the_server w) nm = Some c \<longrightarrow> conns w c = Some x \<longrightarrow> conn_name x = nm)"

lemma system_named: "system_inv itst used L base owner C D w \<Longrightarrow> named w"
  using server_invD(4) [OF server_okD(2) [OF served_invD(1) [OF system_invD(1)]]] by (fastforce simp: named_def)

lemma removeConnectionInLoop_released:
  assumes "named w"
  shows "outcome (\<lambda>_. True) (released w) (removeConnectionInLoop S tid c w)"
  using assms
  by (auto simp: removeConnectionInLoop_def with_conn_def Let_def released_def upd_server_def named_def split: option.split)

lemma removeConnection_released: "named w \<Longrightarrow> outcome (\<lambda>_. True) (released w) (removeConnection S tid h c w)"
  by (simp add: removeConnection_def runinLoop_def removeConnectionInLoop_released) (simp add: released_def)

lemma stays_server: "leaves w v \<Longrightarrow> the_server v = the_server w" for w v :: "('k, 'z) served_scheme"
  using served_more [OF leaves_more] by blast

text \<open>A part of a handler that disconnects nothing.\<close>

definition calmly :: "('k \<Rightarrow> 'o) \<Rightarrow> ('k, 'z) served_scheme \<Rightarrow> ('k, 'z) served_scheme \<Rightarrow> bool" where
  "calmly obs w v \<longleftrightarrow> leaves w v \<and> onward (calm {} w) obs w v"

lemma calmly_outcome:
  "stays w r \<Longrightarrow> moves (calm {} w) obs w r \<Longrightarrow> outcome (\<lambda>_. True) (calmly obs w) r"
  by (cases r) (simp_all add: calmly_def)

lemma frozen_calmed [simp]: "frozen (calm {} w) w"
  by (rule frozen_calm) simp

lemma calm_closing [simp]: "sc_closing (calm F w) = {}" "sc_idle (calm F w) = {}" "sc_fixed (calm F w) = F"
  by (simp_all add: calm_def)

lemma calmlyD: "calmly obs w v \<Longrightarrow> leaves w v" "calmly obs w v \<Longrightarrow> onward (calm {} w) obs w v"
  by (simp_all add: calmly_def)

lemma calmly_released: "calmly obs w v \<Longrightarrow> released w v" for w v :: "('k, 'z) served_scheme"
  by (rule released_quiet [OF calmlyD(2) calm_closing(1) stays_server [OF calmlyD(1)]])

lemma calmly_then:
  fixes w u v :: "('k, 'z) served_scheme"
  assumes u: "calmly obs w u"
  shows "named w \<Longrightarrow> named u" and "released u v \<Longrightarrow> released w v"
proof -
  note o = calmlyD(2) [OF u] and server = stays_server [OF calmlyD(1) [OF u]]
  show "released u v \<Longrightarrow> released w v"
    using quiet_tasks [OF o calm_closing(1)] unfolding released_def server by blast
  assume n: "named w"
  have "conn_name y = nm" if "connections (the_server w) nm = Some c" "conns u c = Some y" for nm c y
    using onwardD(5) [OF o, of c] that n by (auto simp: option_rel_Some2 kept_conn_def named_def)
  then show "named u" by (simp add: named_def server)
qed

lemma call_app_calmly:
  fixes w :: "('k, 'z) served_scheme"
  assumes "still S obs" and v: "calmly obs w v"
  shows "outcome (\<lambda>_. True) (calmly obs w) (call_app S app tid cb ev v)"
  by (rule calmly_outcome [OF call_app_stays [OF calmlyD(1) [OF v]] call_app_moves [OF assms(1) frozen_calmed calmlyD(2) [OF v]]])

lemma removeConnection_called:
  fixes w u :: "('k, 'z) served_scheme"
  assumes "calmly obs w u" and "named w"
  shows "outcome (\<lambda>_. True) (released w) (with_conn c u (\<lambda>x. case conn_closeCallback x of
      None \<Rightarrow> Inl BadFunctionCall | Some h \<Rightarrow> removeConnection S tid h c u))"
  using outcome_weaken [OF removeConnection_released [OF calmly_then(1) [OF assms]] calmly_then(2) [OF assms(1)]]
  by (simp add: with_conn_def split: option.split)

lemma handleClose_released:
  fixes w :: "('k, 'z) served_scheme"
  assumes s: "still S obs" and n: "named w"
  shows "outcome (\<lambda>_. True) (released w) (handleClose S app (removeConnection S) tid c w)"
proof -
  let ?w = "setState kDisconnected c w"
  have n': "named ?w" using n by (auto simp: named_def setState_def upd_conn_def split: if_splits)
  have "outcome (\<lambda>_. True) (released ?w) (bindE (set_mask S (conn_filed x) (\<lambda>_. kNoneEvent) ?w) (\<lambda>w.
      bindE (call_app S app tid (connectionCallback x) (EvConnection c) w) (\<lambda>w.
        with_conn c w (\<lambda>x. case conn_closeCallback x of None \<Rightarrow> Inl BadFunctionCall | Some h \<Rightarrow> removeConnection S tid h c w))))" for x
    by (rule outcome_bind [OF calmly_outcome [of ?w, OF set_mask_stays set_mask_moves [OF s]]], simp_all)
      (rule outcome_bind [OF call_app_calmly [OF s] removeConnection_called [OF _ n']])
  moreover have "released ?w = released w" by (simp add: released_def fun_eq_iff setState_def upd_conn_def)
  ultimately show ?thesis unfolding handleClose_def set_mask_eqs with_conn_def [of c w] by (cases "conns w c") simp_all
qed

text \<open>Only the closing handlers disconnect, and they end with the removal queued.\<close>

lemma handleClose_leaving:
  fixes w :: "('k, 'z) served_scheme"
  shows "outcome (\<lambda>_. True) (\<lambda>v. \<forall>y. conns v c = Some y \<longrightarrow> leaving v c y) (handleClose S app (removeConnection S) tid c w)"
proof -
  have "outcome (\<lambda>_. True) (\<lambda>v. \<forall>y. conns v c = Some y \<longrightarrow> leaving v c y) (removeConnection S tid h c u)"
    for h and u :: "('k, 'z) served_scheme"
    by (auto simp: removeConnection_def runinLoop_def removeConnectionInLoop_def with_conn_def Let_def leaving_def upd_server_def
        split: option.split)
  then show ?thesis
    unfolding handleClose_def with_conn_def by (auto intro!: outcome_bind [OF any_outcome] split: option.split)
qed

lemma calmly_disconnected:
  fixes w v :: "('k, 'z) served_scheme"
  assumes "calmly obs w v" and "conns v c = Some y" and "conn_state y = kDisconnected"
  shows "\<exists>x. conns w c = Some x \<and> conn_state x = kDisconnected"
  using quiet_states [of "calm {} w" obs w v c y] assms by (simp add: calmly_def)

text \<open>What a handler of the connection \<open>c\<close> may do.\<close>

definition closes :: "nat \<Rightarrow> ('k, 'z) served_scheme \<Rightarrow> ('k, 'z) served_scheme \<Rightarrow> bool" where
  "closes c w v \<longleftrightarrow> released w v \<and> (\<forall>y. conns v c = Some y \<longrightarrow> conn_state y = kDisconnected \<longrightarrow>
     leaving v c y \<or> (\<exists>x. conns w c = Some x \<and> conn_state x = kDisconnected))"

lemma calmly_closes: "calmly obs w v \<Longrightarrow> closes c w v"
  unfolding closes_def using calmly_released calmly_disconnected by blast

lemma handleClose_closes:
  fixes w :: "('k, 'z) served_scheme"
  assumes "still S obs" and "named w"
  shows "outcome (\<lambda>_. True) (closes c w) (handleClose S app (removeConnection S) tid c w)"
  by (rule outcome_weaken [OF both_outcomes [OF handleClose_released [OF assms] handleClose_leaving]]) (simp add: closes_def)

lemma closes_after:
  fixes w u v :: "('k, 'z) served_scheme"
  assumes "calmly obs w u" and "closes c u v"
  shows "closes c w v"
  using calmly_then(2) [OF assms(1)] calmly_disconnected [OF assms(1)] assms(2) unfolding closes_def by blast

lemma handleRead_closes:
  fixes w :: "('k, 'z) served_scheme"
  assumes s: "still S obs" and n: "named w"
  shows "outcome (\<lambda>_. True) (closes c w) (handleRead S app (removeConnection S) tid c now w)"
proof -
  let ?go = "\<lambda>x (n, savedErrno, b, k'). let w = upd_conn c (\<lambda>x. x\<lparr>inputBuffer := b\<rparr>) (w\<lparr>kern := k'\<rparr>) in
         if n > 0 then call_app S app tid (messageCallback x) (EvMessage c now) w
         else if n = 0 then handleClose S app (removeConnection S) tid c w
         else handleError S c (log_line ERROR ''TcpConnection::handleRead''
                (w\<lparr>kern := sys_set_errno S savedErrno (kern w)\<rparr>))"
  have rest: "outcome (\<lambda>_. True) (closes c w) (?go x (n, e, b, k'))" if k': "obs k' = obs (kern w)" for x n e b k'
  proof -
    let ?v = "upd_conn c (\<lambda>x. x\<lparr>inputBuffer := b\<rparr>) (w\<lparr>kern := k'\<rparr>)"
    have "onward (calm {} w) obs w ?v" by (rule onward_conn) (use k' in \<open>simp_all add: kept_conn_def onward_kern\<close>)
    then have v: "calmly obs w ?v" by (simp add: calmly_def)
    have "outcome (\<lambda>_. True) (calmly obs w) (handleError S c (log_line ERROR m (?v\<lparr>kern := sys_set_errno S e (kern ?v)\<rparr>)))" for m
      using v by (intro calmly_outcome handleError_stays handleError_moves [OF s])
        (simp_all add: calmly_def onward_kern stillD(1) [OF s])
    then have "outcome (\<lambda>_. True) (closes c w) (handleError S c (log_line ERROR m (?v\<lparr>kern := sys_set_errno S e (kern ?v)\<rparr>)))" for m
      by (rule outcome_weaken) (rule calmly_closes)
    moreover have "outcome (\<lambda>_. True) (closes c w) (call_app S app tid cb ev ?v)" for cb ev
      by (rule outcome_weaken [OF call_app_calmly [OF s v] calmly_closes])
    moreover have "outcome (\<lambda>_. True) (closes c w) (handleClose S app (removeConnection S) tid c ?v)"
      by (rule outcome_weaken [OF handleClose_closes [OF s calmly_then(1) [OF v n]] closes_after [OF v]])
    ultimately show ?thesis by (simp add: Let_def)
  qed
  have "outcome (\<lambda>_. True) (closes c w) (bindE (readFd S fd 0 b (kern w)) (?go x))" for fd b x
    by (rule outcome_bind [OF readFd_moves [OF s]]) (use rest in auto)
  note go = this
  show ?thesis
  proof (cases "conns w c")
    case (Some x)
    show ?thesis unfolding handleRead_def with_conn_def [of c w] Some option.case by (rule go)
  qed (simp add: handleRead_def with_conn_def)
qed

lemma conn_handler_closes:
  fixes w :: "('k, 'z) served_scheme"
  assumes s: "still S obs" and n: "named w" and h: "conn_handler S app (removeConnection S) tid now h w = Some r"
  shows "outcome (\<lambda>_. True) (closes (the (handler_conn h)) w) r"
proof -
  have e: "outcome (\<lambda>_. True) (closes d w) (handleError S c w)" "outcome (\<lambda>_. True) (closes d w) (handleWrite S tid c w)" for c d
    by (rule outcome_weaken [OF calmly_outcome [OF handleError_stays handleError_moves [OF s]] calmly_closes]; simp)
      (rule outcome_weaken [OF calmly_outcome [OF handleWrite_stays handleWrite_moves [OF s frozen_calmed]] calmly_closes]; simp)
  show ?thesis
    using h e handleRead_closes [OF s n] handleClose_closes [OF s n] by (cases h) (auto simp: handler_conn_def)
qed

lemma removeConnectionInLoop_moves:
  assumes s: "still S obs" and fz: "frozen X w" and closed: "settled w (TConnectDestroyed c)" and c: "c \<in> sc_closing X"
  shows "moves X obs w (removeConnectionInLoop S tid c w)"
proof -
  have "onward X obs w (upd_server g w)" for g by (simp add: onward_def upd_server_def)
  moreover have "settled (upd_server g w) (TConnectDestroyed c)" for g using closed by (simp add: upd_server_def)
  ultimately show ?thesis
    using frozenD(3) [OF fz] c
    by (auto simp: removeConnectionInLoop_def Let_def light_def intro!: with_conn_moves queueinLoop_moves [OF s])
qed

lemma removeConnection_moves:
  assumes s: "still S obs" and fz: "frozen X w" and closed: "settled w (TConnectDestroyed c)" and c: "conns w c \<noteq> None" "c \<in> sc_closing X"
  shows "moves X obs w (removeConnection S tid h c w)"
  using c frozenD(3) [OF fz] closed
  by (auto simp: removeConnection_def runinLoop_def removeConnectionInLoop_moves [OF s fz closed c(2)] light_def
      intro!: queueinLoop_moves [OF s])

text \<open>A step that establishes and unregisters nothing; it may be the call of a function the loop has in hand.\<close>

definition taken :: "nat set \<Rightarrow> (nat \<Rightarrow> task list) \<Rightarrow> (nat \<Rightarrow> task list) \<Rightarrow> bool" where
  "taken K C C' \<longleftrightarrow> (\<forall>l. \<exists>pre. C l = pre @ C' l \<and> (\<forall>c. TConnectDestroyed c \<notin> set pre) \<and>
     (\<forall>c. TRemoveConnection c \<in> set pre \<longrightarrow> c \<in> K))"

lemma taken_refl [simp]: "taken K C C"
  by (simp add: taken_def)

lemma taken_next: "C l = t # ts \<Longrightarrow> (\<And>c. t \<noteq> TConnectDestroyed c) \<Longrightarrow> (\<And>c. t = TRemoveConnection c \<Longrightarrow> c \<in> K) \<Longrightarrow> taken K C (C(l := ts))"
  by (auto simp: taken_def intro: exI [of _ "[t]"])

lemma takenD:
  assumes "taken K C C'"
  shows "\<exists>pre. C l = pre @ C' l" and "TConnectDestroyed c \<in> set (C l) \<Longrightarrow> TConnectDestroyed c \<in> set (C' l)"
    and "TRemoveConnection c \<in> set (C l) \<Longrightarrow> TRemoveConnection c \<notin> set (C' l) \<Longrightarrow> c \<in> K"
proof -
  obtain pre where "C l = pre @ C' l" "\<forall>c. TConnectDestroyed c \<notin> set pre" "\<forall>c. TRemoveConnection c \<in> set pre \<longrightarrow> c \<in> K"
    using assms unfolding taken_def by blast
  then show "\<exists>pre. C l = pre @ C' l" and "TConnectDestroyed c \<in> set (C l) \<Longrightarrow> TConnectDestroyed c \<in> set (C' l)"
    and "TRemoveConnection c \<in> set (C l) \<Longrightarrow> TRemoveConnection c \<notin> set (C' l) \<Longrightarrow> c \<in> K" by auto
qed

lemma system_run:
  assumes inv: "system_inv itst used L base owner C D w" and C: "taken K C C'"
    and r: "keeps itst L (live_of base w) w r" "srv_stays w r" "moves (scope_of {} {} K w) used w r"
      "outcome (\<lambda>_. True) (released w) r"
    and K: "\<And>c v y. r = Inr v \<Longrightarrow> c \<in> K \<Longrightarrow> conns v c = Some y \<Longrightarrow> conn_state y = kDisconnected \<Longrightarrow>
      leaving v c y \<or> (\<exists>x. conns w c = Some x \<and> conn_state x = kDisconnected) \<and> C' = C"
  shows "outcome not_fatal (system_inv itst used L base owner C' D) r"
proof (cases r)
  case (Inr v)
  have "c \<in> {}" if "l \<in> L" "TConnectDestroyed c \<in> set (C l)" "TConnectDestroyed c \<notin> set (C' l)" for l c
    using takenD(2) [OF C that(2)] that(3) by simp
  from system_onward [OF inv _ _ _ _ takenD(1) [OF C] this, of "{}" K v] r K [OF Inr] takenD(3) [OF C] Inr show ?thesis by simp
qed (use r(1) in simp)

lemma system_quiet:
  assumes inv: "system_inv itst used L base owner C D w" and C: "taken {} C C'"
    and r: "keeps itst L (live_of base w) w r" "stays w r" "moves (scope_of {} {} {} w) used w r"
  shows "outcome not_fatal (system_inv itst used L base owner C' D) r"
proof (rule system_run [OF inv C r(1) stays_srv [OF r(2)] r(3)])
  show "outcome (\<lambda>_. True) (released w) r"
    by (rule outcome_weaken [OF both_outcomes [OF r(2,3)]]) (auto intro: released_quiet stays_server)
qed simp

lemma system_api:
  assumes law: "io_laws S itst" "fd_law S itst used" and inv: "system_inv itst used L base owner C D w"
  shows "outcome not_fatal (system_inv itst used L base owner C D) (do_api S tid x w)"
proof -
  have st: "stays w (do_api S tid x w)" by (rule do_api_stays)
  show ?thesis
    by (rule system_quiet [OF inv taken_refl do_api_keeps [OF law(1) served_invD(5) [OF system_invD(1) [OF inv]]]
          st do_api_moves [OF fd_lawD(1) [OF law(2)] frozen_scope [OF inv]]])
qed

text \<open>A step that changes nothing the invariant looks at, except what the loops have in hand.\<close>

lemma system_grown:
  assumes inv: "system_inv itst used L base owner C D w" and sv: "served_inv itst L base v"
    and same: "conns v = conns w" "the_server v = the_server w" "acceptFiled (the_acceptor v) = acceptFiled (the_acceptor w)"
    and filed: "\<And>q. same_registration (filedOf w q) (filedOf v q)" "\<And>q. handlers_of (filedOf v q) = handlers_of (filedOf w q)"
      "\<And>q. readCallback (filedOf v q) = readCallback (filedOf w q)"
    and used: "used (kern w) \<subseteq> used (kern v)" and loops: "\<And>l. l \<in> L \<Longrightarrow> threadId (loopOf v l) = threadId (loopOf w l)"
    and grown: "\<And>l. set (pending C w l) \<subseteq> set (pending C' v l)" and tasks: "tasks_ok L (pending C' v) v"
    and D: "\<And>l fp. l \<in> L \<Longrightarrow> fp \<in> set (D' l) \<Longrightarrow> ripe base w l fp"
  shows "system_inv itst used L base owner C' D' v"
proof -
  have reg: "filed_fd (filedOf v q) = filed_fd (filedOf w q)" "filed_loop (filedOf v q) = filed_loop (filedOf w q)"
    "index (filedOf v q) = index (filedOf w q)" for q
    using filed(1) [of q] by (simp_all add: same_registration_def)
  have live: "live_of base v = live_of base w" by (simp add: live_of_def same)
  have idle: "idle_conns v = idle_conns w" by (simp add: idle_conns_def same reg)
  have sane: "conn_sane v c x = conn_sane w c x" for c x by (simp add: conn_sane_def idle same filed(2))
  have held: "held (pending C' v) v c x" if "held (pending C w) w c x" for c x
    using that grown unfolding held_def idle same by blast
  have "conn_sane v c x \<and> held (pending C' v) v c x" if "conns v c = Some x" for c x
    using system_invD(5,6) [OF inv] that held by (simp add: sane same)
  with inv sv used loops D tasks show ?thesis
    by (auto simp: system_inv_def live reg base_handlers_def filed(2,3) same one_name_def ripe_def)
qed

lemma system_same:
  assumes inv: "system_inv itst used L base owner C D w" and sv: "served_inv itst L base v"
    and same: "conns v = conns w" "the_server v = the_server w"
      "acceptFiled (the_acceptor v) = acceptFiled (the_acceptor w)" "next_addr v = next_addr w"
    and filed: "\<And>q. same_registration (filedOf w q) (filedOf v q)" "\<And>q. handlers_of (filedOf v q) = handlers_of (filedOf w q)"
      "\<And>q. readCallback (filedOf v q) = readCallback (filedOf w q)"
    and used: "used (kern w) \<subseteq> used (kern v)"
    and loops: "\<And>l. threadId (loopOf v l) = threadId (loopOf w l) \<and> pending C' v l = pending C w l"
    and D: "\<And>l fp. l \<in> L \<Longrightarrow> fp \<in> set (D' l) \<Longrightarrow> ripe base w l fp"
  shows "system_inv itst used L base owner C' D' v"
proof (rule system_grown [OF inv sv same(1-3) filed used _ _ _ D])
  have fit: "fit v l t = fit w l t" for l t by (cases t) (simp_all add: fit_def same)
  show "tasks_ok L (pending C' v) v"
    using system_invD(8) [OF inv] loops unfolding tasks_ok_def by (simp add: fit)
qed (use loops in simp_all)

text \<open>A step of the kernel: what is watched stays, and no descriptor of the process is closed.\<close>

lemma system_kern:
  assumes inv: "system_inv itst used L base owner C D w" and k: "itst k = itst (kern w)" "used (kern w) \<subseteq> used k"
  shows "system_inv itst used L base owner C D (w\<lparr>kern := k\<rparr>)"
  by (rule system_same [OF inv])
    (use served_inv_kern [OF system_invD(1) [OF inv] k(1)] system_invD(9) [OF inv] k(2) in \<open>simp_all add: same_registration_def\<close>)

section \<open>Calls of other threads that were overtaken\<close>

text \<open>
  The rest of a \<open>send\<close> of another thread: the function is queued whatever the connection's state has become meanwhile.
\<close>

lemma queueinLoop_used: "still S used \<Longrightarrow> used (kern (queueinLoop S tid l t w)) = used (kern w)"
  using stillD(3) [of S used] by (auto simp: queueinLoop_def wake_after_post_def wakeup_def post_func_def upd_loop_def log_line_def
      Let_def split: prod.split)

lemma system_queue_send:
  fixes w :: "('k, 'z) served_scheme"
  assumes law: "io_laws S itst" "fd_law S itst used" and inv: "system_inv itst used L base owner C D w"
    and c: "conns w c = Some x" and st: "conn_state x \<noteq> kConnecting"
  shows "system_inv itst used L base owner C D (queueinLoop S tid l (TSendInLoop c a n) w)"
proof -
  let ?v = "queueinLoop S tid l (TSendInLoop c a n) w"
  note s = system_invD(1) [OF inv]
  have lv: "leaves w ?v" by (rule queueinLoop_leaves [OF leaves_refl])
  have sv: "served_inv itst L base ?v" using served_inv_step [OF s leaves_srv [OF lv] queue_keeps [OF law(1) served_invD(5) [OF s]]] by blast
  note frame = queueinLoop_frame(1) [OF io_lawsD(2) [OF law(1)], of w tid l "TSendInLoop c a n"]
  have more: "next_addr ?v = next_addr w" "the_acceptor ?v = the_acceptor w"
    using pooled_more [OF leaves_more [OF lv]] served_more [OF leaves_more [OF lv]] by simp_all
  have same: "filedOf ?v = filedOf w" "\<And>m. threadId (loopOf ?v m) = threadId (loopOf w m)"
    by (auto simp: queueinLoop_def wake_after_post_def wakeup_def post_func_def upd_loop_def log_line_def Let_def split: prod.split)
  have below: "c < next_addr w" using server_okD(6) [OF served_invD(1) [OF s]] c by auto
  have fit: "fit ?v m t = fit w m t" for m t by (cases t) (simp_all add: fit_def more)
  have new: "fit w m (TSendInLoop c a n)" for m using below c st by (simp add: fit_def)
  have "tasks_ok L (pending C ?v) ?v"
    using system_invD(8) [OF inv] new unfolding tasks_ok_def by (auto simp: fit)
  then show ?thesis
    by (rule system_grown [OF inv sv, rotated 9])
      (use more same system_invD(9) [OF inv] in \<open>auto simp: same_registration_def queueinLoop_used [OF fd_lawD(1) [OF law(2)]]\<close>)
qed

text \<open>The rest of a \<open>shutdown\<close>, while the connection is still up or is being shut down already.\<close>

lemma system_late_shutdown:
  fixes w :: "('k, 'z) served_scheme"
  assumes law: "io_laws S itst" "fd_law S itst used" and inv: "system_inv itst used L base owner C D w"
    and c: "conns w c = Some x" and st: "conn_state x = kConnected \<or> conn_state x = kDisconnecting"
  shows "outcome not_fatal (system_inv itst used L base owner C D) (shutdown_rest S tid c w)"
proof (cases "conn_state x = kConnected")
  case True
  with system_api [OF law inv, of tid "ApiShutdown c"] c show ?thesis by (simp add: shutdown_split with_conn_def)
next
  case False
  let ?r = "runinLoop S tid (conn_loop x) (TShutdownInLoop c) (shutdownInLoop S c) w"
  note good = served_invD(5) [OF system_invD(1) [OF inv]] and still = fd_lawD(1) [OF law(2)]
  have "x\<lparr>conn_state := kDisconnecting\<rparr> = x" using False st by simp
  then have "(conns w)(c \<mapsto> x\<lparr>conn_state := kDisconnecting\<rparr>) = conns w" using c by (simp add: fun_upd_idem)
  then have same: "setState kDisconnecting c w = w" using c by (simp add: setState_def upd_conn_def)
  have "outcome not_fatal (system_inv itst used L base owner C D) ?r"
  proof (rule system_quiet [OF inv taken_refl])
    show "keeps itst L (live_of base w) w ?r" by (rule runinLoop_keeps [OF law(1) good]) (rule shutdownInLoop_keeps [OF law(1) good])
    show "stays w ?r" by (simp add: runinLoop_def queueinLoop_leaves shutdownInLoop_stays)
    show "moves (scope_of {} {} {} w) used w ?r"
      by (simp add: runinLoop_def shutdownInLoop_moves [OF still] queueinLoop_moves [OF still] light_def)
  qed
  with same c show ?thesis by (simp add: shutdown_rest_def with_conn_def)
qed

section \<open>Establishing and closing for good\<close>

lemma updateHelper_frame:
  fixes w :: "('k, 'z) process_scheme"
  shows "outcome (\<lambda>_. True) (\<lambda>v. conns v = conns w \<and> filedOf v = filedOf w) (updateHelper S l op fp w)"
  by (auto simp: updateHelper_def Let_def split: prod.split)

lemma upd_filed_marks [simp]:
  fixes w :: "('k, 'z) process_scheme"
  shows "conns (upd_filed q g w) = conns w" and "filedOf (upd_filed q g w) q = g (filedOf w q)" and "index (setIndex i f) = i"
    and "conns (upd_epoller l h w) = conns w"
  by (simp_all add: upd_filed_def setIndex_def upd_epoller_def)

lemma set_mask_marks:
  fixes w :: "('k, 'z) process_scheme"
  shows "outcome (\<lambda>_. True) (\<lambda>v. conns v = conns w \<and> index (filedOf v fp) \<noteq> kNew) (set_mask S fp m w)"
proof -
  have added: "outcome (\<lambda>_. True) (\<lambda>v. conns v = conns w \<and> index (filedOf v fp) \<noteq> kNew) (updateHelper S l op fp v)"
    if "conns v = conns w" "index (filedOf v fp) \<noteq> kNew" for v :: "('k, 'z) process_scheme" and l op
    using updateHelper_frame [of v S l op fp] that by (auto elim: outcome_weaken)
  have deleted: "outcome (\<lambda>_. True) (\<lambda>v. conns v = conns w \<and> index (filedOf v fp) \<noteq> kNew)
      (bindE (updateHelper S l EPOLL_CTL_DEL fp v) (\<lambda>w. Inr (upd_filed fp (setIndex kDeleted) w)))"
    if "conns v = conns w" for v :: "('k, 'z) process_scheme" and l
    by (rule outcome_bind [OF updateHelper_frame]) (simp add: that)
  show ?thesis
    unfolding set_mask_def Filed_update_def EventLoop_update_def Epoller_update_def Let_def
    by (auto intro!: added deleted)
qed

lemma Filed_remove_marks: "outcome (\<lambda>_. True) (\<lambda>v. index (filedOf v fp) = kNew) (Filed_remove S fp w)"
  unfolding Filed_remove_def EventLoop_remove_def Epoller_remove_def Let_def
  by (rule outcome_bind [OF any_outcome]) (simp add: upd_filed_def setIndex_def)

lemma connectEstablished_post:
  assumes law: "io_laws S itst" "fd_law S itst used" and pinv: "process_inv itst L live w" and c: "conns w c = Some x"
    and st: "conn_state x = kConnecting"
  shows "outcome (\<lambda>_. True) (\<lambda>v. \<forall>y. conns v c = Some y \<longrightarrow> conn_state y \<noteq> kConnecting \<and> c \<notin> idle_conns v)
    (connectEstablished S app tid c w)"
proof -
  let ?fp = "conn_filed x" and ?w = "upd_filed (conn_filed x) (tie c) (setState kConnected c w)"
  have good: "good itst L live w w" using pinv by (simp add: good_def)
  have cw: "conns ?w c = Some (x\<lparr>conn_state := kConnected\<rparr>)" using c by (simp add: upd_filed_def setState_def upd_conn_def)
  have "outcome (\<lambda>_. True) (\<lambda>v. \<forall>y. conns v c = Some y \<longrightarrow> conn_state y \<noteq> kConnecting \<and> c \<notin> idle_conns v)
    (bindE (set_mask S ?fp mask_enableReading ?w) (\<lambda>w. call_app S app tid (connectionCallback x) (EvConnection c) w))"
  proof (rule outcome_bind [OF outcome_mono [OF both_outcomes [OF establish_keeps [OF law(1) good c] set_mask_marks]]])
    show "conn_state x = kConnecting \<or> conn_state x = kConnected" using st by simp
    fix v :: "('a, 'b) process_scheme"
    assume v: "good itst L live w v \<and> conns v = conns ?w \<and> index (filedOf v ?fp) \<noteq> kNew"
    then have gv: "good itst L live v v" by (simp add: good_def)
    have fz: "frozen (calm {} v) v" by (rule frozen_calm) simp
    show "outcome (\<lambda>_. True) (\<lambda>v. \<forall>y. conns v c = Some y \<longrightarrow> conn_state y \<noteq> kConnecting \<and> c \<notin> idle_conns v)
        (call_app S app tid (connectionCallback x) (EvConnection c) v)"
    proof (rule outcome_mono [OF both_outcomes [OF call_app_keeps [OF law(1) gv] call_app_moves [OF fd_lawD(1) [OF law(2)] fz onward_refl]]])
      fix u :: "('a, 'b) process_scheme"
      assume u: "good itst L live v u \<and> onward (calm {} v) used v u"
      show "\<forall>y. conns u c = Some y \<longrightarrow> conn_state y \<noteq> kConnecting \<and> c \<notin> idle_conns u"
      proof (intro allI impI)
        fix y assume y: "conns u c = Some y"
        have "conn_forward (x\<lparr>conn_state := kConnected\<rparr>) y"
          using forwardD [OF goodD(3), of itst L live v u c] u v cw y by auto
        then have f: "conn_filed y = ?fp" "conn_state y \<noteq> kConnecting" by (auto simp: conn_forward_def)
        have "index (filedOf u ?fp) \<noteq> kNew" using u v onwardD(4) [of "calm {} v" used v u ?fp] by (simp add: calm_def)
        with f y show "conn_state y \<noteq> kConnecting \<and> c \<notin> idle_conns u" by (simp add: idle_conns_def)
      qed
    qed simp
  qed simp_all
  then show ?thesis unfolding connectEstablished_def with_conn_def set_mask_eqs c by simp
qed

lemma system_establish:
  assumes law: "io_laws S itst" "fd_law S itst used" and inv: "system_inv itst used L base owner C D w"
    and c: "conns w c = Some x" and st: "conn_state x = kConnecting" and C: "taken {} C C'"
    and est: "\<And>l. l \<in> L \<Longrightarrow> TConnectEstablished c \<notin> set (pending C' w l)"
  shows "outcome not_fatal (system_inv itst used L base owner C' D) (connectEstablished S app tid c w)"
proof -
  let ?r = "connectEstablished S app tid c w" and ?X = "scope_of {} {c} {} w"
  note p = served_invD(6) [OF system_invD(1) [OF inv]]
  have k: "keeps itst L (live_of base w) w ?r"
    by (rule connectEstablished_keeps [OF law(1) served_invD(5) [OF system_invD(1) [OF inv]]]) (use c st in simp)
  have m: "moves ?X used w ?r"
    by (rule connectEstablished_moves [OF fd_lawD(1) [OF law(2)] frozen_scope [OF inv]]) (use c st in auto)
  show ?thesis
  proof (cases ?r)
    case (Inr v)
    have v: "good itst L (live_of base w) w v" "onward ?X used w v" "leaves w v"
      and post: "\<And>y. conns v c = Some y \<Longrightarrow> conn_state y \<noteq> kConnecting \<and> c \<notin> idle_conns v"
      using k m connectEstablished_stays [of w S app tid c] connectEstablished_post [OF law p c st, of app tid] Inr by simp_all
    have "system_inv itst used L base owner C' D v"
    proof (rule system_onward [OF inv v(2) leaves_srv [OF v(3)] v(1) released_quiet [OF v(2) _ stays_server [OF v(3)]] takenD(1) [OF C]])
      show "d \<in> {c}" if "l \<in> L" "TConnectDestroyed d \<in> set (C l)" "TConnectDestroyed d \<notin> set (C' l)" for l d
        using takenD(2) [OF C that(2)] that(3) by simp
      show "d \<in> {}" if "TRemoveConnection d \<in> set (C l)" "TRemoveConnection d \<notin> set (C' l)" for l d
        by (rule takenD(3) [OF C that])
      show "TConnectEstablished d \<notin> set (pending C' w l)" if "l \<in> L" "d \<in> {c}" for l d using est that by simp
      fix d y assume d: "d \<in> {c}" and y: "conns v d = Some y"
      have "conn_name y = conn_name x" using forwardD [OF goodD(3) [OF v(1)] c] y d by (auto simp: conn_forward_def)
      moreover have "connections (the_server w) (conn_name x) = Some c"
        using system_invD(5) [OF inv c] st by (simp add: conn_sane_def)
      moreover have "conn_state y \<noteq> kDisconnected" using quiet_states [OF v(2) _ y] c st d by auto
      ultimately show "conn_state y \<noteq> kConnecting \<and> (d \<in> idle_conns v \<longrightarrow> conn_state y = kDisconnected) \<and>
          held (pending C' v) v d y"
        using post d y stays_server [OF v(3)] by (simp add: held_def)
    qed simp_all
    with Inr show ?thesis by simp
  qed (use k in simp)
qed

lemma system_destroyed:
  assumes law: "io_laws S itst" "fd_law S itst used" and inv: "system_inv itst used L base owner C D w" and l: "l \<in> L"
    and C: "C l = TConnectDestroyed c # ts" and D: "D l = []"
  shows "outcome not_fatal (system_inv itst used L base owner (C(l := ts)) D) (connectDestroyed S app tid c w)"
proof (cases "conns w c")
  case None
  then show ?thesis by (simp add: connectDestroyed_def with_conn_def)
next
  case (Some x)
  let ?r = "connectDestroyed S app tid c w" and ?fp = "conn_filed x"
  let ?X = "scope_of {?fp} {c} {} w"
  note p = served_invD(6) [OF system_invD(1) [OF inv]]
  have "fit w l (TConnectDestroyed c)" using tasks_okD(1) [OF system_invD(8) [OF inv] l] C by simp
  then have x: "conn_state x = kDisconnected" "conn_loop x = l" "\<And>nm. connections (the_server w) nm \<noteq> Some c"
    using Some by (auto simp: fit_def)
  have k: "keeps itst L (live_of base w) w ?r"
    by (rule connectDestroyed_keeps [OF law(1) served_invD(5) [OF system_invD(1) [OF inv]]])
  have m: "moves ?X used w ?r"
    by (rule connectDestroyed_moves [OF fd_lawD(1) [OF law(2)] frozen_scope [OF inv]]) (use Some x(1) in auto)
  have post: "outcome (\<lambda>_. True) (\<lambda>v. index (filedOf v ?fp) = kNew) ?r"
    unfolding connectDestroyed_def with_conn_def Some by (auto intro!: outcome_bind [OF any_outcome] Filed_remove_marks)
  show ?thesis
  proof (cases ?r)
    case (Inr v)
    have v: "good itst L (live_of base w) w v" "onward ?X used w v" "leaves w v" and new: "index (filedOf v ?fp) = kNew"
      using k m post connectDestroyed_stays [of w S app tid c] Inr by simp_all
    have "system_inv itst used L base owner (C(l := ts)) D v"
    proof (rule system_onward [OF inv v(2) leaves_srv [OF v(3)] v(1) released_quiet [OF v(2) _ stays_server [OF v(3)]]])
      show "d \<in> {}" if "TRemoveConnection d \<in> set (C m)" "TRemoveConnection d \<notin> set ((C(l := ts)) m)" for m d
        using C that by (auto split: if_splits)
      show "\<exists>pre. C m = pre @ (C(l := ts)) m" for m using C by (cases "m = l") simp_all
      show "d \<in> {c}" if "m \<in> L" "TConnectDestroyed d \<in> set (C m)" "TConnectDestroyed d \<notin> set ((C(l := ts)) m)" for m d
        using C that by (auto split: if_splits)
      show "fp \<notin> {?fp}" if "m \<in> L" "fp \<in> set (D m)" for m fp
      proof
        assume "fp \<in> {?fp}"
        with system_invD(9) [OF inv that] process_invD(3) [OF p Some] x(2) have "m = l" by (simp add: ripe_def conn_ok_def)
        with D that show False by simp
      qed
      show "d \<in> {c}" if "conns w d = Some y" "conn_filed y \<in> {?fp}" for d y
        using process_invD(4) [OF p that(1) Some] that(2) by simp
      show "TConnectEstablished d \<notin> set (pending (C(l := ts)) w m)" if m: "m \<in> L" "d \<in> {c}" for m d
      proof
        assume "TConnectEstablished d \<in> set (pending (C(l := ts)) w m)"
        then have "TConnectEstablished c \<in> set (pending C w m)" using C m(2) by (auto split: if_splits)
        from tasks_okD(1) [OF system_invD(8) [OF inv] m(1) this] Some x(1) show False by (auto simp: fit_def)
      qed
      fix d y assume d: "d \<in> {c}" and y: "conns v d = Some y"
      then have "conn_filed y = ?fp" "conn_state y = kDisconnected"
        using onwardD(5) [OF v(2), of c] Some x(1) by (simp_all add: kept_conn_def)
      with new y d x(3) stays_server [OF v(3)]
      show "conn_state y \<noteq> kConnecting \<and> (d \<in> idle_conns v \<longrightarrow> conn_state y = kDisconnected) \<and>
          held (pending (C(l := ts)) v) v d y" by (simp add: idle_conns_def held_def)
    qed simp_all
    with Inr show ?thesis by simp
  qed (use k in simp)
qed

section \<open>New connections\<close>

text \<open>The function that establishes a connection is queued.\<close>

lemma system_posted:
  fixes w :: "('k, 'z) served_scheme"
  assumes law: "io_laws S itst" "fd_law S itst used" and inv: "system_inv itst used L base owner C D w"
    and c: "conns w c = Some x" and st: "conn_state x = kConnecting" and l: "l = conn_loop x"
    and est: "\<And>m. m \<in> L \<Longrightarrow> TConnectEstablished c \<notin> set (pending C w m)"
  shows "system_inv itst used L base owner C D (queueinLoop S tid l (TConnectEstablished c) w)"
proof -
  let ?t = "TConnectEstablished c"
  let ?v = "post_func l ?t w"
  have good: "good itst L (live_of base w) w ?v"
    by (rule good_frame [OF served_invD(5) [OF system_invD(1) [OF inv]]]) (simp_all add: post_func_def)
  have leaves: "leaves w ?v" by (simp add: post_func_def)
  have sv: "served_inv itst L base ?v" using served_inv_step [OF system_invD(1) [OF inv] leaves_srv [OF leaves] good] by blast
  have loop: "loopOf ?v m = (if m = l then (loopOf w l)\<lparr>pendFuncs := pendFuncs (loopOf w l) @ [?t]\<rparr> else loopOf w m)" for m
    by (simp add: post_func_def upd_loop_def)
  note more = served_more [OF leaves_more [OF leaves]]
  have same: "conns ?v = conns w" "filedOf ?v = filedOf w" "kern ?v = kern w" by (simp_all add: post_func_def)
  have fit: "fit ?v m t = fit w m t" for m t by (cases t) (simp_all add: fit_def same more)
  have pend: "pending C ?v m = pending C w m @ (if m = l then [?t] else [])" for m by (simp add: loop)
  have "fit w l ?t" using c st l by (simp add: fit_def)
  moreover have "count_list (pending C ?v m) (TConnectEstablished d) \<le> 1" if m: "m \<in> L" for m d
    using tasks_okD(2) [OF system_invD(8) [OF inv] m, of d] est [OF m] unfolding pend by (auto simp: count_list_0_iff)
  moreover have "fit w m t" if "m \<in> L" "t \<in> set (pending C w m)" for m t
    by (rule tasks_okD(1) [OF system_invD(8) [OF inv] that])
  ultimately have "tasks_ok L (pending C ?v) ?v" unfolding tasks_ok_def fit pend by (auto split: if_splits)
  then have v: "system_inv itst used L base owner C D ?v"
    by (intro system_grown [OF inv sv]) (use more system_invD(9) [OF inv] in \<open>auto simp: same loop same_registration_def\<close>)
  have "leaves ?v (wake_after_post S tid l ?v)" by (simp add: wake_after_post_def wakeup_leaves)
  moreover have "good itst L (live_of base ?v) ?v (wake_after_post S tid l ?v)"
    using good_frame [OF served_invD(5) [OF sv] wakeup_frame(1,2) [OF io_lawsD(2) [OF law(1)]]] served_invD(5) [OF sv]
    by (simp add: wake_after_post_def)
  moreover have "onward (scope_of {} {} {} ?v) used ?v (wake_after_post S tid l ?v)"
    by (simp add: wake_after_post_def wakeup_moves [OF fd_lawD(1) [OF law(2)]])
  ultimately have "outcome not_fatal (system_inv itst used L base owner C D) (Inr (wake_after_post S tid l ?v))"
    by (intro system_quiet [OF v taken_refl]) simp_all
  then show ?thesis by (simp add: queueinLoop_def)
qed

lemma conn_name_fresh:
  assumes inv: "server_inv w" and y: "conn_sane w d y" and ids: "nextConnId (the_server w) \<noteq> 2147483647"
  shows "conn_name y \<noteq> conn_name_of (the_server w)"
proof
  let ?s = "the_server w"
  assume e: "conn_name y = conn_name_of ?s"
  obtain i where i: "1 \<le> i" "i < nextConnId ?s" "conn_name y = conn_name_of (?s\<lparr>nextConnId := i\<rparr>)"
    using y by (auto simp: conn_sane_def)
  have "conn_name_of (?s\<lparr>nextConnId := nextConnId ?s\<rparr>) = conn_name_of (?s\<lparr>nextConnId := i\<rparr>)" using e i(3) by simp
  from conn_name_of_inject [OF server_invD(3) [OF inv] _ _ _ _ this] server_invD(1,2) [OF inv] i show False by simp
qed

lemma new_filed_simps [simp]:
  "handlers_of (new_filed l c fd) = {HConnRead c, HConnWrite c, HConnClose c, HConnError c}" "index (new_filed l c fd) = kNew"
  "filed_fd (new_filed l c fd) = fd"
  by (auto simp: handlers_of_def new_filed_def mkFiled_def kNew_def)

text \<open>The object that \<open>newConnection\<close> makes for a descriptor \<open>accept4\<close> has just opened.\<close>

lemma system_object:
  fixes w :: "('k, 'z) served_scheme"
  assumes law: "io_laws S itst" "fd_law S itst used" and inv: "system_inv itst used L base owner C D w"
    and fresh: "\<And>q. q \<in> live_of base w \<Longrightarrow> filed_fd (filedOf w q) \<noteq> fd" and fd: "fd \<in> used (kern w)"
    and ids: "nextConnId (the_server w) \<noteq> 2147483647" and c: "c = next_addr w"
  shows "\<exists>l v x. newConnection_object S fd peer w = Inr (l, c, v) \<and> system_inv itst used L base owner C D v \<and>
    conns v c = Some x \<and> conn_state x = kConnecting \<and> conn_loop x = l \<and> loopOf v = loopOf w \<and>
    conns w c = None \<and> (\<forall>q \<in> live_of base w. filedOf v q = filedOf w q)"
proof -
  let ?s = "the_server w"
  note s = system_invD(1) [OF inv]
  note ok = served_invD(1) [OF s]
  obtain r a k' where gs: "sys_getsockname S fd (kern w) = (r, a, k')" by (metis prod_cases3)
  obtain l v local where v: "newConnection_object S fd peer w = Inr (l, next_addr w, v)"
    "served_inv itst L base v" "live_of base v = insert (next_addr w + 1) (live_of base w)"
    using served_inv_new [OF law(1) s fresh ids, of peer] by metis
  obtain l' p where p: "getNextLoop (pool w) = Inr (l', p)" using robin.choose_total [OF server_okD(3) [OF ok]] by blast
  define local where "local = (if r < 0 then \<lparr>sin_family = 0, sin_port = 0, sin_addr = 0\<rparr> else a)"
  let ?x = "new_conn ?s l (c + 1) fd local peer"
  have e: "kern v = sys_setsockopt S fd SO_KEEPALIVE 1 k'" "loopOf v = loopOf w"
    "filedOf v = (filedOf w)(c + 1 := new_filed l c fd)" "conns v = (conns w)(c \<mapsto> ?x)" "next_addr v = c + 2"
    "the_server v = ?s\<lparr>nextConnId := nextConnId ?s + 1, connections := (connections ?s)(conn_name_of ?s \<mapsto> c)\<rparr>"
    "the_acceptor v = the_acceptor w"
    using newConnection_object_exact [OF p gs ids c local_def, of peer] v(1) by auto
  have new: "c + 1 \<notin> live_of base w" "conns w c = None" using server_okD(5,6) [OF ok] c by auto
  have used: "used (kern v) = used (kern w)"
    using fd_lawD(9) [OF law(2) gs] stillD(6) [OF fd_lawD(1) [OF law(2)]] by (simp add: e(1))
  have old: "filedOf v q = filedOf w q" if "q \<in> live_of base w" for q using that new(1) by (auto simp: e(3))
  have oldc: "d \<noteq> c \<and> conns v d = Some y \<and> filedOf v (conn_filed y) = filedOf w (conn_filed y)" if "conns w d = Some y" for d y
    using that new(2) old [OF live_of_conn [OF that]] by (auto simp: e(4))
  have which: "d = c \<and> y = ?x \<or> d \<noteq> c \<and> conns w d = Some y" if "conns v d = Some y" for d y
    using that by (auto simp: e(4) split: if_splits)
  have nm: "conn_name y \<noteq> conn_name_of ?s" if "conns w d = Some y" for d y
    by (rule conn_name_fresh [OF server_okD(2) [OF ok] system_invD(5) [OF inv that] ids])
  have idle: "d \<in> idle_conns v \<longleftrightarrow> d \<in> idle_conns w" if "conns w d = Some y" for d y
    using oldc [OF that] that by (simp add: idle_conns_def)
  have ci: "c \<in> idle_conns v" by (simp add: idle_conns_def e(3,4) new_conn_def)
  have nx: "nextConnId (the_server v) = nextConnId ?s + 1" by (simp add: e(6))
  have id: "conn_name_of ((the_server v)\<lparr>nextConnId := i\<rparr>) = conn_name_of (?s\<lparr>nextConnId := i\<rparr>)" for i
    by (simp add: e(6) conn_name_of_def)
  have "conn_sane v d y \<and> held (pending C v) v d y" if y: "conns v d = Some y" for d y
    using which [OF y]
  proof (elim disjE conjE)
    assume d: "d = c" "y = ?x"
    have "conn_name_of ((the_server v)\<lparr>nextConnId := nextConnId ?s\<rparr>) = conn_name ?x" by (simp add: id new_conn_def)
    then have "\<exists>i. 1 \<le> i \<and> i < nextConnId (the_server v) \<and> conn_name ?x = conn_name_of ((the_server v)\<lparr>nextConnId := i\<rparr>)"
      using server_invD(1) [OF server_okD(2) [OF ok]] nx by (intro exI [of _ "nextConnId ?s"]) simp
    then show ?thesis using ci d by (simp add: conn_sane_def held_def) (simp add: e(3,6) new_conn_def handler_conn_def)
  next
    assume d: "d \<noteq> c" "conns w d = Some y"
    note sane = system_invD(5) [OF inv d(2), unfolded conn_sane_def]
    then obtain i where i: "1 \<le> i" "i < nextConnId ?s" "conn_name y = conn_name_of (?s\<lparr>nextConnId := i\<rparr>)" by blast
    then have "\<exists>i. 1 \<le> i \<and> i < nextConnId (the_server v) \<and> conn_name y = conn_name_of ((the_server v)\<lparr>nextConnId := i\<rparr>)"
      using id nx by (intro exI [of _ i]) simp
    moreover have "connections (the_server v) (conn_name y) = connections ?s (conn_name y)" using nm [OF d(2)] by (simp add: e(6))
    moreover from this have "held (pending C v) v d y"
      using system_invD(6) [OF inv d(2)] idle [OF d(2)] by (simp add: held_def e(2)) (simp add: e(6))
    ultimately show ?thesis
      using sane idle [OF d(2)] oldc [OF d(2)] by (auto simp: conn_sane_def)
  qed
  moreover have "one_name v"
  proof -
    have "d = d'" if d: "conns v d = Some y" and d': "conns v d' = Some z" and n: "conn_name y = conn_name z" for d y d' z
    proof -
      have "conn_name ?x = conn_name_of ?s" by (simp add: new_conn_def)
      with which [OF d] which [OF d'] nm [of d y] nm [of d' z] n one_nameD [OF system_invD(7) [OF inv], of d y d' z] show ?thesis by metis
    qed
    then show ?thesis by (auto simp: one_name_def)
  qed
  moreover have "tasks_ok L (pending C v) v"
  proof -
    have "fit v m t" if "m \<in> L" "t \<in> set (pending C w m)" for m t
    proof -
      have "fit w m t" by (rule tasks_okD(1) [OF system_invD(8) [OF inv] that])
      then show ?thesis using new(2) by (cases t) (auto simp: fit_def e(4-6) c split: if_splits)
    qed
    with tasks_okD(2) [OF system_invD(8) [OF inv]] show ?thesis by (simp add: tasks_ok_def e(2))
  qed
  moreover have "ripe base v m fp" if "m \<in> L" "fp \<in> set (D m)" for m fp
    using system_invD(9) [OF inv that] old v(3) by (auto simp: ripe_def)
  moreover have "base_handlers base v"
  proof -
    have "filedOf v q = filedOf w q" if "q \<in> base" for q using that by (intro old) (simp add: live_of_def)
    with system_invD(3) [OF inv] served_invD(4) [OF s] show ?thesis by (simp add: base_handlers_def e(7))
  qed
  moreover have "filed_fd (filedOf v q) \<in> used (kern v)" if "q \<in> live_of base v" for q
    using that system_invD(2) [OF inv, of q] old [of q] fd by (auto simp: v(3) used e(3) c)
  ultimately have "system_inv itst used L base owner C D v"
    using v(2) system_invD(4) [OF inv] by (simp add: system_inv_def e(2))
  then show ?thesis using v(1) c new(2) old e(2) by (auto simp: e(4) new_conn_def)
qed

text \<open>The callbacks of a \<open>Filed\<close> are the same after a step.\<close>

abbreviation same_handlers :: "nat \<Rightarrow> ('k, 'z) machine_scheme \<Rightarrow> ('k, 'z) machine_scheme \<Rightarrow> bool" where
  "same_handlers fp w v \<equiv> handlers_of (filedOf v fp) = handlers_of (filedOf w fp)"

lemma stays_handlers: "srv_stays w r \<Longrightarrow> outcome (\<lambda>_. True) (same_handlers fp w) r"
  by (rule outcome_weaken, assumption) (metis srv_leaves_def same_callbacks_handlers)

lemma system_newConnection:
  fixes w :: "('k, 'z) served_scheme"
  assumes law: "io_laws S itst" "fd_law S itst used" and inv: "system_inv itst used L base owner C D w"
    and fresh: "\<And>q. q \<in> live_of base w \<Longrightarrow> filed_fd (filedOf w q) \<noteq> fd" and fd: "fd \<in> used (kern w)"
    and fp: "fp \<in> live_of base w"
  shows "outcome not_fatal (\<lambda>v. system_inv itst used L base owner C D v \<and> same_handlers fp w v) (newConnection S app tid fd peer w)"
proof (cases "nextConnId (the_server w) = 2147483647")
  case True
  obtain l p where "getNextLoop (pool w) = Inr (l, p)"
    using robin.choose_total [OF server_okD(3) [OF served_invD(1) [OF system_invD(1) [OF inv]]]] by blast
  with True show ?thesis by (simp add: newConnection_def newConnection_object_def upd_pool_def)
next
  case False
  obtain l v x where v: "newConnection_object S fd peer w = Inr (l, next_addr w, v)" "system_inv itst used L base owner C D v"
    "conns v (next_addr w) = Some x" "conn_state x = kConnecting" "conn_loop x = l" "loopOf v = loopOf w"
    "conns w (next_addr w) = None" "\<forall>q \<in> live_of base w. filedOf v q = filedOf w q"
    using system_object [OF law inv fresh fd False refl, of peer] by blast
  let ?c = "next_addr w" and ?r = "runinLoop S tid l (TConnectEstablished (next_addr w)) (connectEstablished S app tid (next_addr w)) v"
  have est: "TConnectEstablished ?c \<notin> set (pending C v m)" if m: "m \<in> L" for m
  proof
    assume "TConnectEstablished ?c \<in> set (pending C v m)"
    with tasks_okD(1) [OF system_invD(8) [OF inv] m, of "TConnectEstablished ?c"] v(6,7) show False by (simp add: fit_def)
  qed
  have "srv_stays v ?r" by (simp add: runinLoop_def stays_srv [OF connectEstablished_stays] leaves_srv [OF queueinLoop_leaves])
  moreover have "outcome not_fatal (system_inv itst used L base owner C D) ?r"
    using system_establish [OF law v(2-4) taken_refl est] system_posted [OF law v(2-4) v(5) [symmetric] est]
    by (simp add: runinLoop_def)
  ultimately have "outcome not_fatal (\<lambda>u. system_inv itst used L base owner C D u \<and> same_handlers fp v u) ?r"
    by (intro both_outcomes stays_handlers)
  then show ?thesis using v(1,8) fp by (simp add: newConnection_def)
qed

lemma system_accept:
  fixes w :: "('k, 'z) served_scheme"
  assumes law: "io_laws S itst" "close_law S itst" "fd_law S itst used" and inv: "system_inv itst used L base owner C D w"
    and fp: "fp \<in> live_of base w"
  shows "outcome not_fatal (\<lambda>v. system_inv itst used L base owner C D v \<and> same_handlers fp w v) (Acceptor_handleRead S app tid w)"
proof -
  obtain n a k' where ac: "sys_accept4 S (acceptSocket (the_acceptor w)) (kern w) = (n, a, k')" by (metis prod_cases3)
  let ?w = "w\<lparr>kern := k'\<rparr>"
  note op = fd_lawD(5) [OF law(3) ac]
  then have used: "used (kern w) \<subseteq> used k'" by (auto simp: opens_def split: if_splits)
  have itst: "itst k' = itst (kern w)" by (rule interest_frameD(8) [OF io_lawsD(2) [OF law(1)] ac])
  have inv': "system_inv itst used L base owner C D ?w" by (rule system_kern [OF inv itst used])
  have live: "live_of base ?w = live_of base w" by (simp add: live_of_def)
  have log: "system_inv itst used L base owner C D (log_line lv m v)" if "system_inv itst used L base owner C D v"
    for lv m and v :: "('k, 'z) served_scheme"
    by (rule system_same [OF that served_inv_log [OF system_invD(1) [OF that]]])
      (use system_invD(9) [OF that] in \<open>simp_all add: log_line_def same_registration_def\<close>)
  show ?thesis
  proof (cases "0 \<le> n")
    case True
    with op have n: "n \<in> used k'" "n \<notin> used (kern w)" by (simp_all add: opens_def)
    have fresh: "filed_fd (filedOf ?w q) \<noteq> n" if "q \<in> live_of base ?w" for q
      using system_invD(2) [OF inv, of q] that n(2) live by auto
    have "outcome not_fatal (\<lambda>v. system_inv itst used L base owner C D v \<and> same_handlers fp w v) (newConnection S app tid n a ?w)"
      using system_newConnection [OF law(1,3) inv' fresh, of fp app tid a] n(1) fp live by simp
    moreover have "system_inv itst used L base owner C D (?w\<lparr>kern := sys_close S n k'\<rparr>)"
    proof (rule system_same [OF inv])
      show "served_inv itst L base (?w\<lparr>kern := sys_close S n k'\<rparr>)"
        using served_inv_close [OF law(2) system_invD(1) [OF inv'] fresh] by simp
      show "used (kern w) \<subseteq> used (kern (?w\<lparr>kern := sys_close S n k'\<rparr>))"
        using used n(2) fd_lawD(6) [OF law(3)] by auto
    qed (use system_invD(9) [OF inv] in \<open>simp_all add: same_registration_def\<close>)
    ultimately show ?thesis
      using True by (simp add: Acceptor_handleRead_def Socket_accept_def ac)
  next
    case False
    with log [OF inv'] log [OF log [OF inv']] show ?thesis
      by (simp add: Acceptor_handleRead_def Socket_accept_def ac Let_def log_line_def)
  qed
qed

section \<open>Everything that runs on a loop\<close>

lemma system_handler:
  fixes w :: "('k, 'z) served_scheme"
  assumes law: "io_laws S itst" "close_law S itst" "fd_law S itst used" and inv: "system_inv itst used L base owner C D w"
    and fp: "ripe base w l fp" and h: "h \<in> handlers_of (filedOf w fp)"
  shows "outcome not_fatal (\<lambda>v. system_inv itst used L base owner C D v \<and> same_handlers fp w v) (server_handler S app tid now h w)"
proof -
  note still = fd_lawD(1) [OF law(3)] and good = served_invD(5) [OF system_invD(1) [OF inv]]
  have c: "c \<notin> idle_conns w" if hc: "handler_conn h = Some c" for c
  proof -
    have "fp \<notin> base" using system_invD(3) [OF inv] h hc by (auto simp: base_handlers_def)
    then obtain d x where x: "conns w d = Some x" "conn_filed x = fp" using fp by (auto simp: ripe_def live_of_def)
    with system_invD(5) [OF inv x(1)] h hc have "d = c" by (simp add: conn_sane_def)
    with x fp show ?thesis by (simp add: idle_conns_def ripe_def)
  qed
  show ?thesis
  proof (cases "conn_handler S app (removeConnection S) tid now h w")
    case (Some r)
    note st = conn_handler_stays [OF Some]
    obtain d where d: "handler_conn h = Some d" using Some by (cases h) (auto simp: handler_conn_def)
    have "moves (scope_of {} {} {d} w) used w r"
      by (rule conn_handler_moves [OF still frozen_scope [OF inv] _ removeConnection_moves [OF still] Some]) (use c d in simp_all)
    moreover have "outcome (\<lambda>_. True) (closes d w) r" using conn_handler_closes [OF still system_named [OF inv] Some] d by simp
    ultimately have "outcome not_fatal (system_inv itst used L base owner C D) r"
      by (intro system_run [OF inv taken_refl srv.conn_handler_keeps [OF law(1) good Some] st, of "{d}"])
        (auto simp: closes_def elim: outcome_weaken)
    then show ?thesis by (simp add: server_handler_def Some both_outcomes [OF _ stays_handlers [OF st]])
  next
    case None
    show ?thesis
    proof (cases h)
      case (HWakeupRead m)
      have lv: "leaves w (handelwakeupRead S m w)" by (rule handelwakeupRead_leaves)
      have "onward (scope_of {} {} {} w) used w (handelwakeupRead S m w)"
        using stillD(3) [OF still] by (auto simp: handelwakeupRead_def onward_kern Let_def split: prod.split)
      with handelwakeupRead_good [OF law(1) good] lv
      have "outcome not_fatal (system_inv itst used L base owner C D) (Inr (handelwakeupRead S m w))"
        by (intro system_quiet [OF inv taken_refl]) simp_all
      moreover have "same_handlers fp w (handelwakeupRead S m w)" by (rule same_callbacks_handlers [OF leaves_callbacks [OF lv]])
      ultimately show ?thesis using HWakeupRead by (simp add: server_handler_def)
    next
      case HAcceptRead
      with system_accept [OF law inv] fp show ?thesis by (simp add: server_handler_def ripe_def)
    qed (use None in simp_all)
  qed
qed

lemma system_listen:
  fixes w :: "('k, 'z) served_scheme"
  assumes law: "io_laws S itst" "fd_law S itst used" and inv: "system_inv itst used L base owner C D w" and C: "taken {} C C'"
  shows "outcome (\<lambda>e. e = ExitFailure \<or> not_fatal e) (system_inv itst used L base owner C' D) (Acceptor_listen S w)"
proof -
  obtain r k' where li: "sys_listen S (acceptSocket (the_acceptor w)) 1024 (kern w) = (r, k')" by fastforce
  let ?v = "upd_acceptor (\<lambda>a. a\<lparr>is_listen := True\<rparr>) (w\<lparr>kern := k'\<rparr>)"
  have "system_inv itst used L base owner C D (w\<lparr>kern := k'\<rparr>)"
    using system_kern [OF inv interest_frameD(9) [OF io_lawsD(2) [OF law(1)] li]] fd_lawD(8) [OF law(2) li] by simp
  then have v: "system_inv itst used L base owner C D ?v"
    by (rule system_same) (use system_invD(1,9) [OF \<open>system_inv itst used L base owner C D (w\<lparr>kern := k'\<rparr>)\<close>] in
        \<open>simp_all add: served_inv_listening\<close>, simp_all add: upd_acceptor_def same_registration_def)
  let ?fp = "acceptFiled (the_acceptor ?v)"
  note s = system_invD(1) [OF v]
  have base: "conn_filed x \<noteq> ?fp" if "conns ?v c = Some x" for c x
    using served_invD(3) [OF s that] served_invD(4) [OF s] by metis
  have st: "stays ?v (set_mask S ?fp mask_enableReading ?v)" by (rule set_mask_stays [OF leaves_refl])
  have "keeps itst L (live_of base ?v) ?v (set_mask S ?fp mask_enableReading ?v)"
    by (rule base_request [OF law(1) served_invD(5) [OF s] _ base]) (use served_invD(4) [OF s] in \<open>simp_all add: live_of_def\<close>)
  moreover have "moves (scope_of {} {} {} ?v) used ?v (set_mask S ?fp mask_enableReading ?v)"
    by (rule set_mask_moves [OF fd_lawD(1) [OF law(2)] _ onward_refl]) (use base in \<open>auto simp: scope_of_def\<close>)
  ultimately have "outcome not_fatal (system_inv itst used L base owner C' D) (set_mask S ?fp mask_enableReading ?v)"
    by (intro system_quiet [OF v C _ st])
  moreover have "acceptFiled (the_acceptor ?v) = acceptFiled (the_acceptor w)" by (simp add: upd_acceptor_def)
  moreover have "(upd_acceptor (\<lambda>a. a\<lparr>is_listen := True\<rparr>) w)\<lparr>kern := k'\<rparr> = ?v" by (simp add: upd_acceptor_def)
  moreover have "kern (upd_acceptor g w) = kern w" for g by (simp add: upd_acceptor_def)
  ultimately show ?thesis
    using li by (auto simp: Acceptor_listen_def Socket_listen_def set_mask_eqs elim: outcome_mono)
qed

lemma system_task:
  fixes w :: "('k, 'z) served_scheme"
  assumes law: "io_laws S itst" "fd_law S itst used" and inv: "system_inv itst used L base owner C D w"
    and l: "l \<in> L" and C: "C l = t # ts" and D: "D l = []"
  shows "outcome (\<lambda>e. not_fatal e \<or> t = TListen) (system_inv itst used L base owner (C(l := ts)) D) (server_task S app tid t w)"
proof -
  let ?inv = "system_inv itst used L base owner (C(l := ts)) D"
  note still = fd_lawD(1) [OF law(2)] and good = served_invD(5) [OF system_invD(1) [OF inv]]
  note fit = tasks_okD(1) [OF system_invD(8) [OF inv] l, of t]
  have it: "fit w l t" using fit C by simp
  have "outcome not_fatal ?inv (server_task S app tid t w)" if t: "t \<noteq> TListen"
  proof (cases "\<exists>c. t = TConnectDestroyed c \<or> t = TConnectEstablished c")
    case True
    then show ?thesis
    proof (elim exE disjE)
      fix c assume t: "t = TConnectDestroyed c"
      with system_destroyed [OF law inv l C [unfolded t] D] show ?thesis by (simp add: server_task_def)
    next
      fix c assume t: "t = TConnectEstablished c"
      obtain x where x: "conns w c = Some x" "conn_state x = kConnecting" "conn_loop x = l" using it t by (auto simp: fit_def)
      have "TConnectEstablished c \<notin> set (pending (C(l := ts)) w m)" if m: "m \<in> L" for m
      proof (cases "m = l")
        case True
        with tasks_okD(2) [OF system_invD(8) [OF inv] l, of c] C t show ?thesis by (simp add: count_list_0_iff)
      next
        case False
        show ?thesis
        proof
          assume "TConnectEstablished c \<in> set (pending (C(l := ts)) w m)"
          with False have "TConnectEstablished c \<in> set (pending C w m)" by simp
          from tasks_okD(1) [OF system_invD(8) [OF inv] m this] x False show False by (simp add: fit_def)
        qed
      qed
      with system_establish [OF law inv x(1,2) taken_next [of C, OF C]] t show ?thesis by (simp add: server_task_def)
    qed
  next
    case False
    then have tk: "taken K C (C(l := ts))" if "\<And>c. t = TRemoveConnection c \<Longrightarrow> c \<in> K" for K
      using that by (intro taken_next [of C, OF C]) blast+
    show ?thesis
    proof (cases "conn_task S app tid t w")
      case (Some r)
      note st = conn_task_stays [OF Some]
      have k: "keeps itst L (live_of base w) w r"
        by (rule conn_task_keeps [OF law(1) good Some]) (use False in simp)
      have rm: "t \<noteq> TRemoveConnection c" for c using Some by auto
      have m: "moves (scope_of {} {} {} w) used w r"
        by (rule conn_task_moves [OF still frozen_scope [OF inv] Some])
          (use False system_invD(5) [OF inv] it in \<open>auto simp: fit_def conn_sane_def\<close>)
      from system_quiet [OF inv tk k st m] rm show ?thesis by (simp add: server_task_def Some)
    next
      case None
      with t obtain c where c: "t = TRemoveConnection c" by (cases t) simp_all
      have m: "moves (scope_of {} {} {c} w) used w (removeConnectionInLoop S tid c w)"
        by (rule removeConnectionInLoop_moves [OF still frozen_scope [OF inv]]) (use it c in \<open>simp_all add: fit_def\<close>)
      have "outcome not_fatal ?inv (removeConnectionInLoop S tid c w)"
        by (rule system_run [OF inv tk removeConnectionInLoop_keeps [OF law(1) good] removeConnectionInLoop_stays m
            removeConnectionInLoop_released [OF system_named [OF inv]]])
          (use c in \<open>auto simp: removeConnectionInLoop_def with_conn_def leaving_def upd_server_def Let_def split: option.splits\<close>)
      with c show ?thesis by (simp add: server_task_def)
    qed
  qed
  moreover have "outcome (\<lambda>e. not_fatal e \<or> t = TListen) ?inv (Acceptor_listen S w)" if "t = TListen"
    by (rule outcome_mono [OF system_listen [OF law inv taken_next [of C, OF C]]]) (use that in auto)
  ultimately show ?thesis by (cases "t = TListen") (auto simp: server_task_def elim: outcome_mono)
qed

text \<open>The dispatch of one \<open>Filed\<close>: the callbacks it may call are those it has at the start.\<close>

lemma handleEvent_outcome:
  assumes w: "P w" and E: "E BadFunctionCall" and here: "\<And>v. P v \<Longrightarrow> getf v \<noteq> None"
    and run: "\<And>h v. P v \<Longrightarrow> h \<in> handlers_of (the (getf w)) \<Longrightarrow> outcome E P (run h v)"
  shows "outcome E P (handleEvent getf alive run w)"
proof -
  have found: "use_filed getf v k = k (the (getf v))" if "P v" for v k using here [OF that] by (auto simp: use_filed_def)
  have call: "outcome E P (call_copied run cb v)" if "P v" "\<And>h. cb = Some h \<Longrightarrow> h \<in> handlers_of (the (getf w))" for cb v
    using that E run by (simp add: call_copied_def split: option.split)
  have "outcome E P (handleEvent_callbacks getf run w)"
    unfolding handleEvent_callbacks_def found [OF w]
    by (intro outcome_bind [where P = P]) (auto simp: found w handlers_of_def intro!: call outcome_bind [where P = P])
  with w show ?thesis by (simp add: handleEvent_def found)
qed

text \<open>A \<open>Filed\<close> that is to be dispatched still exists.\<close>

lemma ripe_found:
  assumes inv: "system_inv itst used L base owner C D w" and ripe: "ripe base w l fp"
  shows "find_filed fp w = Some (filedOf w fp)"
proof -
  have "conns w c \<noteq> None" if c: "filed_owner (filedOf w fp) = Some c" for c
  proof -
    from c have h: "HConnRead c \<in> handlers_of (filedOf w fp)"
      by (auto simp: filed_owner_def handlers_of_def split: option.splits handler.splits)
    from ripe consider "fp \<in> base" | d x where "conns w d = Some x" "conn_filed x = fp" by (auto simp: ripe_def live_of_def)
    then show ?thesis
    proof cases
      case 1
      then have "handler_conn (HConnRead c) = None" using system_invD(3) [OF inv] h unfolding base_handlers_def by blast
      then show ?thesis by (simp add: handler_conn_def)
    next
      case (2 d x)
      then have "handler_conn (HConnRead c) = Some d" using system_invD(5) [OF inv 2(1)] h unfolding conn_sane_def by blast
      with 2 show ?thesis by (simp add: handler_conn_def)
    qed
  qed
  then show ?thesis by (auto simp: find_filed_def split: option.split)
qed

lemma system_event:
  fixes w :: "('k, 'z) served_scheme"
  assumes law: "io_laws S itst" "close_law S itst" "fd_law S itst used" and inv: "system_inv itst used L base owner C D w"
    and l: "l \<in> L" and D: "D l = fp # fps"
  shows "outcome not_fatal (system_inv itst used L base owner C (D(l := fps)))
    (handleEvent (find_filed fp) alive (server_handler S app tid now) w)"
proof -
  let ?P = "\<lambda>v. system_inv itst used L base owner C D v \<and> same_handlers fp w v"
  have ripe: "ripe base v l fp" if "?P v" for v using that l D by (auto intro: system_invD(9))
  have "outcome not_fatal ?P (server_handler S app tid now h v)" if v: "?P v" and h: "h \<in> handlers_of (filedOf w fp)" for h v
    using system_handler [OF law _ ripe [OF v], of L owner C D h app tid now] v h by (auto elim: outcome_weaken)
  moreover have found: "find_filed fp v = Some (filedOf v fp)" if "?P v" for v
    using ripe_found [OF conjunct1 [OF that] ripe [OF that]] .
  moreover have "?P w" using inv by simp
  ultimately have "outcome not_fatal ?P (handleEvent (find_filed fp) alive (server_handler S app tid now) w)"
    by (intro handleEvent_outcome) simp_all
  then show ?thesis by (rule outcome_weaken) (use D in \<open>auto simp: system_inv_def\<close>)
qed

section \<open>What the poller reports\<close>

text \<open>\<open>fillActiveFileds\<close> walks no further than the events that were stored, whatever becomes of their number on the way.\<close>

lemma count_bound: "nat (sint (ucast (of_nat n :: size_t) :: 32 word)) \<le> n"
proof -
  let ?u = "ucast (of_nat n :: size_t) :: 32 word"
  have "sint ?u \<le> uint ?u" by (simp add: sint_uint signed_take_bit_int_less_eq_self_iff) (rule order_trans [OF _ uint_ge_0], simp)
  moreover have "uint ?u = int (n mod 2 ^ 64 mod 2 ^ 32)"
    by (simp add: unsigned_ucast_eq uint_nat take_bit_eq_mod unsigned_of_nat zmod_int)
  moreover have "n mod 2 ^ 64 mod 2 ^ 32 \<le> n" using mod_less_eq_dividend order_trans by blast
  ultimately show ?thesis by linarith
qed

text \<open>What waiting changes: the kernel, the log, the event list and the reported events; the rest stays.\<close>

definition polled :: "'k set \<Rightarrow> ('k, 'z) machine_scheme \<Rightarrow> ('k, 'z) machine_scheme \<Rightarrow> bool" where
  "polled K w v \<longleftrightarrow> kern v \<in> K \<and> machine.more v = machine.more w \<and>
     (\<forall>q. same_registration (filedOf w q) (filedOf v q) \<and> handlers_of (filedOf v q) = handlers_of (filedOf w q) \<and>
        readCallback (filedOf v q) = readCallback (filedOf w q)) \<and>
     (\<forall>m. fileds (epollerOf v m) = fileds (epollerOf w m) \<and> epollfd (epollerOf v m) = epollfd (epollerOf w m))"

lemma polled_deliver: "polled K w (deliver evs v) \<longleftrightarrow> polled K w v"
proof (induction evs arbitrary: v)
  case (Cons x evs)
  obtain ev fp where x: "x = (ev, fp)" by fastforce
  have "polled K w (upd_filed fp (setRevents ev) v) \<longleftrightarrow> polled K w v"
  proof -
    have "same_registration f (filedOf (upd_filed fp (setRevents ev) v) q) = same_registration f (filedOf v q)"
      "handlers_of (filedOf (upd_filed fp (setRevents ev) v) q) = handlers_of (filedOf v q)"
      "readCallback (filedOf (upd_filed fp (setRevents ev) v) q) = readCallback (filedOf v q)" for f q
      by (simp_all add: upd_filed_def setRevents_def handlers_of_def same_registration_def)
    then show ?thesis by (simp add: polled_def set_revents_same)
  qed
  with Cons show ?case by (simp add: x)
qed simp

lemma polled_simps [simp]:
  "polled K w (log_line lv m v) \<longleftrightarrow> polled K w v"
  "polled K w (upd_epoller l (\<lambda>e. e\<lparr>eventList := g e\<rparr>) v) \<longleftrightarrow> polled K w v"
proof -
  have "fileds (epollerOf (upd_epoller l (\<lambda>e. e\<lparr>eventList := g e\<rparr>) v) m) = fileds (epollerOf v m)"
    "epollfd (epollerOf (upd_epoller l (\<lambda>e. e\<lparr>eventList := g e\<rparr>) v) m) = epollfd (epollerOf v m)" for m
    by (simp_all add: upd_epoller_def)
  then show "polled K w (upd_epoller l (\<lambda>e. e\<lparr>eventList := g e\<rparr>) v) \<longleftrightarrow> polled K w v"
    by (simp add: polled_def) (simp add: upd_epoller_def)
qed (simp add: polled_def log_line_def)

lemma Epoller_epoll_total:
  fixes w :: "('k, 'z) machine_scheme"
  assumes wait: "sys_epoll_wait S (epollfd (epollerOf w l)) (length (eventList (epollerOf w l))) timeout (kern w) = (r, evs, k1)"
    and now: "sys_time S k1 = (now, k2)"
    and r: "r = int (length evs) \<and> length evs \<le> length (eventList (epollerOf w l)) \<or> r = - 1 \<and> evs = []"
  shows "\<exists>active v. Epoller_epoll S l timeout [] w = Inr (now, active, v) \<and> set active \<subseteq> snd ` set evs \<and>
    polled {k2, sys_set_errno S (sys_errno S k1) k2} w v"
proof -
  let ?K = "{k2, sys_set_errno S (sys_errno S k1) k2}" and ?n = "of_int r :: size_t"
  let ?w = "upd_epoller l (\<lambda>e. e\<lparr>eventList := overwrite 0 evs (eventList e)\<rparr>) (w\<lparr>kern := k2\<rparr>)"
  let ?m = "nat (sint (ucast ?n :: 32 word))"
  have w2: "polled ?K w ?w" by (auto simp: polled_def upd_epoller_def same_registration_def)
  have m: "?m \<le> length evs"
  proof (cases "r = - 1 \<and> evs = []")
    case True
    then show ?thesis using count_error by simp
  next
    case False
    with r have "?n = of_nat (length evs)" by simp
    then show ?thesis using count_bound [of "length evs"] by simp
  qed
  moreover have "eventList (epollerOf ?w l) = evs @ drop (length evs) (eventList (epollerOf w l))"
    using r by (auto simp: upd_epoller_def overwrite_def)
  ultimately have "fillActiveFileds l (sint (ucast ?n :: 32 word)) [] ?w = Inr (map snd (take ?m evs), deliver (take ?m evs) ?w)"
    by (simp add: fillActiveFileds_def fill_from_eq)
  moreover have "set (map snd (take ?m evs)) \<subseteq> snd ` set evs" by (auto dest: in_set_takeD)
  moreover have "0 < ?n \<or> ?n = 0" by (simp add: word_gt_0)
  ultimately show ?thesis
    using w2 by (elim disjE) (simp_all add: Epoller_epoll_def wait now Let_def polled_deliver)
qed

lemma machine_more:
  "machine.more v = machine.more w \<Longrightarrow> loopOf v = loopOf w \<and> conns v = conns w \<and> pool v = pool w \<and>
     next_addr v = next_addr w \<and> the_acceptor v = the_acceptor w \<and> the_server v = the_server w"
  for v w :: "('k, 'z) served_scheme"
  by (cases v; cases w) simp

lemma polledD:
  assumes "polled K w v"
  shows "kern v \<in> K" and "machine.more v = machine.more w" and "same_registration (filedOf w q) (filedOf v q)"
    and "same_handlers q w v" and "readCallback (filedOf v q) = readCallback (filedOf w q)"
    and "fileds (epollerOf v m) = fileds (epollerOf w m)" and "epollfd (epollerOf v m) = epollfd (epollerOf w m)"
  using assms by (simp_all add: polled_def)

lemma served_inv_polled:
  fixes v w :: "('k, 'z) served_scheme"
  assumes inv: "served_inv itst L base w" and p: "polled K w v" and k: "itst (kern v) = itst (kern w)"
  shows "served_inv itst L base v"
proof -
  note same = machine_more [OF polledD(2) [OF p]]
  have "good itst L (live_of base w) w v"
    by (rule good_same_registration [OF served_invD(5) [OF inv] k]) (use same polledD [OF p] in simp_all)
  then have "process_inv itst L (live_of base w) v" by (rule goodD(1))
  moreover have "filed_fd (filedOf v q) = filed_fd (filedOf w q)" for q
    using polledD(3) [OF p, of q] by (simp add: same_registration_def)
  ultimately show ?thesis
    using inv same by (simp add: served_inv_def server_ok_def server_inv_def live_of_def)
qed

text \<open>A \<open>Filed\<close> that the kernel watches is live, of this loop, and registered.\<close>

lemma watched_ripe:
  assumes inv: "system_inv itst used L base owner C D w" and l: "l \<in> L"
    and e: "itst (kern w) (epollfd (epollerOf w l)) fd = Some (ev, fp)"
  shows "ripe base w l fp"
proof -
  note reg = process_invD(1) [OF served_invD(6) [OF system_invD(1) [OF inv]]]
  have b: "belongs w (live_of base w) l fd fp" by (rule registry_regD [OF reg l e])
  then have "filed_ok itst w fp" using registry_okD [OF reg, of fp] by (simp add: belongs_def)
  with b e show ?thesis by (auto simp: belongs_def ripe_def filed_ok_def Let_def)
qed

text \<open>A loop changes its own flags and lists.\<close>

lemma system_loop:
  fixes w :: "('k, 'z) served_scheme"
  assumes inv: "system_inv itst used L base owner C D w" and D: "\<And>l fp. l \<in> L \<Longrightarrow> fp \<in> set (D' l) \<Longrightarrow> ripe base w l fp"
    and g: "threadId (g (loopOf w m)) = threadId (loopOf w m)" "C' m @ pendFuncs (g (loopOf w m)) = pending C w m"
    and C: "\<And>l. l \<noteq> m \<Longrightarrow> C' l = C l"
  shows "system_inv itst used L base owner C' D' (upd_loop m g w)"
proof -
  have leaves: "leaves w (upd_loop m g w)" by simp
  have "good itst L (live_of base w) w (upd_loop m g w)"
    by (rule good_frame [OF served_invD(5) [OF system_invD(1) [OF inv]]]) simp_all
  with served_inv_step [OF system_invD(1) [OF inv] leaves_srv [OF leaves]]
  have sv: "served_inv itst L base (upd_loop m g w)" by blast
  have loops: "loopOf (upd_loop m g w) l = (if l = m then g (loopOf w m) else loopOf w l)" for l by (simp add: upd_loop_def)
  show ?thesis
    by (rule system_same [OF inv sv]) (use served_more [OF leaves_more [OF leaves]] D g C in \<open>simp_all add: same_registration_def loops\<close>)
qed

lemma system_swap:
  fixes w :: "('k, 'z) served_scheme"
  assumes "system_inv itst used L base owner C D w" and "C l = []" and "begin_pend l w = (ts, v)"
  shows "system_inv itst used L base owner (C(l := ts)) D v"
proof -
  have v: "ts = pendFuncs (loopOf w l)" "v = upd_loop l (\<lambda>e. e\<lparr>isCallPendFunc := True, pendFuncs := []\<rparr>) w"
    using assms(3) by (simp_all add: begin_pend_def)
  show ?thesis unfolding v(2) by (rule system_loop [OF assms(1)]) (use system_invD(9) [OF assms(1)] assms(2) v(1) in simp_all)
qed

lemma system_wrap:
  fixes w :: "('k, 'z) served_scheme"
  assumes inv: "system_inv itst used L base owner C D w"
  shows "system_inv itst used L base owner C D (end_pend l w)"
  unfolding end_pend_def by (rule system_loop [OF inv]) (use system_invD(9) [OF inv] in simp_all)

lemma system_poll:
  fixes w :: "('k, 'z) served_scheme"
  assumes law: "interest_frame S itst" "fd_law S itst used" "wait_law S itst"
    and inv: "system_inv itst used L base owner C D w" and l: "l \<in> L"
  shows "\<exists>now active v. Epoller_epoll S l kEpollTime [] (upd_loop l (\<lambda>e. e\<lparr>activeFileds := []\<rparr>) w) = Inr (now, active, v) \<and>
    system_inv itst used L base owner C (D(l := active)) (upd_loop l (\<lambda>e. e\<lparr>epollReturnTime := now, activeFileds := active\<rparr>) v)"
proof -
  let ?w = "upd_loop l (\<lambda>e. e\<lparr>activeFileds := []\<rparr>) w"
  have w1: "system_inv itst used L base owner C D ?w" by (rule system_loop [OF inv]) (use system_invD(9) [OF inv] in simp_all)
  obtain r evs k1 where wait: "sys_epoll_wait S (epollfd (epollerOf ?w l)) (length (eventList (epollerOf ?w l))) kEpollTime (kern ?w) = (r, evs, k1)"
    by (metis prod_cases3)
  obtain now k2 where now: "sys_time S k1 = (now, k2)" by fastforce
  obtain active v where v: "Epoller_epoll S l kEpollTime [] ?w = Inr (now, active, v)" "set active \<subseteq> snd ` set evs"
    "polled {k2, sys_set_errno S (sys_errno S k1) k2} ?w v"
    using Epoller_epoll_total [OF wait now wait_lawD(1) [OF law(3) wait]] by blast
  have k: "itst (kern v) = itst (kern ?w)" "used (kern v) = used (kern ?w)"
    using polledD(1) [OF v(3)] fd_lawD(10) [OF law(2) wait] fd_lawD(11) [OF law(2) now] interest_frameD(1) [OF law(1)]
      stillD(1) [OF fd_lawD(1) [OF law(2)]] by auto
  have ripe: "ripe base ?w l fp" if "fp \<in> set active" for fp
    using wait_lawD(2) [OF law(3) wait, of fp] v(2) that watched_ripe [OF w1 l] by blast
  note same = machine_more [OF polledD(2) [OF v(3)]]
  have vi: "system_inv itst used L base owner C (D(l := active)) v"
    by (rule system_same [OF w1 served_inv_polled [OF system_invD(1) [OF w1] v(3) k(1)]])
      (use same k(2) polledD(3-5) [OF v(3)] system_invD(9) [OF w1] ripe in \<open>auto split: if_splits\<close>)
  have "system_inv itst used L base owner C (D(l := active)) (upd_loop l (\<lambda>e. e\<lparr>epollReturnTime := now, activeFileds := active\<rparr>) v)"
    by (rule system_loop [OF vi]) (use system_invD(9) [OF vi] in simp_all)
  with v(1) show ?thesis by blast
qed

section \<open>The last reference to a connection\<close>

text \<open>
  The shared pointers to a connection: one in the server's map, and one in each queued function that was bound to the
  pointer. \<open>send\<close> and \<open>shutdown\<close> from another thread bind the bare \<open>this\<close>.
\<close>

definition holds_ref :: "nat \<Rightarrow> task \<Rightarrow> bool" where
  "holds_ref c t \<longleftrightarrow> (case t of TConnectEstablished d \<Rightarrow> d = c | TConnectDestroyed d \<Rightarrow> d = c | TRemoveConnection d \<Rightarrow> d = c
     | TWriteComplete h d \<Rightarrow> d = c | THighWaterMark h d n \<Rightarrow> d = c | _ \<Rightarrow> False)"

definition unreferenced :: "nat set \<Rightarrow> (nat \<Rightarrow> task list) \<Rightarrow> ('k, 'z) served_scheme \<Rightarrow> nat \<Rightarrow> bool" where
  "unreferenced L ts w c \<longleftrightarrow> (\<forall>nm. connections (the_server w) nm \<noteq> Some c) \<and> (\<forall>l \<in> L. \<forall>t \<in> set (ts l). \<not> holds_ref c t)"

lemma unreferencedD:
  assumes "unreferenced L ts w c" and "l \<in> L"
  shows "TConnectEstablished c \<notin> set (ts l)" and "TConnectDestroyed c \<notin> set (ts l)"
  using assms unfolding unreferenced_def holds_ref_def by fastforce+

lemma unreferenced_idle:
  assumes "system_inv itst used L base owner C D w" and "conns w c = Some x" and "unreferenced L (pending C w) w c"
  shows "c \<in> idle_conns w"
proof -
  have "TConnectDestroyed c \<notin> set (pending C w l)" if "l \<in> L" for l
    by (rule unreferencedD [OF assms(3) that])
  then show ?thesis
    using system_invD(6) [OF assms(1,2)] conn_loop_in [OF assms(1,2)] assms(3) by (auto simp: held_def unreferenced_def)
qed

text \<open>Where a connection is between its creation and its destruction.\<close>

lemma connection_stage:
  fixes w :: "('k, 'z) served_scheme"
  assumes inv: "system_inv itst used L base owner C D w" and c: "conns w c = Some x"
  shows "if conn_state x \<noteq> kDisconnected then connections (the_server w) (conn_name x) = Some c
    else TRemoveConnection c \<in> set (pending C w (srv_loop (the_server w))) \<or>
      TConnectDestroyed c \<in> set (pending C w (conn_loop x)) \<or>
      index (filedOf w (conn_filed x)) = kNew \<and> (\<forall>nm. connections (the_server w) nm \<noteq> Some c)"
proof -
  have "connections (the_server w) nm \<noteq> Some c" if "connections (the_server w) (conn_name x) \<noteq> Some c" for nm
    using system_named [OF inv] c that by (auto simp: named_def)
  moreover have "TConnectDestroyed c \<notin> set (pending C w (conn_loop x))" if "conn_state x \<noteq> kDisconnected"
    using tasks_okD(1) [OF system_invD(8) [OF inv] conn_loop_in [OF inv c], of "TConnectDestroyed c"] c that by (auto simp: fit_def)
  ultimately show ?thesis
    using system_invD(5,6) [OF inv c] idle_iff [OF c] by (auto simp: held_def conn_sane_def)
qed

lemma system_drop:
  fixes w :: "('k, 'z) served_scheme"
  assumes law: "close_law S itst" "fd_law S itst used" and inv: "system_inv itst used L base owner C D w"
    and c: "conns w c = Some x" and free: "unreferenced L (pending C w) w c"
  shows "\<exists>v. destroyConnection S c w = Inr v \<and> system_inv itst used L base owner C D v"
proof -
  note s = system_invD(1) [OF inv]
  let ?v = "w\<lparr>conns := (conns w)(c := None), kern := sys_close S (conn_fd x) (kern w)\<rparr>"
  have idle: "index (filedOf w (conn_filed x)) = kNew" using unreferenced_idle [OF inv c free] c by (simp add: idle_conns_def)
  have v: "destroyConnection S c w = Inr ?v" using c by (simp add: destroyConnection_def with_conn_def Socket_destroy_def)
  then have sv: "served_inv itst L base ?v" and live: "live_of base ?v = live_of base w - {conn_filed x}"
    using destroyConnection_keeps [OF law(1) s c idle] free by (auto simp: unreferenced_def)
  have fd: "conn_fd x = filed_fd (filedOf w (conn_filed x))"
    using process_invD(3) [OF served_invD(6) [OF s] c] by (simp add: conn_ok_def)
  have other: "filed_fd (filedOf w q) \<noteq> conn_fd x" if "q \<in> live_of base w" "q \<noteq> conn_filed x" for q
    using inj_onD [OF served_invD(2) [OF s], of q "conn_filed x"] that live_of_conn [OF c] fd by auto
  have ids: "d \<in> idle_conns ?v \<longleftrightarrow> d \<in> idle_conns w" if "d \<noteq> c" for d using that by (simp add: idle_conns_def)
  have "fit ?v l t" if l: "l \<in> L" and t: "t \<in> set (pending C w l)" for l t
  proof -
    have "t \<noteq> TConnectEstablished c" using unreferencedD(1) [OF free l] t by blast
    with tasks_okD(1) [OF system_invD(8) [OF inv] l t] show ?thesis by (cases t) (auto simp: fit_def)
  qed
  then have "tasks_ok L (pending C ?v) ?v" using tasks_okD(2) [OF system_invD(8) [OF inv]] by (simp add: tasks_ok_def)
  moreover have "conn_sane ?v d y \<and> held (pending C ?v) ?v d y" if "conns ?v d = Some y" for d y
  proof -
    have d: "d \<noteq> c" "conns w d = Some y" using that by (auto split: if_splits)
    from system_invD(5,6) [OF inv d(2)] ids [OF d(1)] show ?thesis by (auto simp: conn_sane_def held_def)
  qed
  moreover have "ripe base ?v l fp" if "l \<in> L" "fp \<in> set (D l)" for l fp
    using system_invD(9) [OF inv that] idle live by (auto simp: ripe_def)
  moreover have "filed_fd (filedOf ?v q) \<in> used (kern ?v)" if "q \<in> live_of base ?v" for q
    using that system_invD(2) [OF inv, of q] other [of q] live fd_lawD(6) [OF law(2)] by auto
  moreover have "one_name ?v" using system_invD(7) [OF inv] by (auto simp: one_name_def)
  ultimately have "system_inv itst used L base owner C D ?v"
    using sv system_invD(3,4) [OF inv] by (simp add: system_inv_def base_handlers_def)
  with v show ?thesis by blast
qed

end
