(* ===== verification/ServerSystem.thy ===== *)
theory ServerSystem
  imports SystemInv
begin

text \<open>
  The running server as a transition system. Every loop goes through \<open>EventLoop::loop\<close>, and between two operations of one
  loop anything may happen: operations of the other loops, calls of the library by threads of the application, moves
  of the kernel, and the destruction of a connection whose last reference is gone. The application is arbitrary. A step
  is one operation of a thread; the two operations that other threads call on a connection, \<open>send\<close> and \<open>shutdown\<close>, are split
  at their test of the state, since anything may happen before they act on it.
\<close>

section \<open>The transition system\<close>

text \<open>
  Where a loop is in \<open>EventLoop::loop\<close>: before the first iteration, at the test of \<open>quit_\<close>, in the dispatch of the active
  \<open>Filed\<close>s with the time \<open>epoll\<close> returned, in \<open>doPendFunc\<close> with the functions it took, or after the end.
\<close>

datatype phase = Starting | Polling | Dispatching int "nat list" | Calling "task list" | Stopped

fun in_hand :: "phase \<Rightarrow> task list" where
  "in_hand (Calling ts) = ts"
| "in_hand _ = []"

fun to_dispatch :: "phase \<Rightarrow> nat list" where
  "to_dispatch (Dispatching now fps) = fps"
| "to_dispatch _ = []"

type_synonym ('k, 'z) system_state = "('k, 'z) served_scheme \<times> (nat \<Rightarrow> phase)"

text \<open>The two halves of an iteration before the queued functions.\<close>

definition loop_poll :: "'k sys \<Rightarrow> nat \<Rightarrow> ('k, 'z) served_scheme \<Rightarrow> fault + int \<times> nat list \<times> ('k, 'z) served_scheme" where
  "loop_poll S l w =
     bindE (Epoller_epoll S l kEpollTime [] (upd_loop l (\<lambda>e. e\<lparr>activeFileds := []\<rparr>) w)) (\<lambda>(now, active, w).
       Inr (now, active, upd_loop l (\<lambda>e. e\<lparr>epollReturnTime := now, activeFileds := active\<rparr>) w))"

definition loop_dispatch ::
  "'k sys \<Rightarrow> ('k, 'z) server_app \<Rightarrow> int \<Rightarrow> int \<Rightarrow> nat \<Rightarrow> ('k, 'z) served_scheme \<Rightarrow> fault + ('k, 'z) served_scheme" where
  "loop_dispatch S app tid now fp w =
     handleEvent (find_filed fp) (\<lambda>w c. conns w c \<noteq> None) (server_handler S app tid now) w"

text \<open>
  A call that some thread may make which is not the one of the connection's loop: another part of the program makes it,
  or a callback of another connection or none.
\<close>

fun event_conn :: "app_event \<Rightarrow> nat option" where
  "event_conn (EvConnection c) = Some c"
| "event_conn (EvMessage c t) = Some c"
| "event_conn (EvWriteComplete c) = Some c"
| "event_conn (EvHighWaterMark c n) = Some c"
| "event_conn EvUser = None"
| "event_conn (EvThreadInit l) = None"

definition crosses :: "(int \<Rightarrow> api \<Rightarrow> bool) \<Rightarrow> ('k, 'z) app \<Rightarrow> nat \<Rightarrow> api \<Rightarrow> bool" where
  "crosses outside app c x \<longleftrightarrow> (\<exists>tid. outside tid x) \<or> (\<exists>h ev w. x \<in> set (app h ev w) \<and> event_conn ev \<noteq> Some c)"

text \<open>
  One step of the system; \<open>owner l\<close> is the thread that runs the loop \<open>l\<close>, and \<open>outside\<close> are the calls of the library
  that other parts of the program may make at any time. An operation that faults has no step. \<open>late_send\<close> and
  \<open>late_shutdown\<close> are the rest of a call of another thread that found the connection connected at some earlier moment.
\<close>

inductive system_step ::
  "'k sys \<Rightarrow> 'k interest \<Rightarrow> ('k \<Rightarrow> int set) \<Rightarrow> ('k, 'z) server_app \<Rightarrow> (int \<Rightarrow> api \<Rightarrow> bool) \<Rightarrow> nat set \<Rightarrow>
     (nat \<Rightarrow> int) \<Rightarrow> ('k, 'z) system_state \<Rightarrow> ('k, 'z) system_state \<Rightarrow> bool"
  for S :: "'k sys" and itst :: "'k interest" and used :: "'k \<Rightarrow> int set" and app :: "('k, 'z) server_app" and outside L owner where
  enter: "l \<in> L \<Longrightarrow> ph l = Starting \<Longrightarrow>
     system_step S itst used app outside L owner (w, ph) (upd_loop l (\<lambda>e. e\<lparr>looping := True, quit := False\<rparr>) w, ph(l := Polling))"
| poll: "l \<in> L \<Longrightarrow> ph l = Polling \<Longrightarrow> \<not> quit (loopOf w l) \<Longrightarrow> loop_poll S l w = Inr (now, active, w') \<Longrightarrow>
     system_step S itst used app outside L owner (w, ph) (w', ph(l := Dispatching now active))"
| dispatch: "l \<in> L \<Longrightarrow> ph l = Dispatching now (fp # fps) \<Longrightarrow> loop_dispatch S app (owner l) now fp w = Inr w' \<Longrightarrow>
     system_step S itst used app outside L owner (w, ph) (w', ph(l := Dispatching now fps))"
| take: "l \<in> L \<Longrightarrow> ph l = Dispatching now [] \<Longrightarrow> begin_pend l w = (ts, w') \<Longrightarrow>
     system_step S itst used app outside L owner (w, ph) (w', ph(l := Calling ts))"
| call: "l \<in> L \<Longrightarrow> ph l = Calling (t # ts) \<Longrightarrow> server_task S app (owner l) t w = Inr w' \<Longrightarrow>
     system_step S itst used app outside L owner (w, ph) (w', ph(l := Calling ts))"
| finish: "l \<in> L \<Longrightarrow> ph l = Calling [] \<Longrightarrow> system_step S itst used app outside L owner (w, ph) (end_pend l w, ph(l := Polling))"
| leave: "l \<in> L \<Longrightarrow> ph l = Polling \<Longrightarrow> quit (loopOf w l) \<Longrightarrow>
     system_step S itst used app outside L owner (w, ph) (upd_loop l (\<lambda>e. e\<lparr>looping := False\<rparr>) w, ph(l := Stopped))"
| user: "outside tid x \<Longrightarrow> do_api S tid x w = Inr w' \<Longrightarrow> system_step S itst used app outside L owner (w, ph) (w', ph)"
| late_send: "crosses outside app c (ApiSend c a) \<Longrightarrow> conns w c = Some x \<Longrightarrow> conn_state x \<noteq> kConnecting \<Longrightarrow>
     \<not> isLoopThread tid (conn_loop x) w \<Longrightarrow> send_rest S tid c a w = Inr w' \<Longrightarrow>
     system_step S itst used app outside L owner (w, ph) (w', ph)"
| late_shutdown: "crosses outside app c (ApiShutdown c) \<Longrightarrow> conns w c = Some x \<Longrightarrow> conn_state x = kConnected \<or> conn_state x = kDisconnecting \<Longrightarrow>
     \<not> isLoopThread tid (conn_loop x) w \<Longrightarrow> shutdown_rest S tid c w = Inr w' \<Longrightarrow>
     system_step S itst used app outside L owner (w, ph) (w', ph)"
| drop: "unreferenced L (pending (in_hand \<circ> ph) w) w c \<Longrightarrow> destroyConnection S c w = Inr w' \<Longrightarrow>
     system_step S itst used app outside L owner (w, ph) (w', ph)"
| kernel: "itst k = itst (kern w) \<Longrightarrow> used (kern w) \<subseteq> used k \<Longrightarrow>
     system_step S itst used app outside L owner (w, ph) (w\<lparr>kern := k\<rparr>, ph)"

abbreviation system_runs ::
  "'k sys \<Rightarrow> 'k interest \<Rightarrow> ('k \<Rightarrow> int set) \<Rightarrow> ('k, 'z) server_app \<Rightarrow> (int \<Rightarrow> api \<Rightarrow> bool) \<Rightarrow> nat set \<Rightarrow>
     (nat \<Rightarrow> int) \<Rightarrow> ('k, 'z) system_state \<Rightarrow> ('k, 'z) system_state \<Rightarrow> bool" where
  "system_runs S itst used app outside L owner \<equiv> rtranclp (system_step S itst used app outside L owner)"

text \<open>
  The one interleaving that is left is a race in the code: the rest of a \<open>shutdown\<close> when the connection was closed after the
  test. It takes the state back from \<open>kDisconnected\<close> to \<open>kDisconnecting\<close>, and no invariant survives that
  (\<open>late_shutdown_reopens\<close>). \<open>racing_step\<close> has it too. It cannot occur when only the callbacks of a connection shut it down.
\<close>

inductive racing_step ::
  "'k sys \<Rightarrow> 'k interest \<Rightarrow> ('k \<Rightarrow> int set) \<Rightarrow> ('k, 'z) server_app \<Rightarrow> (int \<Rightarrow> api \<Rightarrow> bool) \<Rightarrow> nat set \<Rightarrow>
     (nat \<Rightarrow> int) \<Rightarrow> ('k, 'z) system_state \<Rightarrow> ('k, 'z) system_state \<Rightarrow> bool"
  for S :: "'k sys" and itst :: "'k interest" and used :: "'k \<Rightarrow> int set" and app :: "('k, 'z) server_app" and outside L owner where
  in_order: "system_step S itst used app outside L owner s s' \<Longrightarrow> racing_step S itst used app outside L owner s s'"
| overtaken: "crosses outside app c (ApiShutdown c) \<Longrightarrow> conns w c = Some x \<Longrightarrow> conn_state x = kDisconnected \<Longrightarrow>
     \<not> isLoopThread tid (conn_loop x) w \<Longrightarrow> shutdown_rest S tid c w = Inr w' \<Longrightarrow>
     racing_step S itst used app outside L owner (w, ph) (w', ph)"

abbreviation racing_runs ::
  "'k sys \<Rightarrow> 'k interest \<Rightarrow> ('k \<Rightarrow> int set) \<Rightarrow> ('k, 'z) server_app \<Rightarrow> (int \<Rightarrow> api \<Rightarrow> bool) \<Rightarrow> nat set \<Rightarrow>
     (nat \<Rightarrow> int) \<Rightarrow> ('k, 'z) system_state \<Rightarrow> ('k, 'z) system_state \<Rightarrow> bool" where
  "racing_runs S itst used app outside L owner \<equiv> rtranclp (racing_step S itst used app outside L owner)"

lemma racing_in_order:
  assumes "racing_runs S itst used app outside L owner s s'" and "\<And>c. \<not> crosses outside app c (ApiShutdown c)"
  shows "system_runs S itst used app outside L owner s s'"
  using assms(1)
proof induction
  case (step s' s'')
  from step.hyps(2) assms(2) have "system_step S itst used app outside L owner s' s''" by (cases rule: racing_step.cases) auto
  with step.IH show ?case by (rule rtranclp.rtrancl_into_rtrancl)
qed simp

definition system_ok ::
  "'k interest \<Rightarrow> ('k \<Rightarrow> int set) \<Rightarrow> nat set \<Rightarrow> nat set \<Rightarrow> (nat \<Rightarrow> int) \<Rightarrow> ('k, 'z) system_state \<Rightarrow> bool" where
  "system_ok itst used L base owner s \<longleftrightarrow>
     system_inv itst used L base owner (in_hand \<circ> snd s) (to_dispatch \<circ> snd s) (fst s)"

text \<open>The documented behaviour of the kernel that the whole system rests on.\<close>

definition system_laws :: "'k sys \<Rightarrow> 'k interest \<Rightarrow> ('k \<Rightarrow> int set) \<Rightarrow> bool" where
  "system_laws S itst used \<longleftrightarrow> io_laws S itst \<and> close_law S itst \<and> fd_law S itst used \<and> wait_law S itst"

lemma system_lawsD:
  assumes "system_laws S itst used"
  shows "io_laws S itst" and "close_law S itst" and "fd_law S itst used" and "wait_law S itst"
  using assms by (simp_all add: system_laws_def)

lemma sim_system_laws: "system_laws sim_sys sim_interest sim_used"
  by (simp add: system_laws_def sim_io_laws sim_close_law sim_fd_law sim_wait_law)

section \<open>Every step keeps the invariant\<close>

lemma phase_hands:
  "in_hand \<circ> ph(l := p) = (in_hand \<circ> ph)(l := in_hand p)" "to_dispatch \<circ> ph(l := p) = (to_dispatch \<circ> ph)(l := to_dispatch p)"
  by (simp_all add: fun_eq_iff)

lemma same_hand: "in_hand p = in_hand (ph l) \<Longrightarrow> in_hand \<circ> ph(l := p) = in_hand \<circ> ph"
  "to_dispatch p = to_dispatch (ph l) \<Longrightarrow> to_dispatch \<circ> ph(l := p) = to_dispatch \<circ> ph"
  by (auto simp: fun_eq_iff)

lemma poll_ok:
  assumes law: "system_laws S itst used" and ok: "system_ok itst used L base owner (w, ph)" and l: "l \<in> L" and p: "ph l = Polling"
  shows "\<exists>now active v. loop_poll S l w = Inr (now, active, v) \<and>
    system_ok itst used L base owner (v, ph(l := Dispatching now active))"
proof -
  note inv = ok [unfolded system_ok_def fst_conv snd_conv]
  have "in_hand \<circ> ph(l := Dispatching now active) = in_hand \<circ> ph" for now active by (rule same_hand) (simp add: p)
  then show ?thesis
    using system_poll [OF io_lawsD(2) [OF system_lawsD(1) [OF law]] system_lawsD(3,4) [OF law] inv l]
    by (auto simp: loop_poll_def system_ok_def phase_hands(2))
qed

lemma dispatch_ok:
  assumes law: "system_laws S itst used" and ok: "system_ok itst used L base owner (w, ph)" and l: "l \<in> L"
    and p: "ph l = Dispatching now (fp # fps)"
  shows "outcome not_fatal (\<lambda>v. system_ok itst used L base owner (v, ph(l := Dispatching now fps)))
    (loop_dispatch S app tid now fp w)"
proof -
  note inv = ok [unfolded system_ok_def fst_conv snd_conv]
  have "in_hand \<circ> ph(l := Dispatching now fps) = in_hand \<circ> ph" by (rule same_hand) (simp add: p)
  with system_event [OF system_lawsD(1-3) [OF law] inv l, of fp fps] p show ?thesis
    by (simp add: loop_dispatch_def system_ok_def phase_hands(2))
qed

lemma call_ok:
  assumes law: "system_laws S itst used" and ok: "system_ok itst used L base owner (w, ph)" and l: "l \<in> L"
    and p: "ph l = Calling (t # ts)"
  shows "outcome (\<lambda>e. not_fatal e \<or> t = TListen) (\<lambda>v. system_ok itst used L base owner (v, ph(l := Calling ts)))
    (server_task S app tid t w)"
proof -
  note inv = ok [unfolded system_ok_def fst_conv snd_conv]
  have "to_dispatch \<circ> ph(l := Calling ts) = to_dispatch \<circ> ph" by (rule same_hand) (simp add: p)
  with system_task [OF system_lawsD(1,3) [OF law] inv l, of t ts app tid] p show ?thesis
    by (simp add: system_ok_def phase_hands(1))
qed

lemma api_ok:
  assumes law: "system_laws S itst used" and ok: "system_ok itst used L base owner (w, ph)"
  shows "outcome not_fatal (\<lambda>v. system_ok itst used L base owner (v, ph)) (do_api S tid x w)"
  using system_api [OF system_lawsD(1,3) [OF law] ok [unfolded system_ok_def fst_conv snd_conv]] by (simp add: system_ok_def)

lemma flags_ok:
  assumes ok: "system_ok itst used L base owner (w, ph)" and g: "\<And>e. threadId (g e) = threadId e \<and> pendFuncs (g e) = pendFuncs e"
    and p: "in_hand p = in_hand (ph l)" "to_dispatch p = to_dispatch (ph l)"
  shows "system_ok itst used L base owner (upd_loop l g w, ph(l := p))"
proof -
  note inv = ok [unfolded system_ok_def fst_conv snd_conv]
  have same: "in_hand \<circ> ph(l := p) = in_hand \<circ> ph" "to_dispatch \<circ> ph(l := p) = to_dispatch \<circ> ph"
    by (rule same_hand, rule p)+
  show ?thesis
    unfolding system_ok_def fst_conv snd_conv same
    by (rule system_loop [OF inv]) (use system_invD(9) [OF inv] g in simp_all)
qed

lemma system_step_keeps:
  assumes step: "system_step S itst used app outside L owner s s'" and law: "system_laws S itst used"
    and ok: "system_ok itst used L base owner s"
  shows "system_ok itst used L base owner s'"
  using step
proof cases
  case (enter l ph w)
  then show ?thesis using flags_ok [of itst used L base owner w ph] ok by simp
next
  case (poll l ph w now active w')
  with poll_ok [OF law, of L base owner w ph l] ok show ?thesis by auto
next
  case (dispatch l ph now fp fps w w')
  with dispatch_ok [OF law, of L base owner w ph l now fp fps app "owner l"] ok show ?thesis by simp
next
  case (take l ph now w ts w')
  note inv = ok [unfolded take(1) system_ok_def fst_conv snd_conv]
  have "to_dispatch \<circ> ph(l := Calling ts) = to_dispatch \<circ> ph" by (rule same_hand) (simp add: take)
  with system_swap [OF inv _ take(5)] take show ?thesis by (simp add: system_ok_def phase_hands(1))
next
  case (call l ph t ts w w')
  with call_ok [OF law, of L base owner w ph l t ts app "owner l"] ok show ?thesis by simp
next
  case (finish l ph w)
  then show ?thesis using flags_ok [of itst used L base owner w ph] ok by (simp add: end_pend_def)
next
  case (leave l ph w)
  then show ?thesis using flags_ok [of itst used L base owner w ph] ok by simp
next
  case (user tid x w w' ph)
  with api_ok [OF law, of L base owner w ph tid x] ok show ?thesis by simp
next
  case (late_send c a w x tid w' ph)
  note inv = ok [unfolded late_send(1) system_ok_def fst_conv snd_conv]
  obtain n where "w' = queueinLoop S tid (conn_loop x) (TSendInLoop c a n) w"
    using late_send by (auto simp: send_rest_def with_conn_def runinLoop_def Let_def split: option.splits)
  with system_queue_send [OF system_lawsD(1,3) [OF law] inv late_send(4,5)] late_send(2) show ?thesis by (simp add: system_ok_def)
next
  case (late_shutdown c w x tid w' ph)
  note inv = ok [unfolded late_shutdown(1) system_ok_def fst_conv snd_conv]
  from system_late_shutdown [OF system_lawsD(1,3) [OF law] inv late_shutdown(4,5), of tid] late_shutdown
  show ?thesis by (simp add: system_ok_def)
next
  case (drop ph w c w')
  note inv = ok [unfolded drop(1) system_ok_def fst_conv snd_conv]
  obtain x where "conns w c = Some x" using drop(4) by (auto simp: destroyConnection_def with_conn_def split: option.splits)
  with system_drop [OF system_lawsD(2,3) [OF law] inv _ drop(3)] drop show ?thesis by (auto simp: system_ok_def comp_def)
next
  case (kernel k w ph)
  with system_kern ok show ?thesis by (auto simp: system_ok_def)
qed

lemma system_runs_keep:
  assumes "system_runs S itst used app outside L owner s s'" and "system_laws S itst used" and "system_ok itst used L base owner s"
  shows "system_ok itst used L base owner s'"
  using assms(1,3) by induction (auto intro: system_step_keeps [OF _ assms(2)])

section \<open>Safety\<close>

text \<open>What may still end the process at the next operation of a loop or of the application: \<open>listen\<close> alone.\<close>

definition no_abort ::
  "'k sys \<Rightarrow> ('k, 'z) server_app \<Rightarrow> nat set \<Rightarrow> (nat \<Rightarrow> int) \<Rightarrow> ('k, 'z) system_state \<Rightarrow> bool" where
  "no_abort S app L owner s \<longleftrightarrow> (case s of (w, ph) \<Rightarrow>
     (\<forall>l \<in> L. case ph l of
        Polling \<Rightarrow> \<not> isl (loop_poll S l w)
      | Dispatching now (fp # fps) \<Rightarrow> outcome not_fatal (\<lambda>_. True) (loop_dispatch S app (owner l) now fp w)
      | Calling (t # ts) \<Rightarrow> outcome (\<lambda>e. not_fatal e \<or> t = TListen) (\<lambda>_. True) (server_task S app (owner l) t w)
      | _ \<Rightarrow> True) \<and>
     (\<forall>tid x. outcome not_fatal (\<lambda>_. True) (do_api S tid x w)))"

lemma outcome_True: "outcome E P r \<Longrightarrow> outcome E (\<lambda>_. True) r"
  by (erule outcome_weaken) simp

lemma system_ok_no_abort:
  assumes law: "system_laws S itst used" and ok: "system_ok itst used L base owner s"
  shows "no_abort S app L owner s"
proof -
  obtain w ph where s: "s = (w, ph)" by fastforce
  note ok = ok [unfolded s]
  have "case ph l of Polling \<Rightarrow> \<not> isl (loop_poll S l w)
      | Dispatching now (fp # fps) \<Rightarrow> outcome not_fatal (\<lambda>_. True) (loop_dispatch S app (owner l) now fp w)
      | Calling (t # ts) \<Rightarrow> outcome (\<lambda>e. not_fatal e \<or> t = TListen) (\<lambda>_. True) (server_task S app (owner l) t w)
      | _ \<Rightarrow> True" if l: "l \<in> L" for l
  proof (cases "ph l")
    case Polling
    with poll_ok [OF law ok l] show ?thesis by auto
  next
    case (Dispatching now fps)
    with outcome_True [OF dispatch_ok [OF law ok l]] show ?thesis by (cases fps) simp_all
  next
    case (Calling ts)
    with outcome_True [OF call_ok [OF law ok l]] show ?thesis by (cases ts) simp_all
  qed simp_all
  with outcome_True [OF api_ok [OF law ok]] s show ?thesis by (simp add: no_abort_def)
qed




text \<open>
  C7. The server's map is exact and no closed connection is forgotten, as long as a connection is shut down by its own
  callbacks only, so that \<open>shutdown\<close> runs on the thread of its loop. In every reachable state, a connection that exists
  and is not disconnected is in the map under its name; one that is disconnected waits for its removal on the server's
  loop, or is out of the map and waits on its own loop to be unregistered, or is out of the map and unregistered, which
  is all its destruction needs. What happens when another thread shuts it down is \<open>late_shutdown_reopens\<close>.
\<close>

theorem connection_stages:
  assumes law: "system_laws S itst used" and ok: "system_ok itst used L base owner s"
    and own: "\<And>c. \<not> crosses outside app c (ApiShutdown c)"
    and run: "racing_runs S itst used app outside L owner s (w, ph)" and c: "conns w c = Some x"
  shows "if conn_state x \<noteq> kDisconnected then connections (the_server w) (conn_name x) = Some c
    else TRemoveConnection c \<in> set (pending (in_hand \<circ> ph) w (srv_loop (the_server w))) \<or>
      TConnectDestroyed c \<in> set (pending (in_hand \<circ> ph) w (conn_loop x)) \<or>
      index (filedOf w (conn_filed x)) = kNew \<and> (\<forall>nm. connections (the_server w) nm \<noteq> Some c)"
proof -
  have inv: "system_inv itst used L base owner (in_hand \<circ> ph) (to_dispatch \<circ> ph) w"
    using system_runs_keep [OF racing_in_order [OF run own] law ok] by (simp add: system_ok_def)
  from connection_stage [OF inv c] show ?thesis .
qed

section \<open>A shutdown that comes too late\<close>

text \<open>\<open>sendinLoop\<close> on a connection that has output waiting and is not registered for write events: it appends and registers.\<close>

lemma sendinLoop_registers:
  fixes w :: "('k, 'z) served_scheme"
  assumes law: "epoll_ctl_law S itst" and reg: "registry_inv itst L live w" and fp: "conn_filed x \<in> live"
    and c: "conns w c = Some x" and st: "conn_state x \<noteq> kDisconnected" and off: "\<not> isWriting (filedOf w (conn_filed x))"
    and out: "content (outputBuffer x) \<noteq> []" and b: "buffer_inv (outputBuffer x)" and hw: "highWaterMarkCallback x = None"
    and s: "strings w a = Some d" "d \<noteq> []" and room: "has_room (length d) (outputBuffer x)"
  obtains v k b' where "sendinLoop S tid c a (of_nat (length d)) w = Inr v"
    and "v = updated (conn_filed x) (mask_enableWriting (events (filedOf w (conn_filed x)))) k (upd_conn c (\<lambda>x. x\<lparr>outputBuffer := b'\<rparr>) w)"
    and "registry_inv itst L live v"
proof -
  have len: "unat (of_nat (length d) :: size_t) = length d" using room by (intro unat_len) (simp add: has_room_def)
  obtain b' where b': "buffer_append d (outputBuffer x) = Inr b'" using buffer_append_ok [OF b room] by metis
  let ?w = "upd_conn c (\<lambda>x. x\<lparr>outputBuffer := b'\<rparr>) w"
  have same: "filedOf ?w = filedOf w" "kern ?w = kern w" "epollerOf ?w = epollerOf w" by (simp_all add: upd_conn_def)
  have "registry_inv itst L live ?w"
    by (rule registry_frame [OF reg]) (simp_all add: same same_registration_def)
  then obtain k where k: "set_mask S (conn_filed x) mask_enableWriting ?w =
      Inr (updated (conn_filed x) (mask_enableWriting (events (filedOf ?w (conn_filed x)))) k ?w)"
    "registry_inv itst L live (updated (conn_filed x) (mask_enableWriting (events (filedOf ?w (conn_filed x)))) k ?w)"
    by (rule set_mask_exact [OF law _ fp])
  have "readableBytes (outputBuffer x) \<noteq> 0" using out length_content [OF b] by auto
  moreover have "(of_nat (length d) :: size_t) > 0" using s(2) len by (simp add: word_less_nat_alt)
  moreover have "read_string a 0 (of_nat (length d)) w = Inr d" using whole_string [OF s(1), of "of_nat (length d)"] len by simp
  ultimately have "sendinLoop S tid c a (of_nat (length d)) w = set_mask S (conn_filed x) mask_enableWriting ?w"
    using c st off b' hw
    by (simp add: sendinLoop_def with_conn_def sendinLoop_queue_def check_high_water_def Let_def same set_mask_eqs)
  with k that show thesis by (simp add: same)
qed

text \<open>
  C40. A race between \<open>shutdown\<close> and the closing of the connection leaves a dangling \<open>Filed\<close>. Let a connection be closed and
  unregistered, so that only the calls of other threads still hold it, with output that was never sent; let one of these
  calls be a \<open>shutdown\<close> that tested the state before the close, and let the function of a \<open>send\<close> be next in its loop. Then
  \<open>shutdown\<close> takes the state back to \<open>kDisconnecting\<close>, the function no longer sees that the connection is closed, and the
  connection's \<open>Filed\<close> is registered again, in the poller's map and in the kernel's interest list, although it is out of the
  server's map and nothing is queued that would ever unregister it; when the calls return, the connection is destroyed and
  the poller keeps the pointer.
\<close>

theorem late_shutdown_reopens:
  fixes w :: "('k, 'z) served_scheme"
  assumes law: "system_laws S itst used" and ok: "system_ok itst used L base owner (w, ph)"
    and c: "conns w c = Some x" and st: "conn_state x = kDisconnected" and free: "unreferenced L (pending (in_hand \<circ> ph) w) w c"
    and ph: "ph (conn_loop x) = Calling (TSendInLoop c a (of_nat (length d)) # ts)"
    and off: "\<not> isWriting (filedOf w (conn_filed x))" and out: "content (outputBuffer x) \<noteq> []" and hw: "highWaterMarkCallback x = None"
    and s: "strings w a = Some d" "d \<noteq> []" and room: "has_room (length d) (outputBuffer x)"
    and race: "crosses outside app c (ApiShutdown c)" "\<not> isLoopThread tid (conn_loop x) w"
  shows "\<exists>v y u. racing_runs S itst used app outside L owner (w, ph) (v, ph(conn_loop x := Calling ts)) \<and>
    conns v c = Some y \<and> conn_state y = kDisconnecting \<and>
    unreferenced L (pending (in_hand \<circ> ph(conn_loop x := Calling ts)) v) v c \<and>
    (\<exists>ev. itst (kern v) (epollfd (epollerOf v (conn_loop x))) (conn_fd x) = Some (ev, conn_filed x)) \<and>
    destroyConnection S c v = Inr u \<and> conns u c = None \<and>
    fileds (epollerOf u (conn_loop x)) (conn_fd x) = Some (conn_filed x)"
proof -
  let ?l = "conn_loop x" and ?fp = "conn_filed x"
  note inv = ok [unfolded system_ok_def fst_conv snd_conv]
  note sv = system_invD(1) [OF inv] and io = system_lawsD(1) [OF law]
  note cok = process_invD(3) [OF served_invD(6) [OF sv] c, unfolded conn_ok_def]
  have l: "?l \<in> L" by (rule conn_loop_in [OF inv c])
  have f: "filed_loop (filedOf w ?fp) = ?l" "filed_fd (filedOf w ?fp) = conn_fd x" "buffer_inv (outputBuffer x)" using cok by simp_all
  have fp: "?fp \<in> live_of base w" by (rule live_of_conn [OF c])
  let ?w1 = "setState kDisconnecting c w" and ?x = "x\<lparr>conn_state := kDisconnecting\<rparr>"
  let ?w2 = "queueinLoop S tid ?l (TShutdownInLoop c) ?w1"
  have c1: "conns ?w1 = (conns w)(c \<mapsto> ?x)" "filedOf ?w1 = filedOf w" "kern ?w1 = kern w" "epollerOf ?w1 = epollerOf w"
    "strings ?w1 = strings w" "loopOf ?w1 = loopOf w" "the_server ?w1 = the_server w"
    using c by (simp_all add: setState_def upd_conn_def)
  note frame = queueinLoop_frame [OF io_lawsD(2) [OF io], where w = ?w1 and tid = tid and l = ?l and t = "TShutdownInLoop c"]
  have rest: "shutdown_rest S tid c w = Inr ?w2"
    using c race(2) c1(6) by (simp add: shutdown_rest_def with_conn_def runinLoop_def isLoopThread_def)
  have step1: "racing_step S itst used app outside L owner (w, ph) (?w2, ph)"
    by (rule racing_step.overtaken [OF race(1) c st race(2) rest])
  have reg1: "registry_inv itst L (live_of base w) ?w1"
    by (rule registry_frame [OF process_invD(1) [OF served_invD(6) [OF sv]]]) (simp_all add: c1 same_registration_def)
  have reg2: "registry_inv itst L (live_of base w) ?w2" by (rule same_objects_registry [OF frame(1) reg1])
  have c2: "conns ?w2 = (conns w)(c \<mapsto> ?x)" "filedOf ?w2 = filedOf w" "strings ?w2 = strings w" using frame(2-4) c1 by simp_all
  obtain v k b' where send: "sendinLoop S (owner ?l) c a (of_nat (length d)) ?w2 = Inr v"
    and v: "v = updated ?fp (mask_enableWriting (events (filedOf w ?fp))) k (upd_conn c (\<lambda>x. x\<lparr>outputBuffer := b'\<rparr>) ?w2)"
    and regv: "registry_inv itst L (live_of base w) v"
    by (rule sendinLoop_registers [OF io_lawsD(1) [OF io] reg2, of ?x c a d "owner ?l"])
      (use fp c2 off out f(3) hw s room in simp_all)
  have vs: "conns v c = Some (?x\<lparr>outputBuffer := b'\<rparr>)" "the_server v = the_server w" "loopOf v = loopOf ?w2"
    "fileds (epollerOf v ?l) (conn_fd x) = Some ?fp"
    using c2 c1(7) f by (simp_all add: v updated_def upd_conn_def Let_def)
  have ev: "mask_enableWriting e \<noteq> kNoneEvent" for e using mask_test(1) [of e] mask_test(9) by metis
  have "index (filedOf v ?fp) = kAdded" "filed_loop (filedOf v ?fp) = ?l" "filed_fd (filedOf v ?fp) = conn_fd x"
    using c2(2) f ev by (simp_all add: v updated_def upd_conn_def next_index_def Let_def)
  with watched [OF regv fp] have reg: "\<exists>e. itst (kern v) (epollfd (epollerOf v ?l)) (conn_fd x) = Some (e, ?fp)" by metis
  have "system_step S itst used app outside L owner (?w2, ph) (v, ph(?l := Calling ts))"
    by (rule system_step.call [where t = "TSendInLoop c a (of_nat (length d))"]) (use l ph send in \<open>simp_all add: server_task_def\<close>)
  then have step2: "racing_step S itst used app outside L owner (?w2, ph) (v, ph(?l := Calling ts))" by (rule racing_step.in_order)
  have run: "racing_runs S itst used app outside L owner (w, ph) (v, ph(?l := Calling ts))"
    by (rule converse_rtranclp_into_rtranclp, rule step1, rule r_into_rtranclp, rule step2)
  have q: "pendFuncs (loopOf v m) = pendFuncs (loopOf w m) @ (if m = ?l then [TShutdownInLoop c] else [])" for m
    by (simp add: vs(3) c1(6))
  have "\<not> holds_ref c t" if "m \<in> L" "t \<in> set (pending (in_hand \<circ> ph(?l := Calling ts)) v m)" for m t
  proof -
    have "t \<in> set (pending (in_hand \<circ> ph) w m) \<or> t = TShutdownInLoop c"
      using that(2) q [of m] ph by (cases "m = ?l") auto
    with free that(1) show ?thesis by (auto simp: unreferenced_def holds_ref_def)
  qed
  with free have un: "unreferenced L (pending (in_hand \<circ> ph(?l := Calling ts)) v) v c" by (simp add: unreferenced_def vs(2))
  obtain u where "destroyConnection S c v = Inr u" "conns u c = None" "epollerOf u = epollerOf v"
    using vs(1) by (simp add: destroyConnection_def with_conn_def Socket_destroy_def)
  with run vs(1,4) un reg show ?thesis
    by (intro exI [of _ v] exI [of _ "?x\<lparr>outputBuffer := b'\<rparr>"] exI [of _ u]) simp
qed

section \<open>The start\<close>

text \<open>A server that has started and has no connection yet.\<close>

lemma system_ok_start:
  fixes w :: "('k, 'z) served_scheme"
  assumes ready: "ready_inv itst used L base w" and none: "conns w = Map.empty" and owner: "\<And>l. l \<in> L \<Longrightarrow> threadId (loopOf w l) = owner l"
  shows "system_ok itst used L base owner (w, \<lambda>_. Starting)"
proof -
  have "fit w l t \<and> (\<forall>c. t \<noteq> TConnectEstablished c)" if "l \<in> L" "t \<in> set (pendFuncs (loopOf w l))" for l t
  proof -
    have "light (calm {} w) l t" using ready that by (simp add: ready_inv_def light_queues_def)
    with none show ?thesis by (cases t) (simp_all add: light_def calm_def fit_def)
  qed
  note queued = this
  have "count_list (pendFuncs (loopOf w l)) (TConnectEstablished c) = 0" if "l \<in> L" for l c
    using queued [OF that] by (auto simp: count_list_0_iff)
  with queued have "tasks_ok L (pending (\<lambda>_. []) w) w" by (simp add: tasks_ok_def)
  with ready none owner show ?thesis
    by (simp add: system_ok_def system_inv_def ready_inv_def fds_open_def one_name_def comp_def)
qed

section \<open>\<open>EventLoop::loop\<close> as steps\<close>

text \<open>
  The step relation against the function that models the code: what one thread's \<open>loop()\<close> does, run alone, is a
  sequence of steps.
\<close>

lemma step_then: "system_step S itst used app outside L owner s t \<Longrightarrow> system_runs S itst used app outside L owner t u \<Longrightarrow>
    system_runs S itst used app outside L owner s u"
  by (rule converse_rtranclp_into_rtranclp)

lemma dispatch_steps:
  assumes l: "l \<in> L" and run: "runE (loop_dispatch S app (owner l) now) fps w = Inr w'"
  shows "system_runs S itst used app outside L owner (w, ph(l := Dispatching now fps)) (w', ph(l := Dispatching now []))"
  using run
proof (induction fps arbitrary: w)
  case (Cons fp fps)
  then obtain v where v: "loop_dispatch S app (owner l) now fp w = Inr v" "runE (loop_dispatch S app (owner l) now) fps v = Inr w'"
    by (cases "loop_dispatch S app (owner l) now fp w") simp_all
  have "system_step S itst used app outside L owner (w, ph(l := Dispatching now (fp # fps))) (v, (ph(l := Dispatching now (fp # fps)))(l := Dispatching now fps))"
    by (rule system_step.dispatch [where fp = fp]) (use l v(1) in simp_all)
  from step_then [OF this [unfolded fun_upd_upd] Cons.IH [OF v(2)]] show ?case .
qed simp

lemma call_steps:
  assumes l: "l \<in> L" and run: "runE (server_task S app (owner l)) ts w = Inr w'"
  shows "system_runs S itst used app outside L owner (w, ph(l := Calling ts)) (w', ph(l := Calling []))"
  using run
proof (induction ts arbitrary: w)
  case (Cons t ts)
  then obtain v where v: "server_task S app (owner l) t w = Inr v" "runE (server_task S app (owner l)) ts v = Inr w'"
    by (cases "server_task S app (owner l) t w") simp_all
  have "system_step S itst used app outside L owner (w, ph(l := Calling (t # ts))) (v, (ph(l := Calling (t # ts)))(l := Calling ts))"
    by (rule system_step.call [where t = t]) (use l v(1) in simp_all)
  from step_then [OF this [unfolded fun_upd_upd] Cons.IH [OF v(2)]] show ?case .
qed simp

lemma iteration_steps:
  assumes l: "l \<in> L" and run: "loop_iteration S (server_handler S app (owner l)) (server_task S app (owner l))
      find_filed (\<lambda>w c. conns w c \<noteq> None) l w = Inr w'" and q: "\<not> quit (loopOf w l)"
  shows "system_runs S itst used app outside L owner (w, ph(l := Polling)) (w', ph(l := Polling))"
proof -
  obtain now active v where v: "loop_poll S l w = Inr (now, active, v)"
    "bindE (runE (loop_dispatch S app (owner l) now) active v) (doPendFunc (server_task S app (owner l)) l) = Inr w'"
    using run unfolding loop_iteration_def loop_poll_def loop_dispatch_def
    by (cases "Epoller_epoll S l kEpollTime [] (upd_loop l (\<lambda>e. e\<lparr>activeFileds := []\<rparr>) w)") auto
  then obtain u where u: "runE (loop_dispatch S app (owner l) now) active v = Inr u" "doPendFunc (server_task S app (owner l)) l u = Inr w'"
    by (cases "runE (loop_dispatch S app (owner l) now) active v") simp_all
  obtain ts u1 where ts: "begin_pend l u = (ts, u1)" by fastforce
  with u(2) obtain u2 where u2: "runE (server_task S app (owner l)) ts u1 = Inr u2" "w' = end_pend l u2"
    by (cases "runE (server_task S app (owner l)) ts u1") (simp_all add: doPendFunc_def)
  let ?go = "system_runs S itst used app outside L owner"
  have "system_step S itst used app outside L owner (w, ph(l := Polling)) (v, (ph(l := Polling))(l := Dispatching now active))"
    by (rule system_step.poll) (use l q v(1) in simp_all)
  moreover have "?go (v, ph(l := Dispatching now active)) (u, ph(l := Dispatching now []))"
    by (rule dispatch_steps [where owner = owner and l = l and app = app and outside = outside, OF l u(1)])
  moreover have "system_step S itst used app outside L owner (u, ph(l := Dispatching now [])) (u1, (ph(l := Dispatching now []))(l := Calling ts))"
    by (rule system_step.take) (use l ts in simp_all)
  moreover have "?go (u1, ph(l := Calling ts)) (u2, ph(l := Calling []))" by (rule call_steps [where owner = owner and l = l and app = app and outside = outside, OF l u2(1)])
  moreover have "system_step S itst used app outside L owner (u2, ph(l := Calling [])) (w', (ph(l := Calling []))(l := Polling))"
    unfolding u2(2) by (rule system_step.finish) (use l in simp_all)
  ultimately show ?thesis by (simp add: fun_upd_upd)
qed

lemma while_steps:
  assumes l: "l \<in> L"
    and run: "loop_while (loop_iteration S (server_handler S app (owner l)) (server_task S app (owner l))
      find_filed (\<lambda>w c. conns w c \<noteq> None) l) l w = Some r" and r: "r = Inr v"
  shows "system_runs S itst used app outside L owner (w, ph(l := Polling)) (v, ph(l := Polling)) \<and> quit (loopOf v l)"
proof -
  let ?it = "loop_iteration S (server_handler S app (owner l)) (server_task S app (owner l)) find_filed (\<lambda>w c. conns w c \<noteq> None) l"
  let ?P = "\<lambda>it m w r. it = ?it \<longrightarrow> m = l \<longrightarrow> (\<forall>v. r = Inr v \<longrightarrow>
    system_runs S itst used app outside L owner (w, ph(l := Polling)) (v, ph(l := Polling)) \<and> quit (loopOf v l))"
  have "?P ?it l w r"
  proof (rule loop_while.raw_induct [of ?P, OF _ run])
    fix lw it m w r
    assume IH: "\<And>it m w r. lw it m w = Some r \<Longrightarrow> ?P it m w r"
      and body: "(if quit (loopOf w m) then Some (Inr w) else case it w of Inl e \<Rightarrow> Some (Inl e) | Inr w' \<Rightarrow> lw it m w') = Some r"
    show "?P it m w r"
    proof (intro impI allI)
      fix v assume it: "it = ?it" "m = l" and r: "r = Inr v"
      show "system_runs S itst used app outside L owner (w, ph(l := Polling)) (v, ph(l := Polling)) \<and> quit (loopOf v l)"
      proof (cases "quit (loopOf w l)")
        case True
        with body it r show ?thesis by simp
      next
        case False
        with body it r obtain u where u: "?it w = Inr u" "lw it l u = Some (Inr v)" by (cases "?it w") simp_all
        from IH [OF u(2)] it iteration_steps [where owner = owner and l = l and app = app and outside = outside, OF l u(1) False] show ?thesis by (auto intro: rtranclp_trans)
      qed
    qed
  qed
  with r show ?thesis by blast
qed

text \<open>
  C9. The transition system covers the code's loop: whenever a thread's \<open>loop()\<close> returns, its whole run, from the flags it
  sets at the start through all its iterations to the end after \<open>quit\<close>, is a sequence of steps of the system, so that
  what is shown of all reachable states holds at each of them.
\<close>

theorem loop_is_steps:
  assumes "run_loop S app (owner l) l w = Some (Inr w')" and "ph l = Starting" and l: "l \<in> L"
  shows "system_runs S itst used app outside L owner (w, ph) (w', ph(l := Stopped))"
proof -
  let ?w = "upd_loop l (\<lambda>e. e\<lparr>looping := True, quit := False\<rparr>) w"
  let ?it = "loop_iteration S (server_handler S app (owner l)) (server_task S app (owner l)) find_filed (\<lambda>w c. conns w c \<noteq> None) l"
  obtain r where r: "loop_while ?it l ?w = Some r" "bindE r (\<lambda>w. Inr (upd_loop l (\<lambda>e. e\<lparr>looping := False\<rparr>) w)) = Inr w'"
    using assms(1) by (auto simp: run_loop_def EventLoop_loop_def)
  then obtain v where v: "r = Inr v" "w' = upd_loop l (\<lambda>e. e\<lparr>looping := False\<rparr>) v" by (cases r) auto
  note steps = while_steps [where owner = owner and l = l and app = app and outside = outside and itst = itst and used = used and ph = ph, OF l r(1) v(1)]
  have "system_step S itst used app outside L owner (w, ph) (?w, ph(l := Polling))"
    by (rule system_step.enter) (use assms in simp_all)
  moreover have "system_step S itst used app outside L owner (v, ph(l := Polling)) (w', (ph(l := Polling))(l := Stopped))"
    unfolding v(2) by (rule system_step.leave) (use l steps in simp_all)
  ultimately show ?thesis using steps by (auto intro: step_then rtranclp.rtrancl_into_rtrancl)
qed

section \<open>Concrete runs\<close>

text \<open>A process whose one connection waits to be established, and whose loop has \<open>listen\<close> in hand.\<close>

definition demo_listening :: "(ksim, unit) system_state" where
  "demo_listening = (demo_served kConnecting, \<lambda>_. Calling [TListen])"

lemma demo_live: "live_of {0, 2} (demo_served st) = {0, 1, 2}"
  by (auto simp: live_of_def demo_served_def demo_conn_def)

lemma demo_sane:
  assumes "st = kConnecting \<or> st = kDisconnected" and "conns (demo_served st) c = Some x"
  shows "conn_sane (demo_served st) c x" and "st = kConnecting \<Longrightarrow> held ts (demo_served st) c x"
proof -
  have x: "c = 5" "x = demo_conn\<lparr>conn_name := ''s-1.2.3.4:80#1'', conn_state := st\<rparr>"
    using assms(2) by (auto simp: demo_served_def split: if_splits)
  have idle: "5 \<in> idle_conns (demo_served st)" by (simp add: idle_conns_def demo_served_def demo_conn_def)
  have "\<exists>i. 1 \<le> i \<and> i < nextConnId demo_server \<and> ''s-1.2.3.4:80#1'' = conn_name_of (demo_server\<lparr>nextConnId := i\<rparr>)"
    using demo_name by (intro exI [of _ 1]) (simp add: demo_server_def)
  with assms(1) idle show "conn_sane (demo_served st) c x" "st = kConnecting \<Longrightarrow> held ts (demo_served st) c x"
    unfolding conn_sane_def held_def x by (auto simp: demo_served_def demo_conn_def demo_server_def handler_conn_def)
qed

lemma demo_facts:
  "\<forall>q \<in> {0, 1, 2}. filed_fd (filedOf (demo_served st) q) \<in> sim_used (kern (demo_served st))"
  "base_handlers {0, 2} (demo_served st)" "threadId (loopOf (demo_served st) 0) = 1" "pendFuncs (loopOf (demo_served st) 0) = []"
  "one_name (demo_served st)"
proof -
  show "\<forall>q \<in> {0, 1, 2}. filed_fd (filedOf (demo_served st) q) \<in> sim_used (kern (demo_served st))"
    by (simp add: demo_served_def sim_used_def ksim0_def mkFiled_def)
  show "base_handlers {0, 2} (demo_served st)"
    by (simp add: base_handlers_def demo_served_def handlers_of_def mkFiled_def)
  show "one_name (demo_served st)" by (auto simp: one_name_def demo_served_def split: if_splits)
qed (simp_all add: demo_served_def)

lemma demo_system_ok:
  assumes ph: "\<And>l. ph l = Starting \<or> ph l = Calling [TListen]"
  shows "system_ok sim_interest sim_used {0} {0, 2} (\<lambda>_. 1) (demo_served kConnecting, ph)"
proof -
  have "in_hand (ph 0) = [] \<or> in_hand (ph 0) = [TListen]" "to_dispatch (ph 0) = []" using ph [of 0] by auto
  then show ?thesis
    using demo_served_inv [of kConnecting] demo_sane [of kConnecting] demo_facts [of kConnecting]
    by (auto simp: system_ok_def system_inv_def demo_live tasks_ok_def fit_def)
qed

lemma demo_listening_ok: "system_ok sim_interest sim_used {0} {0, 2} (\<lambda>_. 1) demo_listening"
  unfolding demo_listening_def by (rule demo_system_ok) simp_all

lemma demo_listen:
  "\<exists>w. Acceptor_listen sim_sys (demo_served kConnecting) = Inr w \<and> sim_interest (kern w) (epollfd (epollerOf w 0)) 8 = Some (kReadEvent, 2)"
  by (simp add: Acceptor_listen_def Socket_listen_def demo_served_def upd_acceptor_def sim_sys_def Let_def enableReading_def
      Filed_update_def EventLoop_update_def Epoller_update_def upd_filed_def mkFiled_def kNew_def updateHelper_def
      upd_epoller_def setIndex_def sim_epoll_ctl_def ksim0_def mask_enableReading_def)

lemma demo_run:
  obtains w where "system_runs sim_sys sim_interest sim_used (\<lambda>_ _ _. []) (\<lambda>_ _. True) {0} (\<lambda>_. 1) demo_listening (w, (\<lambda>_. Calling [TListen])(0 := Calling []))"
    and "sim_interest (kern w) (epollfd (epollerOf w 0)) 8 = Some (kReadEvent, 2)"
proof -
  obtain w where w: "Acceptor_listen sim_sys (demo_served kConnecting) = Inr w"
    "sim_interest (kern w) (epollfd (epollerOf w 0)) 8 = Some (kReadEvent, 2)" using demo_listen by blast
  have "system_step sim_sys sim_interest sim_used (\<lambda>_ _ _. []) (\<lambda>_ _. True) {0} (\<lambda>_. 1) demo_listening (w, (\<lambda>_. Calling [TListen])(0 := Calling []))"
    unfolding demo_listening_def by (rule system_step.call [where t = TListen]) (use w(1) in \<open>simp_all add: server_task_def\<close>)
  with w(2) that show thesis by blast
qed



text \<open>A process in which nothing refers to the connection any more.\<close>

definition demo_dead :: "ksim served" where
  "demo_dead = upd_server (\<lambda>s. s\<lparr>connections := Map.empty\<rparr>) (demo_served kDisconnected)"

lemma demo_dead_ok: "system_ok sim_interest sim_used {0} {0, 2} (\<lambda>_. 1) (demo_dead, \<lambda>_. Starting)"
proof -
  let ?w = "demo_served kDisconnected"
  have srv: "srv_leaves ?w demo_dead"
    by (auto simp: srv_leaves_def demo_dead_def upd_server_def intro!: exI [of _ Map.empty])
  have good: "good sim_interest {0} (live_of {0, 2} ?w) ?w demo_dead"
    by (rule good_frame [OF served_invD(5) [OF demo_served_inv]]) (simp_all add: demo_dead_def)
  have same: "conns demo_dead = conns ?w" "filedOf demo_dead = filedOf ?w" "kern demo_dead = kern ?w" "loopOf demo_dead = loopOf ?w"
    "the_acceptor demo_dead = the_acceptor ?w" "next_addr demo_dead = next_addr ?w"
    "the_server demo_dead = (the_server ?w)\<lparr>connections := Map.empty\<rparr>"
    by (simp_all add: demo_dead_def upd_server_def)
  have "conn_sane demo_dead c x \<and> held ts demo_dead c x" if "conns demo_dead c = Some x" for c x ts
  proof -
    have x: "c = 5" "conn_state x = kDisconnected" using that same(1) by (auto simp: demo_served_def split: if_splits)
    have "5 \<in> idle_conns demo_dead" by (simp add: idle_conns_def same) (simp add: demo_served_def demo_conn_def)
    with x that demo_sane(1) [of kDisconnected c x] same show ?thesis
      by (auto simp: conn_sane_def held_def conn_name_of_def)
  qed
  moreover have "served_inv sim_interest {0} {0, 2} demo_dead" using served_inv_step [OF demo_served_inv srv good] by blast
  moreover have "live_of {0, 2} demo_dead = live_of {0, 2} ?w" "one_name demo_dead = one_name ?w"
    "base_handlers {0, 2} demo_dead = base_handlers {0, 2} ?w" by (simp_all add: live_of_def one_name_def base_handlers_def same)
  moreover have "tasks_ok {0} (pending (in_hand \<circ> (\<lambda>_. Starting)) demo_dead) demo_dead"
    unfolding tasks_ok_def same by (simp add: demo_served_def)
  ultimately show ?thesis
    using demo_facts [of kDisconnected] unfolding system_ok_def system_inv_def by (simp add: same demo_live)
qed


theorem connection_stages_witness:
  "\<exists>x. conns demo_dead 5 = Some x \<and> conn_state x = kDisconnected \<and> index (filedOf demo_dead (conn_filed x)) = kNew"
proof -
  obtain x where x: "conns demo_dead 5 = Some x" "conn_state x = kDisconnected" by (simp add: demo_dead_def upd_server_def demo_served_def)
  have "pending (in_hand \<circ> (\<lambda>_. Starting)) demo_dead l = []" for l by (simp add: demo_dead_def upd_server_def demo_served_def)
  moreover have "\<not> crosses (\<lambda>_ x. x = ApiQuit 0) (\<lambda>_ _ _. []) c (ApiShutdown c)" for c by (simp add: crosses_def)
  ultimately show ?thesis
    using connection_stages [OF sim_system_laws demo_dead_ok, of "\<lambda>_ x. x = ApiQuit 0" "\<lambda>_ _ _. []" demo_dead "\<lambda>_. Starting" 5 x] x by auto
qed

text \<open>The same connection with one byte that was never sent, while its loop has a function of another thread's \<open>send\<close> in hand.\<close>

definition demo_output :: buffer where
  "demo_output = (mkBuffer kInitialSize)\<lparr>writerIndex := kCheapPrepend + 1\<rparr>"

definition demo_late :: "ksim served" where
  "demo_late = upd_conn 5 (\<lambda>x. x\<lparr>outputBuffer := demo_output\<rparr>) (demo_dead\<lparr>strings := (\<lambda>_. None)(9 \<mapsto> [1])\<rparr>)"

definition demo_late_phase :: "nat \<Rightarrow> phase" where
  "demo_late_phase = (\<lambda>_. Starting)(0 := Calling [TSendInLoop 5 9 (of_nat (length [1 :: byte]))])"

lemma demo_output: "buffer_inv demo_output" "content demo_output \<noteq> []" "has_room (length [1 :: byte]) demo_output"
  by (simp_all add: buffer_inv_def content_def has_room_def demo_output_def mkBuffer_def kInitialSize_def kCheapPrepend_def)

lemma demo_late_ok: "system_ok sim_interest sim_used {0} {0, 2} (\<lambda>_. 1) (demo_late, demo_late_phase)"
proof -
  let ?v = "demo_dead\<lparr>strings := (\<lambda>_. None)(9 \<mapsto> [1])\<rparr>" and ?g = "\<lambda>x. x\<lparr>outputBuffer := demo_output\<rparr>"
  note inv = demo_dead_ok [unfolded system_ok_def fst_conv snd_conv]
  note s = system_invD(1) [OF inv]
  obtain x where x: "conns demo_dead 5 = Some x" "conn_state x = kDisconnected"
    by (simp add: demo_dead_def upd_server_def demo_served_def)
  have same: "conns demo_late = (conns demo_dead)(5 \<mapsto> ?g x)" "filedOf demo_late = filedOf demo_dead" "kern demo_late = kern demo_dead"
    "loopOf demo_late = loopOf demo_dead" "the_server demo_late = the_server demo_dead" "the_acceptor demo_late = the_acceptor demo_dead"
    "next_addr demo_late = next_addr demo_dead" "pool demo_late = pool demo_dead" using x by (simp_all add: demo_late_def upd_conn_def)
  have "dom (conns demo_late) = dom (conns demo_dead)" using x same by auto
  then have srv: "srv_leaves demo_dead demo_late" by (auto simp: srv_leaves_def same intro: exI [of _ "connections (the_server demo_dead)"])
  have "good sim_interest {0} (live_of {0, 2} demo_dead) demo_dead ?v"
    by (rule good_frame [OF served_invD(5) [OF s]]) (simp_all add: same_objects_def)
  then have "good sim_interest {0} (live_of {0, 2} demo_dead) demo_dead demo_late"
    unfolding demo_late_def
    by (rule good_conn) (use x demo_output(1) process_invD(3) [OF served_invD(6) [OF s] x(1)] in \<open>auto simp: conn_forward_def conn_ok_def\<close>)
  then have sv: "served_inv sim_interest {0} {0, 2} demo_late" and live: "live_of {0, 2} demo_late = live_of {0, 2} demo_dead"
    using served_inv_step [OF s srv] by blast+
  have idle: "idle_conns demo_late = idle_conns demo_dead" using x by (auto simp: idle_conns_def same)
  have only: "c = 5" if "conns demo_late c = Some y" for c y
    using that same(1) by (auto simp: demo_dead_def upd_server_def demo_served_def split: if_splits)
  have "conn_sane demo_late c y \<and> held ts demo_late c y" if y: "conns demo_late c = Some y" for c y ts
  proof -
    have y': "c = 5" "y = ?g x" using only [OF y] y same(1) by auto
    from unreferenced_idle [OF inv x(1)] have "5 \<in> idle_conns demo_dead"
      by (simp add: unreferenced_def demo_dead_def upd_server_def demo_served_def)
    then show ?thesis
      using system_invD(5) [OF inv x(1)] y' by (simp add: conn_sane_def held_def idle same) (simp add: demo_dead_def upd_server_def)
  qed
  moreover have "one_name demo_late" using only by (auto simp: one_name_def)
  moreover have "tasks_ok {0} (pending (in_hand \<circ> demo_late_phase) demo_late) demo_late"
    using x by (auto simp: tasks_ok_def demo_late_phase_def same fit_def)
      (simp_all add: demo_dead_def upd_server_def demo_served_def)
  moreover have "base_handlers {0, 2} demo_late" using system_invD(3) [OF inv] by (simp add: base_handlers_def same)
  ultimately show ?thesis
    using sv live system_invD(2,4) [OF inv] unfolding system_ok_def system_inv_def
    by (auto simp: same demo_late_phase_def)
qed

theorem late_shutdown_reopens_witness:
  "\<exists>v y u. racing_runs sim_sys sim_interest sim_used (\<lambda>_ _ _. []) (\<lambda>_ x. x = ApiShutdown 5) {0} (\<lambda>_. 1)
      (demo_late, demo_late_phase) (v, demo_late_phase(0 := Calling [])) \<and>
    conns v 5 = Some y \<and> conn_state y = kDisconnecting \<and> destroyConnection sim_sys 5 v = Inr u \<and> conns u 5 = None \<and>
    fileds (epollerOf u 0) 7 = Some 1"
proof -
  obtain x where x: "conns demo_late 5 = Some x" "conn_state x = kDisconnected" "outputBuffer x = demo_output" "conn_loop x = 0"
    "conn_fd x = 7" "conn_filed x = 1" "highWaterMarkCallback x = None"
    by (simp add: demo_late_def upd_conn_def demo_dead_def upd_server_def demo_served_def demo_conn_def)
  have free: "unreferenced {0} (pending (in_hand \<circ> demo_late_phase) demo_late) demo_late 5"
    by (simp add: unreferenced_def demo_late_def upd_conn_def demo_dead_def upd_server_def demo_served_def demo_late_phase_def holds_ref_def)
  have ph: "demo_late_phase (conn_loop x) = Calling (TSendInLoop 5 9 (of_nat (length [1 :: byte])) # [])"
    by (simp add: demo_late_phase_def x)
  have off: "\<not> isWriting (filedOf demo_late (conn_filed x))" and s: "strings demo_late 9 = Some [1]"
    and tid: "\<not> isLoopThread 2 (conn_loop x) demo_late"
    by (simp_all add: x demo_late_def upd_conn_def demo_dead_def upd_server_def demo_served_def new_filed_def mkFiled_def isWriting_def isLoopThread_def)
  have race: "crosses (\<lambda>_ x. x = ApiShutdown 5) (\<lambda>_ _ _. []) 5 (ApiShutdown 5)" by (simp add: crosses_def)
  from late_shutdown_reopens [OF sim_system_laws demo_late_ok x(1,2) free ph off _ x(7) s _ _ race tid] demo_output x
  show ?thesis by auto
qed

text \<open>A loop that has a function of the application queued, which quits it.\<close>

definition demo_quits :: "ksim served" where
  "demo_quits = upd_loop 0 (\<lambda>e. e\<lparr>pendFuncs := [TUser 0]\<rparr>) (demo_served kConnecting)"

definition demo_quit_app :: "(ksim, unit) server_app" where
  "demo_quit_app h ev w = (case ev of EvUser \<Rightarrow> [ApiQuit 0] | _ \<Rightarrow> [])"

lemma demo_quits_iteration:
  "\<exists>w. loop_iteration sim_sys (server_handler sim_sys demo_quit_app 1) (server_task sim_sys demo_quit_app 1) find_filed alive 0
      (upd_loop 0 (\<lambda>e. e\<lparr>looping := True, quit := False\<rparr>) demo_quits) = Inr w \<and> quit (loopOf w 0)"
  by (simp add: loop_iteration_def Epoller_epoll_def demo_quits_def demo_served_def upd_loop_def sim_sys_def ksim0_def
      upd_epoller_def log_line_def doPendFunc_def begin_pend_def end_pend_def server_task_def call_app_def demo_quit_app_def
      quit_loop_def isLoopThread_def Let_def)

lemma demo_quits_runs: "\<exists>w. run_loop sim_sys demo_quit_app 1 0 demo_quits = Some (Inr w)"
proof -
  let ?it = "loop_iteration sim_sys (server_handler sim_sys demo_quit_app 1) (server_task sim_sys demo_quit_app 1) find_filed (\<lambda>w c. conns w c \<noteq> None) 0"
  let ?w = "upd_loop 0 (\<lambda>e. e\<lparr>looping := True, quit := False\<rparr>) demo_quits"
  obtain w where w: "?it ?w = Inr w" "quit (loopOf w 0)" using demo_quits_iteration by blast
  have "loop_while ?it 0 w = Some (Inr w)" by (subst loop_while.simps) (simp add: w)
  then have "loop_while ?it 0 ?w = Some (Inr w)"
    by (subst loop_while.simps) (simp only: w sum.case, simp add: upd_loop_def)
  then show ?thesis by (simp add: run_loop_def EventLoop_loop_def)
qed

theorem loop_is_steps_witness:
  "\<exists>w. system_runs sim_sys sim_interest sim_used demo_quit_app (\<lambda>_ _. True) {0} (\<lambda>_. 1) (demo_quits, \<lambda>_. Starting) (w, (\<lambda>_. Starting)(0 := Stopped))"
proof -
  obtain w where w: "run_loop sim_sys demo_quit_app 1 0 demo_quits = Some (Inr w)" using demo_quits_runs by blast
  have "run_loop sim_sys demo_quit_app ((\<lambda>_. 1) (0 :: nat)) 0 demo_quits = Some (Inr w)" using w by simp
  from loop_is_steps [where owner = "\<lambda>_. 1" and ph = "\<lambda>_. Starting", OF this] show ?thesis by blast
qed

end
