(* ===== verification/EchoServer.thy ===== *)
theory EchoServer
  imports ServerSystem ConnectionStream
begin

text \<open>
  The program in \<open>testcode/test.cpp\<close>: a server that sends back what it receives, with three threads. It is an
  application of the library like any other, so that everything shown for all applications holds of it; here is
  what is shown of it alone, that it starts and that it echoes.
\<close>

section \<open>The program\<close>

text \<open>
  The handles of the two closures over the members. \<open>msg\<close> is the address of the local string of \<open>onMessage\<close>.
  \<open>onConnection\<close> only prints informational lines.
\<close>

definition kOnConnection :: nat where "kOnConnection = 1"
definition kOnMessage :: nat where "kOnMessage = 2"

definition onConnection :: "nat \<Rightarrow> api list" where
  "onConnection conn = []"

definition onMessage :: "nat \<Rightarrow> nat \<Rightarrow> api list" where
  "onMessage msg conn = [ApiTakeAll conn msg, ApiSend conn msg, ApiFree msg]"

definition echo_app :: "nat \<Rightarrow> ('k, 'z) app" where
  "echo_app msg h ev w =
     (case ev of
        EvConnection c \<Rightarrow> if h = kOnConnection then onConnection c else []
      | EvMessage c t \<Rightarrow> if h = kOnMessage then onMessage msg c else []
      | _ \<Rightarrow> [])"

definition mkEchoServer ::
  "'k sys \<Rightarrow> nat \<Rightarrow> sockaddr \<Rightarrow> string \<Rightarrow> ('k, 'z) served_scheme \<Rightarrow> fault + ('k, 'z) served_scheme" where
  "mkEchoServer S loop addr nm w =
     bindE (mkServer S (Some loop) addr nm kNoReusePort w) (\<lambda>w.
       Inr (setThreadNum 3 (Server_setMessageCallback (Some kOnMessage) (Server_setConnectionCallback (Some kOnConnection) w))))"

definition EchoServer_start ::
  "'k sys \<Rightarrow> nat \<Rightarrow> int \<Rightarrow> ('k, 'z) served_scheme \<Rightarrow> fault + ('k, 'z) served_scheme" where
  "EchoServer_start S msg tid w = Server_start S (echo_app msg) tid w"

text \<open>\<open>main\<close> up to the call of \<open>loop()\<close>, and all of it; the loop is at \<open>l\<close> and \<open>inet\<close> is \<open>inet_addr\<close>.\<close>

definition main_setup ::
  "'k sys \<Rightarrow> (string \<Rightarrow> u32) \<Rightarrow> nat \<Rightarrow> int \<Rightarrow> nat \<Rightarrow> ('k, 'z) served_scheme \<Rightarrow> fault + ('k, 'z) served_scheme" where
  "main_setup S inet msg tid l w =
     bindE (mkEventLoop S tid l (l + 1) w) (\<lambda>w.
     bindE (mkEchoServer S l (mkAddress inet 8002 ''127.0.0.1'') ''EchoServer'' w)
       (EchoServer_start S msg tid))"

definition main ::
  "'k sys \<Rightarrow> (string \<Rightarrow> u32) \<Rightarrow> nat \<Rightarrow> int \<Rightarrow> nat \<Rightarrow> ('k, 'z) served_scheme \<Rightarrow>
     (fault + ('k, 'z) served_scheme) option" where
  "main S inet msg tid l w =
     (case main_setup S inet msg tid l w of Inl e \<Rightarrow> Some (Inl e) | Inr w \<Rightarrow> run_loop S (echo_app msg) tid l w)"

section \<open>Starting\<close>

lemma mkEchoServer_outcome:
  fixes w :: "('k, 'z) served_scheme"
  assumes law: "interest_frame S itst" "socket_frame S itst" "fd_law S itst used"
    and reg: "registry_inv itst L base w" and fds: "fds_open used L base w" and none: "conns w = Map.empty"
    and addrs: "base \<subseteq> {..<next_addr w}" "L \<subseteq> {..<next_addr w}"
    and inj: "inj_on (\<lambda>q. filed_fd (filedOf w q)) base" and l: "l \<in> L"
    and calm: "\<And>q h. q \<in> base \<Longrightarrow> h \<in> handlers_of (filedOf w q) \<Longrightarrow> handler_conn h = None" and queues: "light_queues L w"
  shows "outcome (\<lambda>e. e = ExitFailure \<and> socket_calls_fail S)
    (\<lambda>v. boot_inv itst used L (insert (next_addr w) base) v \<and> started_count (the_server v) = 0 \<and> loops (pool v) = [] \<and>
       threads_num (pool v) = 3 \<and> conns v = Map.empty \<and> next_addr v = next_addr w + 1 \<and> next_tid v = next_tid w \<and>
       loopInThread v = loopInThread w \<and> srv_loop (the_server v) = l \<and> threadInitCallback (the_server v) = None \<and>
       srv_connectionCallback (the_server v) = Some kOnConnection \<and> srv_messageCallback (the_server v) = Some kOnMessage \<and>
       (\<forall>t m. m + 1 \<in> base \<longrightarrow> loop_ready t m w \<longrightarrow> loop_ready t m v))
    (mkEchoServer S l addr nm w)"
  unfolding mkEchoServer_def
proof (rule outcome_bind [OF outcome_mono [OF mkServer_outcome [OF law(1,2) reg none addrs(1) inj]]])
  show "e = ExitFailure \<and> socket_calls_fail S" if "e = ExitFailure \<and> (Some l = None \<or> socket_calls_fail S)" for e using that by simp
  show "m \<in> L" if "Some l = Some m" for m using l that by simp
  show "\<forall>q \<in> base. filed_fd (filedOf w q) \<noteq> n" if "sys_socket S (kern w) = (n, k)" "0 \<le> n" for n k
    using fd_lawD(4) [OF law(3) that(1)] that(2) fds none by (auto simp: opens_def fds_open_def)
  fix v :: "('k, 'z) served_scheme"
  let ?p = "next_addr w"
  assume "served_inv itst L (insert ?p base) v \<and> acceptFiled (the_acceptor v) = ?p \<and>
    index (filedOf v ?p) = kNew \<and> newConnectionCallback (the_acceptor v) \<and>
    connections (the_server v) = Map.empty \<and> nextConnId (the_server v) = 1 \<and>
    (\<exists>k. Some l = Some k \<and> pool v = mkManagerPool k nm \<and> srv_loop (the_server v) = k) \<and>
    threadInitCallback (the_server v) = None \<and> started_count (the_server v) = 0 \<and> conns v = Map.empty \<and>
    next_addr v = ?p + 1 \<and> next_tid v = next_tid w \<and> loopOf v = loopOf w \<and> loopInThread v = loopInThread w \<and>
    (\<forall>q. q \<noteq> ?p \<longrightarrow> filedOf v q = filedOf w q) \<and> epollerOf v = epollerOf w \<and>
    (\<exists>fd k1 a r. sys_socket S (kern w) = (fd, k1) \<and> 0 \<le> fd \<and>
       filedOf v ?p = setReadCallback HAcceptRead (mkFiled (the (Some l)) fd) \<and>
       sys_bind S fd a (sys_setsockopt S fd SO_REUSEPORT 1 (sys_setsockopt S fd SO_REUSEADDR 1 k1)) = (r, kern v))"
  then obtain fd k1 a r where acc: "acceptFiled (the_acceptor v) = ?p" and v: "served_inv itst L (insert ?p base) v" "pool v = mkManagerPool l nm"
    "srv_loop (the_server v) = l" "threadInitCallback (the_server v) = None" "started_count (the_server v) = 0"
    "conns v = Map.empty" "next_addr v = ?p + 1" "next_tid v = next_tid w" "loopOf v = loopOf w"
    "\<And>q. q \<noteq> ?p \<Longrightarrow> filedOf v q = filedOf w q" "epollerOf v = epollerOf w" "loopInThread v = loopInThread w"
    and k: "sys_socket S (kern w) = (fd, k1)" "0 \<le> fd" "filedOf v ?p = setReadCallback HAcceptRead (mkFiled l fd)"
      "sys_bind S fd a (sys_setsockopt S fd SO_REUSEPORT 1 (sys_setsockopt S fd SO_REUSEADDR 1 k1)) = (r, kern v)" by auto
  have live: "live_of base w = base" "live_of (insert ?p base) v = insert ?p base" using none v(6) by (simp_all add: live_of_def)
  have "used (kern v) = used k1"
    using fd_lawD(7) [OF law(3) k(4)] stillD(6) [OF fd_lawD(1) [OF law(3)]] by simp
  then have used: "used (kern v) = insert fd (used (kern w))" using fd_lawD(4) [OF law(3) k(1)] k(2) by (simp add: opens_def)
  have "?p \<notin> base" using addrs(1) by auto
  then have "filedOf v q = filedOf w q" if "q \<in> base" for q using that by (intro v(10)) auto
  note old = this
  then have "fds_open used L (insert ?p base) v"
    using fds v(11) used k(3) none by (auto simp: fds_open_def setReadCallback_def mkFiled_def)
  moreover have "base_handlers (insert ?p base) v"
    using calm old acc k(3)
    by (auto simp: base_handlers_def handlers_of_def handler_conn_def setReadCallback_def mkFiled_def split: handler.split)
  moreover have "light_queues L v" using queues v(6,9) none by (simp add: light_queues_def calm_def)
  ultimately have "boot_inv itst used L (insert ?p base) v"
    unfolding boot_inv_def live using v(1,2,7) addrs(2) by (auto simp: mkManagerPool_def)
  then have "boot_inv itst used L (insert ?p base) (upd_server (\<lambda>s. s\<lparr>srv_connectionCallback := Some kOnConnection\<rparr>) v)"
    by (rule boot_inv_server) simp_all
  then have inv: "boot_inv itst used L (insert ?p base) (upd_server (\<lambda>s. s\<lparr>srv_messageCallback := Some kOnMessage\<rparr>)
      (upd_server (\<lambda>s. s\<lparr>srv_connectionCallback := Some kOnConnection\<rparr>) v))"
    (is "boot_inv _ _ _ _ ?v") by (rule boot_inv_server) simp_all
  have fields: "pool ?v = mkManagerPool l nm" "next_addr ?v = ?p + 1" "next_tid ?v = next_tid w" "create_num ?v = create_num v"
    using v by (simp_all add: upd_server_def)
  have eq: "setThreadNum 3 (Server_setMessageCallback (Some kOnMessage) (Server_setConnectionCallback (Some kOnConnection) v)) =
      ?v\<lparr>next_addr := next_addr ?v, next_tid := next_tid ?v, create_num := create_num ?v, pool := setThread_num 3 (mkManagerPool l nm)\<rparr>"
    using v(2) by (simp add: setThreadNum_def Server_setMessageCallback_def Server_setConnectionCallback_def upd_pool_def upd_server_def)
  have "boot_inv itst used L (insert ?p base) (?v\<lparr>next_addr := next_addr ?v, next_tid := next_tid ?v, create_num := create_num ?v,
      pool := setThread_num 3 (mkManagerPool l nm)\<rparr>)"
    by (rule boot_inv_counts [OF inv]) (use l in \<open>simp_all add: setThread_num_def mkManagerPool_def getAllLoops_def\<close>)
  moreover have "loop_ready t m (v\<lparr>the_server := s, pool := q\<rparr>)" if "loop_ready t m w" "m + 1 \<in> base" for t m s q
  proof -
    have "m + 1 \<noteq> ?p" using that(2) addrs(1) by auto
    with that v(9,10) show ?thesis by (simp add: loop_ready_def)
  qed
  ultimately show "outcome (\<lambda>e. e = ExitFailure \<and> socket_calls_fail S)
    (\<lambda>v. boot_inv itst used L (insert ?p base) v \<and> started_count (the_server v) = 0 \<and> loops (pool v) = [] \<and>
       threads_num (pool v) = 3 \<and> conns v = Map.empty \<and> next_addr v = ?p + 1 \<and> next_tid v = next_tid w \<and>
       loopInThread v = loopInThread w \<and> srv_loop (the_server v) = l \<and> threadInitCallback (the_server v) = None \<and>
       srv_connectionCallback (the_server v) = Some kOnConnection \<and> srv_messageCallback (the_server v) = Some kOnMessage \<and>
       (\<forall>t m. m + 1 \<in> base \<longrightarrow> loop_ready t m w \<longrightarrow> loop_ready t m v))
    (Inr (setThreadNum 3 (Server_setMessageCallback (Some kOnMessage) (Server_setConnectionCallback (Some kOnConnection) v))))"
    unfolding eq outcome_Inr using v(3-8,12)
    by (simp add: setThread_num_def mkManagerPool_def) (simp add: upd_server_def)
qed

definition echo_up ::
  "'k interest \<Rightarrow> ('k \<Rightarrow> int set) \<Rightarrow> int \<Rightarrow> nat \<Rightarrow> ('k, 'z) served_scheme \<Rightarrow> ('k, 'z) served_scheme \<Rightarrow> bool" where
  "echo_up itst used tid l w v \<longleftrightarrow>
     ready_inv itst used ({l} \<union> (\<lambda>i. next_addr w + 1 + 2 * i) ` {..<3})
       ({next_addr w, l + 1} \<union> (\<lambda>i. next_addr w + 1 + 2 * i + 1) ` {..<3}) v \<and> conns v = Map.empty \<and>
     loops (pool v) = map (\<lambda>i. next_addr w + 1 + 2 * i) [0..<3] \<and>
     (\<forall>i < 3. loop_ready (next_tid w + int i) (next_addr w + 1 + 2 * i) v) \<and> loop_ready tid l v \<and>
     is_listen (the_acceptor v)"

lemma echo_sets:
  "{l} \<union> (\<lambda>i. a + 1 + 2 * i) ` {..<3} = {l, a + 1, a + 3, a + 5}"
  "{a, l + 1} \<union> (\<lambda>i. a + 1 + 2 * i + 1) ` {..<3} = {l + 1, a, a + 2, a + 4, a + 6}" for a l :: nat
  by (auto simp: numeral_3_eq_3 lessThan_Suc)

text \<open>The calls of the set-up that can end it: each is tested by the code, and its failure is a fatal line.\<close>

definition setup_calls_fail :: "'k sys \<Rightarrow> bool" where
  "setup_calls_fail S \<longleftrightarrow> loop_calls_fail S \<or> socket_calls_fail S \<or> (\<exists>fd n k. fst (sys_listen S fd n k) \<noteq> 0)"

text \<open>A process whose only thread is that of \<open>main\<close>, and no event loop.\<close>

definition no_loops :: "int \<Rightarrow> ('k, 'z) served_scheme \<Rightarrow> bool" where
  "no_loops tid w \<longleftrightarrow> loopInThread w = Map.empty \<and> tid < next_tid w"

definition setup_fault :: "'k sys \<Rightarrow> int \<Rightarrow> ('k, 'z) served_scheme \<Rightarrow> fault \<Rightarrow> bool" where
  "setup_fault S tid w e \<longleftrightarrow> e = ExitFailure \<and> (setup_calls_fail S \<or> \<not> no_loops tid w)"

lemma main_setup_outcome:
  fixes w :: "('k, 'z) served_scheme"
  assumes law: "io_laws S itst" "socket_frame S itst" "fd_law S itst used"
    and none: "conns w = Map.empty" and l: "l + 1 < next_addr w"
  shows "outcome (setup_fault S tid w) (echo_up itst used tid l w) (main_setup S inet msg tid l w)"
  unfolding main_setup_def EchoServer_start_def
proof (rule outcome_bind)
  have "process_inv itst {} {} w" using none by (simp add: process_inv_def registry_inv_def)
  then show "outcome (setup_fault S tid w) (loop_made itst used {} {} tid l (l + 1) w) (mkEventLoop S tid l (l + 1) w)"
    by (rule outcome_mono [OF mkEventLoop_made [OF law(1,3)]])
      (auto simp: fds_open_def setup_fault_def setup_calls_fail_def no_loops_def)
  fix u assume "loop_made itst used {} {} tid l (l + 1) w u"
  then have u: "process_inv itst {l} {l + 1} u" "fds_open used {l} {l + 1} u" "conns u = conns w"
    "process.more u = process.more w" "loopOf u l = new_event_loop tid (l + 1) (filed_fd (filedOf u (l + 1)))"
    "\<exists>fd. filedOf u (l + 1) = (setReadCallback (HWakeupRead l) (mkFiled l fd))\<lparr>events := kReadEvent, index := kAdded\<rparr>"
    "loopInThread u = (loopInThread w)(tid \<mapsto> l)"
    by (simp_all add: loop_made_def)
  have more: "next_addr u = next_addr w" "next_tid u = next_tid w" using pooled_more [OF u(4)] by simp_all
  have ready: "loop_ready tid l u"
    using u(5,6) by (auto simp: loop_ready_def new_event_loop_def setReadCallback_def mkFiled_def)
  have calm: "handler_conn h = None" if "q \<in> {l + 1}" "h \<in> handlers_of (filedOf u q)" for q h
    using that u(6) by (auto simp: handlers_of_def setReadCallback_def mkFiled_def handler_conn_def)
  have queues: "light_queues {l} u" using u(5) by (simp add: light_queues_def new_event_loop_def)
  have "{l + 1} \<subseteq> {..<next_addr u}" "{l} \<subseteq> {..<next_addr u}" using l more by simp_all
  note mk = mkEchoServer_outcome [OF io_lawsD(2) [OF law(1)] law(2,3) process_invD(1) [OF u(1)] u(2) _ this, of l]
  show "outcome (setup_fault S tid w) (echo_up itst used tid l w)
    (bindE (mkEchoServer S l (mkAddress inet 8002 ''127.0.0.1'') ''EchoServer'' u) (Server_start S (echo_app msg) tid))"
  proof (rule outcome_bind [OF outcome_mono [OF mk]])
    fix v :: "('k, 'z) served_scheme"
    assume v: "boot_inv itst used {l} (insert (next_addr u) {l + 1}) v \<and> started_count (the_server v) = 0 \<and> loops (pool v) = [] \<and>
       threads_num (pool v) = 3 \<and> conns v = Map.empty \<and> next_addr v = next_addr u + 1 \<and> next_tid v = next_tid u \<and>
       loopInThread v = loopInThread u \<and> srv_loop (the_server v) = l \<and> threadInitCallback (the_server v) = None \<and>
       srv_connectionCallback (the_server v) = Some kOnConnection \<and> srv_messageCallback (the_server v) = Some kOnMessage \<and>
       (\<forall>t m. m + 1 \<in> {l + 1} \<longrightarrow> loop_ready t m u \<longrightarrow> loop_ready t m v)"
    have b: "boot_inv itst used {l} {next_addr w, l + 1} v" "threads_num (pool v) = int 3" "next_addr v = next_addr w + 1"
      "next_tid v = next_tid w" "loop_ready tid l v" using v more ready by simp_all
    let ?app = "echo_app msg :: ('k, 'z) server_app"
    have "threads_free v" if "no_loops tid w" using that v more(2) u(7) by (simp add: no_loops_def threads_free_def)
    then have "setup_fault S tid w e" if "start_fault S itst used ?app (threadInitCallback (the_server v)) (threads_free v) e" for e
      using that v by (auto simp: start_fault_def boot_fault_def init_faults_def setup_fault_def setup_calls_fail_def)
    moreover from Server_start_outcome [OF law(1,3) b(1) _ _ b(2), where app = ?app and tid = tid] v
    have "outcome (start_fault S itst used ?app (threadInitCallback (the_server v)) (threads_free v))
      (started_up itst used {l} {next_addr w, l + 1} 3 tid v) (Server_start S (echo_app msg) tid v)" by simp
    moreover have "echo_up itst used tid l w u'" if "started_up itst used {l} {next_addr w, l + 1} 3 tid v u'" for u'
      using that v b(3-5) by (auto simp: echo_up_def started_up_def isLoopThread_def loop_ready_def)
    ultimately show "outcome (setup_fault S tid w) (echo_up itst used tid l w) (Server_start S (echo_app msg) tid v)"
      by (auto elim!: outcome_mono)
  qed (use none u(3) calm queues in \<open>auto simp: setup_fault_def setup_calls_fail_def\<close>)
qed

text \<open>
  C12. The echo server comes up. Run in a process without connections whose only thread is that of \<open>main\<close>, \<open>main\<close> reaches its
  call of \<open>loop()\<close> with four event loops, the main one and those of three new threads, each owned by its thread and
  woken through its own registered event descriptor; the acceptor listens; and the whole invariant holds, from
  which on no run breaks it. The only other end is the fatal line of a kernel in which \<open>epoll_create1\<close>, \<open>eventfd\<close>,
  \<open>socket\<close>, \<open>bind\<close> or \<open>listen\<close> can fail.
\<close>

theorem echo_server_starts:
  fixes w :: "('k, 'z) served_scheme"
  assumes law: "io_laws S itst" "socket_frame S itst" "fd_law S itst used"
    and none: "conns w = Map.empty" and l: "l + 1 < next_addr w" and a: "a = next_addr w"
    and fresh: "loopInThread w = Map.empty" "tid < next_tid w"
  shows "outcome (\<lambda>e. e = ExitFailure \<and> (\<exists>k. fst (sys_epoll_create S k) < 0 \<or> fst (sys_eventfd S k) < 0 \<or> fst (sys_socket S k) < 0 \<or>
       (\<exists>fd b. fst (sys_bind S fd b k) \<noteq> 0) \<or> (\<exists>fd n. fst (sys_listen S fd n k) \<noteq> 0)))
    (\<lambda>v. served_inv itst {l, a + 1, a + 3, a + 5} {l + 1, a, a + 2, a + 4, a + 6} v \<and>
       loops (pool v) = [a + 1, a + 3, a + 5] \<and> loop_ready tid l v \<and> loop_ready (next_tid w) (a + 1) v \<and>
       loop_ready (next_tid w + 1) (a + 3) v \<and> loop_ready (next_tid w + 2) (a + 5) v \<and> is_listen (the_acceptor v))
    (main_setup S inet msg tid l w)"
proof (rule outcome_mono [OF main_setup_outcome [OF law none l]])
  fix e assume "setup_fault S tid w e"
  with fresh show "e = ExitFailure \<and> (\<exists>k. fst (sys_epoll_create S k) < 0 \<or> fst (sys_eventfd S k) < 0 \<or> fst (sys_socket S k) < 0 \<or>
       (\<exists>fd b. fst (sys_bind S fd b k) \<noteq> 0) \<or> (\<exists>fd n. fst (sys_listen S fd n k) \<noteq> 0))"
    unfolding setup_fault_def no_loops_def setup_calls_fail_def loop_calls_fail_def socket_calls_fail_def by blast
next
  fix v assume up: "echo_up itst used tid l w v"
  have "loop_ready (next_tid w + int i) (a + 1 + 2 * i) v" if "i < 3" for i
    using up that a by (simp add: echo_up_def)
  from this [of 0] this [of 1] this [of 2] up show "served_inv itst {l, a + 1, a + 3, a + 5} {l + 1, a, a + 2, a + 4, a + 6} v \<and>
       loops (pool v) = [a + 1, a + 3, a + 5] \<and> loop_ready tid l v \<and> loop_ready (next_tid w) (a + 1) v \<and>
       loop_ready (next_tid w + 1) (a + 3) v \<and> loop_ready (next_tid w + 2) (a + 5) v \<and> is_listen (the_acceptor v)"
    unfolding echo_up_def ready_inv_def a [symmetric] echo_sets by (simp add: upt_rec eval_nat_numeral)
qed

lemma echo_main_ok:
  fixes w v :: "('k, 'z) served_scheme"
  assumes law: "system_laws S itst used" "socket_frame S itst" and none: "conns w = Map.empty" and l: "l + 1 < next_addr w"
    and a: "a = next_addr w" and start: "main_setup S inet msg tid l w = Inr v" and owner: "owner = (\<lambda>m. threadId (loopOf v m))"
  shows "system_ok itst used {l, a + 1, a + 3, a + 5} {l + 1, a, a + 2, a + 4, a + 6} owner (v, \<lambda>_. Starting)"
proof -
  have up: "echo_up itst used tid l w v"
    using main_setup_outcome [OF system_lawsD(1) [OF law(1)] law(2) system_lawsD(3) [OF law(1)] none l, of tid inet msg] start by simp
  have "ready_inv itst used {l, a + 1, a + 3, a + 5} {l + 1, a, a + 2, a + 4, a + 6} v" "conns v = Map.empty"
    using up unfolding echo_up_def a [symmetric] echo_sets by simp_all
  then show ?thesis by (rule system_ok_start) (simp add: owner)
qed

lemma echo_crosses:
  "crosses outside (echo_app msg :: ('k, 'z) app) c (ApiShutdown c) \<longleftrightarrow> (\<exists>tid. outside tid (ApiShutdown c))"
  "crosses outside (echo_app msg :: ('k, 'z) app) c (ApiSend c a) \<longleftrightarrow> (\<exists>tid. outside tid (ApiSend c a))"
proof -
  have "ApiShutdown c \<notin> set (echo_app msg h ev w)" "ApiSend c a \<in> set (echo_app msg h ev w) \<Longrightarrow> event_conn ev = Some c"
    for h ev and w :: "('k, 'z) process_scheme"
    by (cases ev; simp add: echo_app_def onConnection_def onMessage_def split: if_splits)+
  then show "crosses outside (echo_app msg :: ('k, 'z) app) c (ApiShutdown c) \<longleftrightarrow> (\<exists>tid. outside tid (ApiShutdown c))"
    "crosses outside (echo_app msg :: ('k, 'z) app) c (ApiSend c a) \<longleftrightarrow> (\<exists>tid. outside tid (ApiSend c a))"
    unfolding crosses_def by blast+
qed

text \<open>
  C5. The echo server logs no fatal line and fails no assertion for its whole life, but where one of five calls fails. Run in a
  process without connections whose only thread is that of \<open>main\<close>, the set-up of \<open>main\<close> ends with a fatal line only in a kernel
  that can fail \<open>epoll_create1\<close>, \<open>eventfd\<close>, \<open>socket\<close>, \<open>bind\<close> or \<open>listen\<close>, or it returns; and then no interleaving of its four
  loops, of other threads that use the library but do not shut connections down, of the kernel's moves and of the destruction
  of connections breaks the invariant, and no next operation ends with a fatal line or a failed assertion. The other faults
  an operation can end in are the business of \<open>echo_memory_safe\<close>.
\<close>

theorem echo_main_safe:
  fixes w :: "('k, 'z) served_scheme"
  assumes law: "system_laws S itst used" "socket_frame S itst" and none: "conns w = Map.empty" and l: "l + 1 < next_addr w"
    and a: "a = next_addr w" and fresh: "loopInThread w = Map.empty" "tid < next_tid w"
    and L: "L = {l, a + 1, a + 3, a + 5}" and others: "\<And>t c. \<not> outside t (ApiShutdown c)"
  shows "outcome (\<lambda>e. e = ExitFailure \<and> (\<exists>k. fst (sys_epoll_create S k) < 0 \<or> fst (sys_eventfd S k) < 0 \<or> fst (sys_socket S k) < 0 \<or>
       (\<exists>fd b. fst (sys_bind S fd b k) \<noteq> 0) \<or> (\<exists>fd n. fst (sys_listen S fd n k) \<noteq> 0)))
    (\<lambda>v. \<forall>s. racing_runs S itst used (echo_app msg) outside L (\<lambda>m. threadId (loopOf v m)) (v, \<lambda>_. Starting) s \<longrightarrow>
       system_ok itst used L {l + 1, a, a + 2, a + 4, a + 6} (\<lambda>m. threadId (loopOf v m)) s \<and>
       no_abort S (echo_app msg) L (\<lambda>m. threadId (loopOf v m)) s)
    (main_setup S inet msg tid l w)"
proof (cases "main_setup S inet msg tid l w")
  case (Inl e)
  with main_setup_outcome [OF system_lawsD(1) [OF law(1)] law(2) system_lawsD(3) [OF law(1)] none l, of tid inet msg]
  have "setup_fault S tid w e" by simp
  with fresh Inl show ?thesis
    unfolding setup_fault_def no_loops_def setup_calls_fail_def loop_calls_fail_def socket_calls_fail_def by simp blast
next
  case (Inr v)
  have "system_ok itst used L {l + 1, a, a + 2, a + 4, a + 6} (\<lambda>m. threadId (loopOf v m)) s \<and>
       no_abort S (echo_app msg) L (\<lambda>m. threadId (loopOf v m)) s"
    if run: "racing_runs S itst used (echo_app msg) outside L (\<lambda>m. threadId (loopOf v m)) (v, \<lambda>_. Starting) s" for s
  proof -
    have "system_runs S itst used (echo_app msg) outside L (\<lambda>m. threadId (loopOf v m)) (v, \<lambda>_. Starting) s"
      by (rule racing_in_order [OF run]) (simp add: echo_crosses others)
    from system_runs_keep [OF this law(1)] echo_main_ok [OF law none l a Inr refl] system_ok_no_abort [OF law(1)] L
    show ?thesis by blast
  qed
  with Inr show ?thesis by simp
qed

definition demo_empty :: "ksim served" where
  "demo_empty = (demo_served kConnected)\<lparr>conns := Map.empty, loopInThread := Map.empty\<rparr>"

lemma demo_empty_starts: "isl (main_setup sim_sys (\<lambda>_. 0x0100007F) 9 1 3 demo_empty) = False"
proof -
  obtain s where s: "toIpPort (mkAddress (\<lambda>_. 0x0100007F) 8002 ''127.0.0.1'') = Inr s" using toIpPort_eq by blast
  show ?thesis
  by (simp add: main_setup_def mkEchoServer_def EchoServer_start_def Server_start_def mkServer_def CheckLoopNotNull_def s
      mkAcceptor_def createNonblockFd_def Socket_bindAddress_def Acceptor_listen_def Socket_listen_def runinLoop_def isLoopThread_def
      setReuseAddr_def setReusePort_def upd_server_def upd_acceptor_def setNewConnectionCallback_def Socket_setopt_def setThreadNum_def
      Server_setMessageCallback_def Server_setConnectionCallback_def demo_empty_def demo_served_def
      ManagerPool_start_def upd_pool_def setThread_num_def mkManagerPool_def
      start_one_def startLoop_def mkThread_def setName_def mkEventLoop_def mkEpoller_def createEventfd_def
      sim_sys_def sim_fresh_def ksim0_def Let_def upd_filed_def upd_loop_def upd_epoller_def mkFiled_def
      Thread_start_def ThreadID_tid_def cacheTid_def setReadCallback_def enableReading_def Filed_update_def EventLoop_update_def Epoller_update_def
      kNew_def updateHelper_def setIndex_def sim_epoll_ctl_def upt_rec)
qed

lemma demo_empty_facts:
  "conns demo_empty = Map.empty" "3 + 1 < next_addr demo_empty" "10 = next_addr demo_empty" "loopInThread demo_empty = Map.empty"
  "1 < next_tid demo_empty"
  by (simp_all add: demo_empty_def demo_served_def)

theorem echo_server_starts_witness:
  "\<exists>v. main_setup sim_sys (\<lambda>_. 0x0100007F) 9 1 3 demo_empty = Inr v \<and> loops (pool v) = [11, 13, 15] \<and> is_listen (the_acceptor v)"
proof -
  obtain v where v: "main_setup sim_sys (\<lambda>_. 0x0100007F) 9 1 3 demo_empty = Inr v"
    using demo_empty_starts by (cases "main_setup sim_sys (\<lambda>_. 0x0100007F) 9 1 3 demo_empty") auto
  from echo_server_starts [OF sim_io_laws sim_socket_frame sim_fd_law demo_empty_facts, of "\<lambda>_. 0x0100007F" 9] v
  show ?thesis by simp
qed

theorem echo_main_safe_witness:
  "\<exists>v (u :: ksim served). main_setup sim_sys (\<lambda>_. 0x0100007F) 9 1 3 demo_empty = Inr v \<and> quit (loopOf u 3) = False \<and>
     no_abort sim_sys (echo_app 9) {3, 11, 13, 15} (\<lambda>m. threadId (loopOf v m)) (u, (\<lambda>_. Starting)(3 := Polling))"
proof -
  obtain v where v: "main_setup sim_sys (\<lambda>_. 0x0100007F) 9 1 3 demo_empty = Inr v"
    using demo_empty_starts by (cases "main_setup sim_sys (\<lambda>_. 0x0100007F) 9 1 3 demo_empty") auto
  let ?u = "upd_loop 3 (\<lambda>e. e\<lparr>looping := True, quit := False\<rparr>) v" and ?out = "\<lambda>(t :: int) x. x = ApiQuit 3"
  have L: "{3, 11, 13, 15} = {3, 10 + 1, 10 + 3, 10 + 5 :: nat}" by simp
  have "system_step sim_sys sim_interest sim_used (echo_app 9) ?out {3, 11, 13, 15} (\<lambda>m. threadId (loopOf v m)) (v, \<lambda>_. Starting)
      (?u, (\<lambda>_. Starting)(3 := Polling))"
    by (rule system_step.enter) simp_all
  then have run: "racing_runs sim_sys sim_interest sim_used (echo_app 9) ?out {3, 11, 13, 15} (\<lambda>m. threadId (loopOf v m)) (v, \<lambda>_. Starting)
      (?u, (\<lambda>_. Starting)(3 := Polling))" by (blast intro: racing_step.in_order)
  have "\<not> ?out t (ApiShutdown c)" for t c by simp
  from echo_main_safe [where outside = ?out, OF sim_system_laws sim_socket_frame demo_empty_facts L this, of 9 "\<lambda>_. 0x0100007F"] v run
  have "no_abort sim_sys (echo_app 9) {3, 11, 13, 15} (\<lambda>m. threadId (loopOf v m)) (?u, (\<lambda>_. Starting)(3 := Polling))"
    by simp
  moreover have "quit (loopOf ?u 3) = False" by (simp add: upd_loop_def)
  ultimately show ?thesis using v by blast
qed

section \<open>Echoing\<close>

text \<open>What \<open>onMessage\<close> does: the whole input goes out, and the local string is gone.\<close>

lemma onMessage_echoes:
  assumes law: "stream_laws S itst sent" and q: "quiet itst L live c x w" and st: "conn_state x = kConnected"
    and tid: "isLoopThread tid (conn_loop x) w" and room: "has_room (length (content (inputBuffer x))) (outputBuffer x)"
    and wr: "sys_write S (conn_fd x) (content (inputBuffer x)) (kern w) = (n, k')"
    and whole: "content (outputBuffer x) \<noteq> [] \<or> n = int (length (content (inputBuffer x))) \<or> n = 0"
  shows "\<exists>w' y. runE (do_api S tid) (onMessage msg c) w = Inr w' \<and> conns w' c = Some y \<and>
    delivered sent y w' = delivered sent x w @ content (inputBuffer x) \<and> content (inputBuffer y) = [] \<and> strings w' msg = None"
proof -
  let ?d = "content (inputBuffer x)"
  let ?x = "x\<lparr>inputBuffer := retrieveAll (inputBuffer x)\<rparr>"
  let ?w = "upd_conn c (\<lambda>x'. x'\<lparr>inputBuffer := retrieveAll (inputBuffer x)\<rparr>) (w\<lparr>strings := (strings w)(msg \<mapsto> ?d)\<rparr>)"
  have b: "buffer_inv (inputBuffer x)" using process_invD(3) [OF quietD(1,2) [OF q]] by (simp add: conn_ok_def)
  have take: "do_api S tid (ApiTakeAll c msg) w = Inr ?w"
    by (simp add: with_conn_def quietD(2) [OF q] retrieveAllAsString_content [OF b])
  have "good itst L live w w" using quietD(1) [OF q] by (simp add: good_def forward_refl)
  from do_api_keeps [OF stream_lawsD(1) [OF law] this, of tid "ApiTakeAll c msg"] take
  have inv: "process_inv itst L live ?w" by (auto dest: goodD(1))
  have c: "conns ?w c = Some ?x" using quietD(2) [OF q] by (simp add: upd_conn_def)
  have same: "kern ?w = kern w" "loopOf ?w = loopOf w" "strings ?w msg = Some ?d" by (simp_all add: upd_conn_def)
  have q': "quiet itst L live c ?x ?w" using inv c quietD(3) [OF q] same by (simp add: quiet_def)
  from sendinLoop_extends [OF law q', where a = msg and d = ?d and n = n and k' = k' and tid = tid] st room wr whole same
  obtain w' y where w': "sendinLoop S tid c msg (of_nat (length ?d)) ?w = Inr w'" "conns w' c = Some y"
    "delivered sent y w' = delivered sent ?x ?w @ ?d" "inputBuffer y = retrieveAll (inputBuffer x)" by auto
  have "send S tid c msg ?w = Inr w'"
    using w'(1) c st same tid by (simp add: send_def with_conn_def isLoopThread_def)
  moreover have "delivered sent ?x ?w = delivered sent x w" using same by (simp add: delivered_def)
  moreover have "delivered sent y (w'\<lparr>strings := m\<rparr>) = delivered sent y w'" for m by (simp add: delivered_def)
  moreover have "content (retrieveAll (inputBuffer x)) = []" using retrieveAll_inv [OF b] by simp
  ultimately show ?thesis
    using w' take by (simp add: onMessage_def)
qed

text \<open>
  C11. The server echoes. When a connected connection of the echo server reads in its own loop, whatever the read
  delivers is appended to what goes out, in order and once, nothing of the input stays behind, and the string in
  which the bytes travelled is gone; provided the direct write returns the whole length or zero, or output is already waiting. What happens when it returns
  \<open>-1\<close> or a part of the length is \<open>failed_write_out_of_bounds\<close> and \<open>short_write_corrupts\<close>.
\<close>

theorem echo_sends_back:
  assumes law: "stream_laws S itst sent" "readv_law S" and q: "quiet itst L live c x w" and st: "conn_state x = kConnected"
    and cb: "messageCallback x = Some kOnMessage" and tid: "isLoopThread tid (conn_loop x) w"
    and rd: "sys_readv S (conn_fd x) (readFd_iov (inputBuffer x)) (kern w) = (n, d, k1)" "0 < n" and room: "readFd_room (inputBuffer x)"
    and out: "has_room (length (content (inputBuffer x) @ d)) (outputBuffer x)"
    and wr: "sys_write S (conn_fd x) (content (inputBuffer x) @ d) k1 = (m, k2)"
    and whole: "content (outputBuffer x) \<noteq> [] \<or> m = int (length (content (inputBuffer x) @ d)) \<or> m = 0"
  shows "\<exists>w' y. handleRead S (echo_app msg) closecb tid c now w = Inr w' \<and> conns w' c = Some y \<and>
    delivered sent y w' = delivered sent x w @ content (inputBuffer x) @ d \<and> content (inputBuffer y) = [] \<and>
    strings w' msg = None"
proof -
  obtain b where b: "handleRead S (echo_app msg) closecb tid c now w =
      call_app S (echo_app msg) tid (messageCallback x) (EvMessage c now) (upd_conn c (\<lambda>x. x\<lparr>inputBuffer := b\<rparr>) (w\<lparr>kern := k1\<rparr>))"
    "buffer_inv b" "content b = content (inputBuffer x) @ d"
    using handleRead_exact [OF law(2) q room rd(1), where app = "echo_app msg" and closecb = closecb and tid = tid and now = now] rd(2) by (auto simp: Let_def)
  let ?w = "upd_conn c (\<lambda>x. x\<lparr>inputBuffer := b\<rparr>) (w\<lparr>kern := k1\<rparr>)" and ?x = "x\<lparr>inputBuffer := b\<rparr>"
  have itst: "itst k1 = itst (kern w)" using interest_frameD(2) [OF io_lawsD(2) [OF stream_lawsD(1) [OF law(1)]] rd(1)] .
  have ok: "conn_ok w x" by (rule process_invD(3) [OF quietD(1,2) [OF q]])
  have "good itst L live w w" using quietD(1) [OF q] by (simp add: good_def forward_refl)
  then have "good itst L live w (w\<lparr>kern := k1\<rparr>)" by (rule good_frame) (simp_all add: same_objects_def itst)
  then have "good itst L live w ?w"
    by (rule good_conn) (use quietD(2) [OF q] ok b(2) in \<open>auto simp: conn_forward_def conn_ok_def\<close>)
  then have q': "quiet itst L live c ?x ?w"
    using quietD(2,3) [OF q] by (auto simp: quiet_def upd_conn_def dest: goodD(1))
  have tid': "isLoopThread tid (conn_loop ?x) ?w" using tid by (simp add: isLoopThread_def)
  have "delivered sent ?x ?w = delivered sent x w"
    using stream_lawD(4) [OF stream_lawsD(2) [OF law(1)] rd(1)] by (simp add: delivered_def)
  moreover have "call_app S (echo_app msg) tid (messageCallback x) (EvMessage c now) ?w = runE (do_api S tid) (onMessage msg c) ?w"
    by (simp add: call_app_def cb echo_app_def)
  moreover have "\<exists>w' y. runE (do_api S tid) (onMessage msg c) ?w = Inr w' \<and> conns w' c = Some y \<and>
      delivered sent y w' = delivered sent ?x ?w @ content (inputBuffer ?x) \<and> content (inputBuffer y) = [] \<and> strings w' msg = None"
    by (rule onMessage_echoes [OF law(1) q' _ tid', where n = m and k' = k2]) (use st out wr whole b(3) in simp_all)
  ultimately show ?thesis using b(1,3) by simp
qed

definition demo_echo :: "ksim process" where
  "demo_echo = (demo_process 16 0)\<lparr>kern := (kern (demo_process 16 0))\<lparr>sim_input := [7, 8]\<rparr>,
     conns := (\<lambda>_. None)(5 \<mapsto> demo_conn\<lparr>messageCallback := Some kOnMessage\<rparr>)\<rparr>"

theorem echo_sends_back_witness:
  "\<exists>w' y. handleRead sim_sys (echo_app 9) (\<lambda>_ _ _ w. Inr w) 1 5 0 demo_echo = Inr w' \<and> conns w' 5 = Some y \<and>
     delivered sim_sent y w' = [7, 8]"
proof -
  let ?x = "demo_conn\<lparr>messageCallback := Some kOnMessage\<rparr>"
  have "process_inv sim_interest {0} {1} demo_echo"
    by (simp add: process_inv_def conn_ok_def demo_echo_def demo_process_def demo_conn_def mkFiled_def demo_buffer isWriting_def
        registry_inv_def filed_ok_def kNew_def ksim0_def)
  then have q: "quiet sim_interest {0} {1} 5 ?x demo_echo"
    by (simp add: quiet_def) (simp add: demo_echo_def demo_process_def demo_conn_def)
  have x: "conn_state ?x = kConnected" "messageCallback ?x = Some kOnMessage" "isLoopThread 1 (conn_loop ?x) demo_echo"
    by (simp_all add: demo_conn_def isLoopThread_def demo_echo_def demo_process_def)
  have room: "readFd_room (inputBuffer ?x)"
    by (simp add: demo_conn_def readFd_room_def kExtraSize_def mkBuffer_def kInitialSize_def kCheapPrepend_def)
  have space: "unat (writableBytes (inputBuffer ?x)) = 1024"
    by (simp add: demo_conn_def writableBytes_def mkBuffer_def kInitialSize_def kCheapPrepend_def)
  obtain k1 where rd: "sys_readv sim_sys (conn_fd ?x) (readFd_iov (inputBuffer ?x)) (kern demo_echo) = (2, [7, 8], k1)"
    and k1: "k1 = (kern demo_echo)\<lparr>sim_input := []\<rparr>"
    by (simp add: sim_sys_def sim_readv_def readFd_iov_def space kExtraSize_def demo_echo_def)
  have d: "content (inputBuffer ?x) @ [7, 8] = [7, 8]" by (simp add: demo_conn_def demo_buffer)
  have out: "has_room (length (content (inputBuffer ?x) @ [7, 8])) (outputBuffer ?x)"
    unfolding d by (simp add: has_room_def demo_conn_def mkBuffer_def)
  obtain k2 where wr: "sys_write sim_sys (conn_fd ?x) (content (inputBuffer ?x) @ [7, 8]) k1 = (2, k2)"
    unfolding d k1 by (simp add: sim_sys_def sim_write_def demo_echo_def demo_process_def demo_conn_def wake_bytes_def ksim0_def Let_def)
  from echo_sends_back [OF sim_stream_laws sim_readv_law q x rd _ room out wr, where closecb = "\<lambda>_ _ _ w. Inr w" and now = 0 and msg = 9] d
  show ?thesis by (auto simp: delivered_def demo_echo_def demo_process_def demo_conn_def demo_buffer ksim0_def)
qed

end
