(* ===== verification/EchoSafe.thy ===== *)
theory EchoSafe
  imports EchoServer
begin

text \<open>
  The echo server uses no object after its end. Its application calls the library only in the loop of the connection it
  is called for, so that nothing bound to a bare pointer is ever queued; every function that is queued holds its
  connection, and every connection has its callbacks. What is left of the faults, in any run, are the reads and writes
  beyond a block, growth beyond the limit of a vector, and the overflow of the number of the next connection.
\<close>

section \<open>The faults and the invariant\<close>

definition tame :: "fault \<Rightarrow> bool" where
  "tame e \<longleftrightarrow> e \<noteq> UseAfterFree \<and> e \<noteq> BadFunctionCall"

lemma tame_simps [simp]:
  "tame OutOfBounds" "tame LengthError" "tame SignedOverflow" "tame ExitFailure" "tame AssertionFailure"
  by (simp_all add: tame_def)

definition echo_conn :: "connection \<Rightarrow> bool" where
  "echo_conn x \<longleftrightarrow> connectionCallback x = Some kOnConnection \<and> messageCallback x = Some kOnMessage \<and>
     writeCompleteCallback x = None \<and> highWaterMarkCallback x = None \<and> conn_closeCallback x \<noteq> None"

text \<open>The functions that are queued, when the connections in \<open>X\<close> exist.\<close>

definition echo_task :: "nat set \<Rightarrow> task \<Rightarrow> bool" where
  "echo_task X t \<longleftrightarrow> (case t of TConnectEstablished c \<Rightarrow> c \<in> X | TConnectDestroyed c \<Rightarrow> c \<in> X | TRemoveConnection c \<Rightarrow> c \<in> X
     | TListen \<Rightarrow> True | _ \<Rightarrow> False)"

lemma echo_task_mono: "echo_task X t \<Longrightarrow> X \<subseteq> Y \<Longrightarrow> echo_task Y t"
  by (auto simp: echo_task_def split: task.splits)

definition echo_callbacks :: "server \<Rightarrow> bool" where
  "echo_callbacks s \<longleftrightarrow> srv_connectionCallback s = Some kOnConnection \<and> srv_messageCallback s = Some kOnMessage \<and>
     srv_writeCompleteCallback s = None"

definition echo_like :: "nat set \<Rightarrow> ('k, 'z) served_scheme \<Rightarrow> bool" where
  "echo_like L w \<longleftrightarrow> (\<forall>c x. conns w c = Some x \<longrightarrow> echo_conn x) \<and> echo_callbacks (the_server w) \<and>
     (\<forall>l \<in> L. \<forall>t \<in> set (pendFuncs (loopOf w l)). echo_task (dom (conns w)) t)"

text \<open>The state after a step: no connection is gone.\<close>

definition follows :: "nat set \<Rightarrow> ('k, 'z) served_scheme \<Rightarrow> ('k, 'z) served_scheme \<Rightarrow> bool" where
  "follows L w v \<longleftrightarrow> echo_like L v \<and> dom (conns w) \<subseteq> dom (conns v)"

lemma follows_refl [simp]: "follows L w w \<longleftrightarrow> echo_like L w"
  by (simp add: follows_def)

lemma followsD: "follows L w v \<Longrightarrow> echo_like L v" "follows L w v \<Longrightarrow> conns w c = Some x \<Longrightarrow> \<exists>y. conns v c = Some y"
  by (auto simp: follows_def)

lemma follows_trans: "follows L u v \<Longrightarrow> follows L v w \<Longrightarrow> follows L u w"
  by (auto simp: follows_def)

lemma echo_likeD:
  assumes "echo_like L w"
  shows "conns w c = Some x \<Longrightarrow> echo_conn x" and "echo_callbacks (the_server w)"
    and "l \<in> L \<Longrightarrow> t \<in> set (pendFuncs (loopOf w l)) \<Longrightarrow> echo_task (dom (conns w)) t"
  using assms unfolding echo_like_def by blast+

lemma echo_like_same:
  "conns v = conns w \<Longrightarrow> echo_callbacks (the_server v) = echo_callbacks (the_server w) \<Longrightarrow>
     (\<And>l. pendFuncs (loopOf v l) = pendFuncs (loopOf w l)) \<Longrightarrow> echo_like L v = echo_like L w"
  by (simp add: echo_like_def)

abbreviation goes :: "nat set \<Rightarrow> ('k, 'z) served_scheme \<Rightarrow> fault + ('k, 'z) served_scheme \<Rightarrow> bool" where
  "goes L w \<equiv> outcome tame (follows L w)"

lemma goes_from: "follows L w v \<Longrightarrow> goes L v r \<Longrightarrow> goes L w r"
  by (erule outcome_weaken) (rule follows_trans)

section \<open>Operations that touch no connection\<close>

definition aside :: "('k, 'z) process_scheme \<Rightarrow> ('k, 'z) process_scheme \<Rightarrow> bool" where
  "aside w v \<longleftrightarrow> conns v = conns w \<and> loopOf v = loopOf w \<and> process.more v = process.more w"

lemma aside_simps [simp]:
  "aside w w" "aside w (upd_filed fp g v) \<longleftrightarrow> aside w v" "aside w (upd_epoller l h v) \<longleftrightarrow> aside w v"
  "aside w (log_line lv m v) \<longleftrightarrow> aside w v" "aside w (v\<lparr>kern := k\<rparr>) \<longleftrightarrow> aside w v" "aside w (v\<lparr>strings := s\<rparr>) \<longleftrightarrow> aside w v"
  by (simp_all add: aside_def upd_filed_def upd_epoller_def log_line_def)

lemma aside_follows: "aside w v \<Longrightarrow> echo_like L w \<Longrightarrow> follows L w v" for w v :: "('k, 'z) served_scheme"
  using served_more [of v w] by (simp add: aside_def follows_def echo_like_same [of v w])

lemma updateHelper_aside: "aside w v \<Longrightarrow> outcome tame (aside w) (updateHelper S l op fp v)"
  by (auto simp: updateHelper_def Let_def split: prod.split)

lemma set_mask_aside: "aside w v \<Longrightarrow> outcome tame (aside w) (set_mask S fp m v)"
proof -
  assume v: "aside w v"
  have deleted: "outcome tame (aside w) (bindE (updateHelper S l EPOLL_CTL_DEL fp u) (\<lambda>w. Inr (upd_filed fp (setIndex kDeleted) w)))"
    if "aside w u" for u l
    by (rule outcome_bind [OF updateHelper_aside [OF that]]) simp
  show ?thesis
    unfolding set_mask_def Filed_update_def EventLoop_update_def Epoller_update_def Let_def
    using v by (auto intro!: updateHelper_aside deleted)
qed

lemma Filed_remove_aside: "aside w v \<Longrightarrow> outcome tame (aside w) (Filed_remove S fp v)"
  unfolding Filed_remove_def EventLoop_remove_def Epoller_remove_def Let_def
  by (rule outcome_bind [where P = "aside w"]) (auto intro!: updateHelper_aside)

section \<open>Blocks of memory\<close>

lemma read_block_tame: "outcome tame (\<lambda>_. True) (read_block off n xs)"
  by (simp add: read_block_def)

lemma buffer_append_tame: "outcome tame (\<lambda>_. True) (buffer_append d b)"
proof -
  have "outcome tame (\<lambda>_. True) (ensureWritableBytes n b)" for n
    by (simp add: ensureWritableBytes_def makeSpace_def vector_resize_def Let_def)
  then show ?thesis
    unfolding buffer_append_def by (rule outcome_bind) (simp add: write_block_def)
qed

lemma retrieveAllAsString_tame: "outcome tame (\<lambda>_. True) (retrieveAllAsString b)"
  unfolding retrieveAllAsString_def retrieveAsString_def by (rule outcome_bind [OF read_block_tame]) simp

lemma readFd_tame: "outcome tame (\<lambda>_. True) (readFd S fd e b k)"
proof -
  have "outcome tame (\<lambda>_. True) (bindE (read_block off n xs) (\<lambda>extra. bindE (buffer_append extra b) (\<lambda>b'. Inr (g b'))))"
    for off n xs b and g :: "buffer \<Rightarrow> int \<times> int \<times> buffer \<times> 'a"
    by (rule outcome_bind [OF read_block_tame], rule outcome_bind [OF buffer_append_tame]) simp
  then show ?thesis by (simp add: readFd_def Let_def split: prod.split)
qed

lemma writeFd_tame: "outcome tame (\<lambda>_. True) (writeFd S fd e b k)"
  unfolding writeFd_def by (rule outcome_bind [OF read_block_tame]) (simp split: prod.split)

section \<open>Connections\<close>

lemma upd_conn_follows:
  fixes w :: "('k, 'z) served_scheme"
  assumes "echo_like L w" and "\<And>x. echo_conn x \<Longrightarrow> echo_conn (g x)"
  shows "follows L w (upd_conn c g w)"
proof -
  have "dom (conns (upd_conn c g w)) = dom (conns w)" by (rule dom_upd_conn)
  moreover have "the_server (upd_conn c g w) = the_server w" "loopOf (upd_conn c g w) = loopOf w" by (simp_all add: upd_conn_def)
  moreover have "echo_conn y" if "conns (upd_conn c g w) d = Some y" for d y
    using that echo_likeD(1) [OF assms(1)] assms(2) by (auto simp: upd_conn_def split: if_splits)
  ultimately show ?thesis using assms(1) by (auto simp: follows_def echo_like_def)
qed

lemma queueinLoop_follows:
  fixes w :: "('k, 'z) served_scheme"
  assumes "echo_like L w" and "echo_task (dom (conns w)) t"
  shows "follows L w (queueinLoop S tid l t w)"
  using assms by (auto simp: follows_def echo_like_def)

lemma setState_follows: "echo_like L w \<Longrightarrow> follows L w (setState st c w)" for w :: "('k, 'z) served_scheme"
  unfolding setState_def by (rule upd_conn_follows) (simp_all add: echo_conn_def)

lemma goes_aside:
  fixes w :: "('k, 'z) served_scheme"
  assumes "follows L w v" and "outcome tame (aside v) r"
  shows "goes L w r"
  using assms(2) by (rule outcome_weaken) (use aside_follows followsD(1) [OF assms(1)] follows_trans [OF assms(1)] in blast)

lemma sendinLoop_goes:
  fixes w :: "('k, 'z) served_scheme"
  assumes w: "echo_like L w" and c: "conns w c = Some x" and a: "strings w a = Some d"
  shows "goes L w (sendinLoop S tid c a len w)"
proof (cases "conn_state x = kDisconnected")
  case True
  with c w show ?thesis by (simp add: sendinLoop_def with_conn_def aside_follows)
next
  case False
  have x: "writeCompleteCallback x = None" "highWaterMarkCallback x = None" using echo_likeD(1) [OF w c] by (simp_all add: echo_conn_def)
  have str: "outcome tame (\<lambda>_. True) (read_string a o' n v)" if "strings v = strings w" for o' n and v :: "('k, 'z) served_scheme"
    using that a by (simp add: read_string_def read_block_def)
  have wr: "outcome tame (\<lambda>(n, r, e, v). \<exists>k. v = w\<lparr>kern := k\<rparr>) (sendinLoop_write S tid c a len x w)"
    unfolding sendinLoop_write_def by (rule outcome_bind [OF str]) (auto simp: x Let_def split: prod.split)
  have q: "goes L w (sendinLoop_queue S tid c a n r x (w\<lparr>kern := k\<rparr>))" for n r k
  proof -
    have "goes L w (let u = upd_conn c (\<lambda>x. x\<lparr>outputBuffer := b\<rparr>) (w\<lparr>kern := k\<rparr>)
       in if \<not> isWriting (filedOf u (conn_filed x)) then set_mask S (conn_filed x) mask_enableWriting u else Inr u)" for b
    proof -
      let ?u = "upd_conn c (\<lambda>x. x\<lparr>outputBuffer := b\<rparr>) (w\<lparr>kern := k\<rparr>)"
      have "follows L w (w\<lparr>kern := k\<rparr>)" by (rule aside_follows) (simp_all add: w)
      moreover from this have "follows L (w\<lparr>kern := k\<rparr>) ?u" by (intro upd_conn_follows followsD(1)) (simp_all add: echo_conn_def)
      ultimately have "follows L w ?u" by (rule follows_trans)
      with goes_aside [OF this set_mask_aside] show ?thesis by (simp add: Let_def)
    qed
    then show ?thesis
      unfolding sendinLoop_queue_def check_high_water_def set_mask_eqs
      by (auto simp: x Let_def intro!: outcome_bind [OF str] outcome_bind [OF buffer_append_tame])
  qed
  have "goes L w (bindE (if \<not> isWriting (filedOf w (conn_filed x)) \<and> readableBytes (outputBuffer x) = 0
       then sendinLoop_write S tid c a len x w else Inr (0, len, False, w))
       (\<lambda>(nwrote, remaining, faultError, w).
         if \<not> faultError \<and> remaining > 0 then sendinLoop_queue S tid c a nwrote remaining x w else Inr w))"
  proof (rule outcome_bind [where P = "\<lambda>(n, r, e, v). \<exists>k. v = w\<lparr>kern := k\<rparr>"])
    have "\<exists>k. w = w\<lparr>kern := k\<rparr>" by (intro exI [of _ "kern w"]) simp
    with wr show "outcome tame (\<lambda>(n, r, e, v). \<exists>k. v = w\<lparr>kern := k\<rparr>)
      (if \<not> isWriting (filedOf w (conn_filed x)) \<and> readableBytes (outputBuffer x) = 0
       then sendinLoop_write S tid c a len x w else Inr (0, len, False, w))" by simp
    fix y :: "int \<times> size_t \<times> bool \<times> ('k, 'z) served_scheme"
    assume "case y of (n, r, e, v) \<Rightarrow> \<exists>k. v = w\<lparr>kern := k\<rparr>"
    with q show "goes L w (case y of (nwrote, remaining, faultError, w) \<Rightarrow>
        if \<not> faultError \<and> remaining > 0 then sendinLoop_queue S tid c a nwrote remaining x w else Inr w)"
      by (auto simp: aside_follows w)
  qed
  with False c show ?thesis by (simp add: sendinLoop_def with_conn_def)
qed

text \<open>The application, called in the loop of its connection.\<close>

lemma bind_done: "(\<And>w. f w = Inr w) \<Longrightarrow> bindE r f = r"
  by (cases r) simp_all

lemma runE_three: "runE f [x, y, z] w = bindE (f x w) (\<lambda>w. bindE (f y w) (f z))"
proof -
  have "bindE (f z u) (runE f []) = f z u" for u by (rule bind_done) simp
  then have "runE f [y, z] u = bindE (f y u) (f z)" for u by (cases "f y u") simp_all
  then show ?thesis by (cases "f x w") simp_all
qed

lemma onMessage_goes:
  fixes w :: "('k, 'z) served_scheme"
  assumes w: "echo_like L w" and c: "conns w c = Some x" and tid: "isLoopThread tid (conn_loop x) w"
  shows "goes L w (runE (do_api S tid) (onMessage msg c) w)"
proof -
  have "goes L w (bindE (do_api S tid (ApiTakeAll c msg) w) (\<lambda>w. bindE (do_api S tid (ApiSend c msg) w) (do_api S tid (ApiFree msg))))"
  proof (rule outcome_bind [where P = "\<lambda>v. follows L w v \<and> strings v msg \<noteq> None \<and> loopOf v = loopOf w \<and>
      (\<exists>y. conns v c = Some y \<and> conn_loop y = conn_loop x)"])
    have "follows L w (upd_conn c (\<lambda>x. x\<lparr>inputBuffer := b\<rparr>) (w\<lparr>strings := m\<rparr>))" for b m
    proof -
      have m: "follows L w (w\<lparr>strings := m\<rparr>)" by (rule aside_follows) (simp_all add: w)
      show ?thesis by (rule follows_trans [OF m upd_conn_follows [OF followsD(1) [OF m]]]) (simp add: echo_conn_def)
    qed
    with c show "outcome tame (\<lambda>v. follows L w v \<and> strings v msg \<noteq> None \<and> loopOf v = loopOf w \<and>
        (\<exists>y. conns v c = Some y \<and> conn_loop y = conn_loop x)) (do_api S tid (ApiTakeAll c msg) w)"
      by (auto simp: with_conn_def intro!: outcome_bind [OF retrieveAllAsString_tame]) (simp_all add: upd_conn_def)
    fix v
    assume v: "follows L w v \<and> strings v msg \<noteq> None \<and> loopOf v = loopOf w \<and> (\<exists>y. conns v c = Some y \<and> conn_loop y = conn_loop x)"
    then obtain y d where y: "conns v c = Some y" "conn_loop y = conn_loop x" and d: "strings v msg = Some d" by auto
    have "goes L v (sendinLoop S tid c msg n v)" for n by (rule sendinLoop_goes [OF followsD(1) [of L w v] y(1) d]) (use v in simp)
    with v y d tid have "goes L v (do_api S tid (ApiSend c msg) v)"
      by (simp add: send_def with_conn_def Let_def isLoopThread_def followsD(1) [of L w v])
    then have "goes L v (bindE (do_api S tid (ApiSend c msg) v) (do_api S tid (ApiFree msg)))"
    proof (rule outcome_bind)
      fix u assume u: "follows L v u"
      have "follows L u (u\<lparr>strings := m\<rparr>)" for m by (rule aside_follows) (simp_all add: followsD(1) [OF u])
      with follows_trans [OF u] show "goes L v (do_api S tid (ApiFree msg) u)" by simp
    qed
    with v show "goes L w (bindE (do_api S tid (ApiSend c msg) v) (do_api S tid (ApiFree msg)))" by (intro goes_from [of L w v]) simp_all
  qed
  then show ?thesis unfolding onMessage_def runE_three .
qed

lemma call_onConnection [simp]: "call_app S (echo_app msg) tid (Some kOnConnection) (EvConnection c) w = Inr w"
  by (simp add: call_app_def echo_app_def onConnection_def)

lemma call_onMessage:
  "call_app S (echo_app msg) tid (Some kOnMessage) (EvMessage c t) w = runE (do_api S tid) (onMessage msg c) w"
  by (simp add: call_app_def echo_app_def)

section \<open>Handlers and queued functions\<close>

lemma removeConnectionInLoop_goes:
  fixes w :: "('k, 'z) served_scheme"
  assumes w: "echo_like L w" and c: "conns w c \<noteq> None"
  shows "goes L w (removeConnectionInLoop S tid c w)"
proof -
  obtain x where x: "conns w c = Some x" using c by blast
  let ?v = "upd_server (\<lambda>s. s\<lparr>connections := (connections s)(conn_name x := None)\<rparr>) w"
  have "follows L w ?v" using w by (simp add: follows_def) (simp add: echo_like_def upd_server_def echo_callbacks_def)
  from follows_trans [OF this queueinLoop_follows [OF followsD(1) [OF this]]] x show ?thesis
    by (simp add: removeConnectionInLoop_def with_conn_def Let_def echo_task_def) (simp add: upd_server_def dom_def)
qed

lemma removeConnection_goes:
  fixes w :: "('k, 'z) served_scheme"
  assumes w: "echo_like L w" and c: "conns w c \<noteq> None"
  shows "goes L w (removeConnection S tid h c w)"
  using removeConnectionInLoop_goes [OF assms] queueinLoop_follows [OF w, of "TRemoveConnection c"] c
  by (simp add: removeConnection_def runinLoop_def echo_task_def dom_def)

lemma handleClose_goes:
  fixes w :: "('k, 'z) served_scheme"
  assumes w: "echo_like L w" and c: "conns w c = Some x"
  shows "goes L w (handleClose S (echo_app msg) (removeConnection S) tid c w)"
proof -
  let ?w = "setState kDisconnected c w"
  have sw: "follows L w ?w" by (rule setState_follows [OF w])
  have "goes L w (bindE (set_mask S (conn_filed x) (\<lambda>_. kNoneEvent) ?w) (\<lambda>w. with_conn c w (\<lambda>x. case conn_closeCallback x of
      None \<Rightarrow> Inl BadFunctionCall | Some h \<Rightarrow> removeConnection S tid h c w)))"
  proof (rule outcome_bind [OF goes_aside [OF sw set_mask_aside]])
    fix v assume v: "follows L w v"
    obtain y where y: "conns v c = Some y" using followsD(2) [OF v c] by blast
    have "conn_closeCallback y \<noteq> None" using echo_likeD(1) [OF followsD(1) [OF v] y] by (simp add: echo_conn_def)
    moreover have "goes L w (removeConnection S tid h c v)" for h
      by (rule goes_from [OF v removeConnection_goes [OF followsD(1) [OF v]]]) (simp add: y)
    ultimately show "goes L w (with_conn c v (\<lambda>x. case conn_closeCallback x of
      None \<Rightarrow> Inl BadFunctionCall | Some h \<Rightarrow> removeConnection S tid h c v))" by (auto simp: with_conn_def y)
  qed simp
  moreover have "connectionCallback x = Some kOnConnection" using echo_likeD(1) [OF w c] by (simp add: echo_conn_def)
  ultimately show ?thesis using c by (simp add: handleClose_def with_conn_def [of c w] set_mask_eqs)
qed

lemma handleError_goes:
  fixes w :: "('k, 'z) served_scheme"
  assumes w: "echo_like L w" and c: "conns w c \<noteq> None"
  shows "goes L w (handleError S c w)"
  using c aside_follows [OF _ w] by (auto simp: handleError_def with_conn_def split: prod.split)

lemma handleRead_goes:
  fixes w :: "('k, 'z) served_scheme"
  assumes w: "echo_like L w" and c: "conns w c = Some x" and tid: "isLoopThread tid (conn_loop x) w"
  shows "goes L w (handleRead S (echo_app msg) (removeConnection S) tid c now w)"
proof -
  let ?go = "\<lambda>(n, savedErrno, b, k'). let w = upd_conn c (\<lambda>x. x\<lparr>inputBuffer := b\<rparr>) (w\<lparr>kern := k'\<rparr>) in
         if n > 0 then call_app S (echo_app msg) tid (messageCallback x) (EvMessage c now) w
         else if n = 0 then handleClose S (echo_app msg) (removeConnection S) tid c w
         else handleError S c (log_line ERROR ''TcpConnection::handleRead'' (w\<lparr>kern := sys_set_errno S savedErrno (kern w)\<rparr>))"
  have "goes L w (?go (n, e, b, k'))" for n e b k'
  proof -
    let ?v = "upd_conn c (\<lambda>x. x\<lparr>inputBuffer := b\<rparr>) (w\<lparr>kern := k'\<rparr>)"
    have k: "follows L w (w\<lparr>kern := k'\<rparr>)" by (rule aside_follows) (simp_all add: w)
    have v: "follows L w ?v" by (rule follows_trans [OF k upd_conn_follows [OF followsD(1) [OF k]]]) (simp add: echo_conn_def)
    note like = followsD(1) [OF v]
    have y: "conns ?v c = Some (x\<lparr>inputBuffer := b\<rparr>)" using c by (simp add: upd_conn_def)
    have "isLoopThread tid (conn_loop (x\<lparr>inputBuffer := b\<rparr>)) ?v" using tid by (simp add: isLoopThread_def upd_conn_def)
    from goes_from [OF v onMessage_goes [OF like y this]]
    have "goes L w (call_app S (echo_app msg) tid (messageCallback x) (EvMessage c now) ?v)"
      using echo_likeD(1) [OF w c] by (simp add: call_onMessage echo_conn_def)
    moreover have "goes L w (handleClose S (echo_app msg) (removeConnection S) tid c ?v)"
      by (rule goes_from [OF v handleClose_goes [OF like y]])
    moreover have "goes L w (handleError S c (log_line ERROR m (?v\<lparr>kern := k''\<rparr>)))" for m k''
    proof -
      have u: "follows L w (log_line ERROR m (?v\<lparr>kern := k''\<rparr>))" by (rule follows_trans [OF v aside_follows]) (simp_all add: like)
      show ?thesis by (rule goes_from [OF u handleError_goes [OF followsD(1) [OF u]]]) (use y in simp)
    qed
    ultimately show ?thesis by (simp add: Let_def)
  qed
  note step = this
  have "goes L w (?go y)" for y by (cases y rule: prod_cases4, hypsubst, rule step)
  then have "goes L w (bindE (readFd S fd 0 b (kern w)) ?go)" for fd b by (rule outcome_bind [OF readFd_tame])
  then show ?thesis unfolding handleRead_def with_conn_def [of c w] c option.case .
qed

lemma shutdownInLoop_goes:
  fixes w :: "('k, 'z) served_scheme"
  assumes w: "echo_like L w" and c: "conns w c \<noteq> None"
  shows "goes L w (shutdownInLoop S c w)"
proof -
  have "aside w (Socket_shutdownWrite S fd w)" for fd by (simp add: Socket_shutdownWrite_def Let_def split: prod.split)
  with c aside_follows [OF _ w] show ?thesis by (auto simp: shutdownInLoop_def with_conn_def)
qed

lemma handleWrite_goes:
  fixes w :: "('k, 'z) served_scheme"
  assumes w: "echo_like L w" and c: "conns w c = Some x"
  shows "goes L w (handleWrite S tid c w)"
proof (cases "isWriting (filedOf w (conn_filed x))")
  case True
  have wc: "writeCompleteCallback x = None" using echo_likeD(1) [OF w c] by (simp add: echo_conn_def)
  let ?go = "\<lambda>(n, savedErrno :: int, k').
         let w = w\<lparr>kern := k'\<rparr> in
         if n > 0
         then let b = retrieve (of_int n) (outputBuffer x); w = upd_conn c (\<lambda>x. x\<lparr>outputBuffer := b\<rparr>) w in
           if readableBytes b = 0
           then bindE (set_mask S (conn_filed x) mask_disableWriting w) (\<lambda>w.
             if conn_state x = kDisconnecting then shutdownInLoop S c w else Inr w)
           else Inr (log_line ERROR ''TcpConnection::handleWrite'' w)
         else Inr (log_line ERROR ''TcpConnection fd=%d is down, no more writing'' w)"
  have "goes L w (?go (n, e, k'))" for n :: int and e :: int and k'
  proof -
    let ?b = "retrieve (of_int n) (outputBuffer x)"
    let ?v = "upd_conn c (\<lambda>x. x\<lparr>outputBuffer := ?b\<rparr>) (w\<lparr>kern := k'\<rparr>)"
    have k: "follows L w (w\<lparr>kern := k'\<rparr>)" by (rule aside_follows) (simp_all add: w)
    have v: "follows L w ?v" by (rule follows_trans [OF k upd_conn_follows [OF followsD(1) [OF k]]]) (simp add: echo_conn_def)
    have "goes L w (bindE (set_mask S (conn_filed x) mask_disableWriting ?v) (\<lambda>w. if conn_state x = kDisconnecting then shutdownInLoop S c w else Inr w))"
    proof (rule outcome_bind [OF goes_aside [OF v set_mask_aside]])
      fix u assume u: "follows L w u"
      have "conns u c \<noteq> None" using followsD(2) [OF u c] by blast
      from goes_from [OF u shutdownInLoop_goes [OF followsD(1) [OF u] this]] u
      show "goes L w (if conn_state x = kDisconnecting then shutdownInLoop S c u else Inr u)" by simp
    qed simp
    moreover have "follows L w (log_line ERROR m ?v)" "follows L w (log_line ERROR m (w\<lparr>kern := k'\<rparr>))" for m
      by (rule follows_trans [OF v aside_follows], simp_all add: followsD(1) [OF v]) (rule aside_follows, simp_all add: w)
    ultimately show ?thesis by (simp add: Let_def)
  qed
  note step = this
  have "goes L w (?go y)" for y by (cases y rule: prod_cases3, hypsubst, rule step)
  then have "goes L w (bindE (writeFd S fd 0 b (kern w)) ?go)" for fd b by (rule outcome_bind [OF writeFd_tame])
  then show ?thesis
    unfolding handleWrite_def with_conn_def [of c w] c option.case if_P [OF True] wc set_mask_eqs Let_def .
qed (simp add: handleWrite_def with_conn_def c w)

lemma connectEstablished_goes:
  fixes w :: "('k, 'z) served_scheme"
  assumes w: "echo_like L w" and c: "conns w c = Some x"
  shows "goes L w (connectEstablished S (echo_app msg) tid c w)"
proof -
  have s: "follows L w (setState kConnected c w)" by (rule setState_follows [OF w])
  have v: "follows L w (upd_filed (conn_filed x) (tie c) (setState kConnected c w))"
    by (rule follows_trans [OF s aside_follows]) (simp_all add: followsD(1) [OF s])
  have "bindE r (call_app S (echo_app msg) tid (connectionCallback x) (EvConnection c)) = r" for r :: "fault + ('k, 'z) served_scheme"
    by (rule bind_done) (use echo_likeD(1) [OF w c] in \<open>simp add: echo_conn_def\<close>)
  with goes_aside [OF v set_mask_aside] show ?thesis
    by (simp add: connectEstablished_def with_conn_def c set_mask_eqs)
qed

lemma connectDestroyed_goes:
  fixes w :: "('k, 'z) served_scheme"
  assumes w: "echo_like L w" and c: "conns w c = Some x"
  shows "goes L w (connectDestroyed S (echo_app msg) tid c w)"
proof -
  have s: "follows L w (setState kDisconnected c w)" by (rule setState_follows [OF w])
  have told: "bindE r (call_app S (echo_app msg) tid (connectionCallback x) (EvConnection c)) = r" for r :: "fault + ('k, 'z) served_scheme"
    by (rule bind_done) (use echo_likeD(1) [OF w c] in \<open>simp add: echo_conn_def\<close>)
  have remove: "goes L w (Filed_remove S (conn_filed x) v)" if "follows L w v" for v
    by (rule goes_aside [OF that Filed_remove_aside]) simp
  have "goes L w (bindE (if conn_state x = kConnected then set_mask S (conn_filed x) (\<lambda>_. kNoneEvent) (setState kDisconnected c w)
      else Inr w) (Filed_remove S (conn_filed x)))"
    by (rule outcome_bind [where P = "follows L w"]) (use goes_aside [OF s set_mask_aside] w remove in auto)
  then show ?thesis
    by (simp add: connectDestroyed_def with_conn_def c set_mask_eqs told cong: if_cong)
qed

lemma newConnection_goes:
  fixes w :: "('k, 'z) served_scheme"
  assumes w: "echo_like L w" and new: "conns w (next_addr w) = None"
  shows "goes L w (newConnection S (echo_app msg) tid fd peer w)"
proof -
  let ?c = "next_addr w" and ?s = "the_server w"
  obtain r a k' where gs: "sys_getsockname S fd (kern w) = (r, a, k')" by (metis prod_cases3)
  show ?thesis
  proof (cases "nextConnId ?s = 2147483647")
    case True
    have "outcome tame (\<lambda>_. True) (getNextLoop (pool w))" by (simp add: getNextLoop_def Let_def)
    with True show ?thesis
      by (cases "getNextLoop (pool w)") (auto simp: newConnection_def newConnection_object_def upd_pool_def Let_def)
  next
    case False
    show ?thesis
    proof (cases "getNextLoop (pool w)")
      case (Inl e)
      then have "tame e" by (auto simp: getNextLoop_def Let_def split: if_splits)
      with Inl show ?thesis by (simp add: newConnection_def newConnection_object_def)
    next
      case (Inr lp)
      then obtain l p where p: "getNextLoop (pool w) = Inr (l, p)" by (cases lp) simp
      define local where "local = (if r < 0 then \<lparr>sin_family = 0, sin_port = 0, sin_addr = 0\<rparr> else a)"
      obtain v where v: "newConnection_object S fd peer w = Inr (l, ?c, v)" "loopOf v = loopOf w"
        "conns v = (conns w)(?c \<mapsto> new_conn ?s l (?c + 1) fd local peer)"
        "the_server v = ?s\<lparr>nextConnId := nextConnId ?s + 1, connections := (connections ?s)(conn_name_of ?s \<mapsto> ?c)\<rparr>"
        using newConnection_object_exact [OF p gs False refl local_def, of peer] by auto
      have "echo_conn (new_conn ?s l (?c + 1) fd local peer)"
        using echo_likeD(2) [OF w] by (simp add: echo_conn_def echo_callbacks_def new_conn_def)
      moreover have "echo_task (dom (conns v)) t" if "m \<in> L" "t \<in> set (pendFuncs (loopOf w m))" for m t
        by (rule echo_task_mono [OF echo_likeD(3) [OF w that]]) (auto simp: v(3))
      ultimately have "echo_like L v"
        using echo_likeD(1,2) [OF w] by (auto simp: echo_like_def v(2) echo_callbacks_def v(4)) (auto simp: v(3) split: if_splits)
      then have f: "follows L w v" by (auto simp: follows_def v(3))
      have "goes L v (runinLoop S tid l (TConnectEstablished ?c) (connectEstablished S (echo_app msg) tid ?c) v)"
        using connectEstablished_goes [OF followsD(1) [OF f], of ?c] queueinLoop_follows [OF followsD(1) [OF f], of "TConnectEstablished ?c"]
        by (simp add: runinLoop_def v(3) echo_task_def)
      with goes_from [OF f] v(1) show ?thesis by (simp add: newConnection_def)
    qed
  qed
qed

lemma Acceptor_handleRead_goes:
  fixes w :: "('k, 'z) served_scheme"
  assumes w: "echo_like L w" and new: "conns w (next_addr w) = None"
  shows "goes L w (Acceptor_handleRead S (echo_app msg) tid w)"
proof -
  obtain n a k' where ac: "sys_accept4 S (acceptSocket (the_acceptor w)) (kern w) = (n, a, k')" by (metis prod_cases3)
  have k: "follows L w (w\<lparr>kern := k\<rparr>)" for k by (rule aside_follows) (simp_all add: w)
  have "goes L w (newConnection S (echo_app msg) tid n a (w\<lparr>kern := k'\<rparr>))"
    by (rule goes_from [OF k newConnection_goes [OF followsD(1) [OF k]]]) (simp add: new)
  moreover have "follows L w (log_line lv m (w\<lparr>kern := k\<rparr>))" "follows L w (log_line lv m (log_line lv m' (w\<lparr>kern := k\<rparr>)))" for lv m m' k
    by (rule aside_follows; simp add: w)+
  ultimately show ?thesis
    using k by (simp add: Acceptor_handleRead_def Socket_accept_def ac Let_def)
qed

lemma Acceptor_listen_goes:
  fixes w :: "('k, 'z) served_scheme"
  assumes w: "echo_like L w"
  shows "goes L w (Acceptor_listen S w)"
proof -
  obtain r k' where li: "sys_listen S (acceptSocket (the_acceptor w)) 1024 (kern w) = (r, k')" by fastforce
  let ?v = "(upd_acceptor (\<lambda>a. a\<lparr>is_listen := True\<rparr>) w)\<lparr>kern := k'\<rparr>"
  have "follows L w ?v" using w by (simp add: follows_def upd_acceptor_def) (simp add: echo_like_def)
  from goes_aside [OF this set_mask_aside] li show ?thesis
    by (simp add: Acceptor_listen_def Socket_listen_def set_mask_eqs upd_acceptor_def)
qed

text \<open>A function from a queue, and a callback of a \<open>Filed\<close>.\<close>

lemma server_task_goes:
  fixes w :: "('k, 'z) served_scheme"
  assumes w: "echo_like L w" and t: "echo_task (dom (conns w)) t"
  shows "goes L w (server_task S (echo_app msg) tid t w)"
  using t connectEstablished_goes [OF w] connectDestroyed_goes [OF w] removeConnectionInLoop_goes [OF w] Acceptor_listen_goes [OF w]
  by (cases t) (auto simp: server_task_def echo_task_def)

lemma server_handler_goes:
  fixes w :: "('k, 'z) served_scheme"
  assumes w: "echo_like L w" and new: "conns w (next_addr w) = None"
    and c: "\<And>c. handler_conn h = Some c \<Longrightarrow> \<exists>x. conns w c = Some x \<and> isLoopThread tid (conn_loop x) w"
  shows "goes L w (server_handler S (echo_app msg) tid now h w)"
proof (cases h)
  case (HConnRead c)
  with c obtain x where "conns w c = Some x" "isLoopThread tid (conn_loop x) w" by (auto simp: handler_conn_def)
  from handleRead_goes [OF w this] HConnRead show ?thesis by (simp add: server_handler_def)
next
  case (HConnWrite c)
  with c obtain x where "conns w c = Some x" by (auto simp: handler_conn_def)
  from handleWrite_goes [OF w this] HConnWrite show ?thesis by (simp add: server_handler_def)
next
  case (HConnClose c)
  with c obtain x where "conns w c = Some x" by (auto simp: handler_conn_def)
  from handleClose_goes [OF w this] HConnClose show ?thesis by (simp add: server_handler_def)
next
  case (HConnError c)
  with c handleError_goes [OF w, of c] show ?thesis by (auto simp: server_handler_def handler_conn_def)
next
  case (HWakeupRead l)
  have "aside w (handelwakeupRead S l w)" by (simp add: handelwakeupRead_def Let_def split: prod.split)
  with HWakeupRead aside_follows [OF _ w] show ?thesis by (simp add: server_handler_def)
next
  case HAcceptRead
  with Acceptor_handleRead_goes [OF w new] show ?thesis by (simp add: server_handler_def)
qed

section \<open>From the start\<close>

text \<open>While the program is set up there are no connections, and at most \<open>listen\<close> is queued.\<close>

definition bare :: "('k, 'z) process_scheme \<Rightarrow> bool" where
  "bare w \<longleftrightarrow> conns w = Map.empty \<and> (\<forall>m. set (pendFuncs (loopOf w m)) \<subseteq> {TListen})"

lemma bare_aside: "aside w v \<Longrightarrow> bare w \<Longrightarrow> bare v"
  by (simp add: bare_def aside_def)

lemma mkEventLoop_bare:
  fixes w :: "('k, 'z) process_scheme"
  assumes "bare w"
  shows "outcome (\<lambda>_. True) bare (mkEventLoop S tid l fp w)"
proof -
  have "outcome (\<lambda>_. True) bare (mkEpoller S l w)"
    using bare_aside [OF _ assms] by (simp add: mkEpoller_def split: prod.split)
  moreover have "outcome (\<lambda>_. True) bare (set_mask S fp m v)" if "bare v" for m and v :: "('k, 'z) process_scheme"
    by (rule outcome_mono [OF set_mask_aside [of v v]]) (auto intro: bare_aside [OF _ that])
  ultimately show ?thesis
    unfolding mkEventLoop_def set_mask_eqs
    by (auto simp: Let_def bare_def upd_loop_def upd_filed_def intro!: outcome_bind [OF _ outcome_bind [OF any_outcome]])
qed

lemma start_one_bare:
  fixes w :: "('k, 'z) served_scheme"
  assumes "bare w"
  shows "outcome (\<lambda>_. True) (\<lambda>v. bare v \<and> the_server v = the_server w) (start_one S app None i w)"
proof -
  have go: "outcome (\<lambda>_. True) (\<lambda>v. bare v \<and> the_server v = the_server w) (mkEventLoop S t l fp v)"
    if "bare v" "the_server v = the_server w" for t l fp and v :: "('k, 'z) served_scheme"
    by (rule outcome_weaken [OF both_outcomes [OF mkEventLoop_bare [OF that(1)] mkEventLoop_more]])
      (use that(2) in \<open>auto dest: served_more\<close>)
  have made: "outcome (\<lambda>_. True) (\<lambda>(l, v). bare v \<and> the_server v = the_server w) (startLoop S app None u)"
    if "bare u" "the_server u = the_server w" for u :: "('k, 'z) served_scheme"
    unfolding startLoop_def Let_def option.case bindE.simps
    by (rule outcome_bind [OF go]) (use that in \<open>simp_all add: bare_def\<close>)
  obtain n t where "mkThread (create_num w) (manager_name (pool_name (pool w)) (int i)) = (n, t)" by fastforce
  then show ?thesis
    unfolding start_one_def Let_def
    using assms by (auto intro!: outcome_bind [OF made] simp: upd_pool_def bare_def)
qed

lemma mkEchoServer_bare:
  fixes w :: "('k, 'z) served_scheme"
  assumes "bare w"
  shows "outcome (\<lambda>_. True) (\<lambda>v. bare v \<and> echo_callbacks (the_server v) \<and> threadInitCallback (the_server v) = None)
    (mkEchoServer S l addr nm w)"
proof -
  obtain fd k1 where sock: "sys_socket S (kern w) = (fd, k1)" by fastforce
  obtain s where ip: "toIpPort addr = Inr s" using toIpPort_eq by blast
  have made: "outcome (\<lambda>_. True) (\<lambda>v. bare v \<and> srv_writeCompleteCallback (the_server v) = None \<and> threadInitCallback (the_server v) = None)
    (mkServer S (Some l) addr nm opt w)" for opt
  proof (cases "0 \<le> fd")
    case False
    with sock ip show ?thesis
      by (simp add: mkServer_def CheckLoopNotNull_def mkAcceptor_def createNonblockFd_def upd_server_def Let_def)
  next
    case True
    obtain r k2 where "sys_bind S fd addr (sys_setsockopt S fd SO_REUSEPORT 1 (sys_setsockopt S fd SO_REUSEADDR 1 k1)) = (r, k2)" by fastforce
    from mkServer_exact [OF sock True ip this, of l nm opt] assms show ?thesis by (simp add: bare_def)
  qed
  show ?thesis
    unfolding mkEchoServer_def
    by (rule outcome_bind [OF made]) (simp add: setThreadNum_def upd_pool_def Server_setMessageCallback_def
      Server_setConnectionCallback_def upd_server_def bare_def echo_callbacks_def)
qed

lemma Server_start_bare:
  fixes w :: "('k, 'z) served_scheme"
  assumes w: "bare w" and s: "echo_callbacks (the_server w)" "threadInitCallback (the_server w) = None"
  shows "outcome (\<lambda>_. True) (\<lambda>v. bare v \<and> echo_callbacks (the_server v)) (Server_start S app tid w)"
proof -
  let ?P = "\<lambda>v :: ('k, 'z) served_scheme. bare v \<and> echo_callbacks (the_server v)"
  have one: "outcome (\<lambda>_. True) ?P (start_one S app None i v)" if "?P v" for i v
    by (rule outcome_weaken [OF start_one_bare]) (use that in auto)
  have pool: "outcome (\<lambda>_. True) ?P (ManagerPool_start S app tid None v)" if "?P v" for v
  proof -
    have "?P (upd_pool g v)" for g using that by (simp add: upd_pool_def bare_def)
    then show ?thesis
      unfolding ManagerPool_start_def Let_def by (intro outcome_bind [where P = ?P] outcome_runE) (use one in auto)
  qed
  have listen: "outcome (\<lambda>_. True) ?P (runinLoop S tid l TListen (Acceptor_listen S) v)" if v: "?P v" for l v
  proof -
    have "?P (queueinLoop S tid l TListen v)" using v by (auto simp: bare_def)
    moreover have "outcome (\<lambda>_. True) ?P (Acceptor_listen S v)"
    proof -
      have "outcome (\<lambda>_. True) ?P (set_mask S fp m u)" if "?P u" for fp m u
        by (rule outcome_mono [OF set_mask_aside [of u u]])
          (use that in \<open>auto simp: aside_def bare_def dest: served_more\<close>)
      moreover have "?P ((upd_acceptor g v)\<lparr>kern := k\<rparr>)" for g k using v by (simp add: upd_acceptor_def bare_def)
      ultimately show ?thesis
        unfolding Acceptor_listen_def Socket_listen_def set_mask_eqs Let_def by (auto split: prod.split)
    qed
    ultimately show ?thesis by (simp add: runinLoop_def)
  qed
  have "?P (upd_server (\<lambda>s. s\<lparr>started_count := started_count s + 1\<rparr>) w)"
    using w s by (simp add: upd_server_def bare_def echo_callbacks_def)
  moreover have "threadInitCallback (the_server (upd_server (\<lambda>s. s\<lparr>started_count := started_count s + 1\<rparr>) w)) = None"
    using s by (simp add: upd_server_def)
  ultimately show ?thesis
    unfolding Server_start_def Let_def using pool listen by (auto intro!: outcome_bind [where P = ?P])
qed

lemma main_setup_echo:
  fixes w :: "('k, 'z) served_scheme"
  assumes "conns w = Map.empty" and "\<And>m. pendFuncs (loopOf w m) = []"
  shows "outcome (\<lambda>_. True) (echo_like L) (main_setup S inet msg tid l w)"
proof -
  have "bare w" using assms by (simp add: bare_def)
  then have "outcome (\<lambda>_. True) (\<lambda>v. bare v \<and> echo_callbacks (the_server v)) (main_setup S inet msg tid l w)"
    unfolding main_setup_def EchoServer_start_def
    by (intro outcome_bind [OF mkEventLoop_bare] outcome_bind [OF mkEchoServer_bare] Server_start_bare) simp_all
  then show ?thesis proof (rule outcome_weaken)
    fix v :: "('k, 'z) served_scheme"
    assume v: "bare v \<and> echo_callbacks (the_server v)"
    have "echo_task X t" if "t \<in> set (pendFuncs (loopOf v m))" for X t m
    proof -
      have "t = TListen" using v that by (auto simp: bare_def)
      then show ?thesis by (simp add: echo_task_def)
    qed
    with v show "echo_like L v" by (simp add: echo_like_def bare_def)
  qed
qed

section \<open>Every step\<close>

lemma dispatch_list_handlers: "set (dispatch_list f) \<subseteq> handlers_of f"
proof -
  have "cb = Some h" if "h \<in> set (asked c cb)" for c cb h using that by (cases c; cases cb) (simp_all add: asked_def)
  then show ?thesis by (auto simp: dispatch_list_def handlers_of_def)
qed

lemma joint_outcomes: "outcome E P r \<Longrightarrow> outcome F Q r \<Longrightarrow> outcome (\<lambda>e. E e \<and> F e) (\<lambda>x. P x \<and> Q x) r"
  by (cases r) simp_all

text \<open>The faults that remain.\<close>

definition limits :: "fault \<Rightarrow> bool" where
  "limits e \<longleftrightarrow> e = OutOfBounds \<or> e = LengthError \<or> e = SignedOverflow"

lemma limits_iff: "limits e \<longleftrightarrow> not_fatal e \<and> tame e"
  by (cases e) (simp_all add: limits_def not_fatal_def tame_def)

text \<open>A \<open>Filed\<close> that a loop dispatches calls the handlers of a connection that exists and belongs to the loop's thread.\<close>

lemma ripe_handler:
  assumes inv: "system_inv itst used L base owner C D w" and l: "l \<in> L" and fp: "ripe base w l fp"
    and h: "h \<in> handlers_of (filedOf w fp)" "handler_conn h = Some c"
  shows "\<exists>x. conns w c = Some x \<and> isLoopThread (owner l) (conn_loop x) w"
proof -
  have "fp \<notin> base" using system_invD(3) [OF inv] h by (auto simp: base_handlers_def)
  then obtain d x where x: "conns w d = Some x" "conn_filed x = fp" using fp by (auto simp: ripe_def live_of_def)
  with system_invD(5) [OF inv x(1)] h have "d = c" by (simp add: conn_sane_def)
  moreover have "conn_loop x = l"
    using process_invD(3) [OF served_invD(6) [OF system_invD(1) [OF inv]] x(1)] x(2) fp by (simp add: conn_ok_def ripe_def)
  ultimately show ?thesis using x system_invD(4) [OF inv l] by (auto simp: isLoopThread_def)
qed

lemma dispatch_goes:
  fixes w :: "('k, 'z) served_scheme"
  assumes law: "system_laws S itst used" and inv: "system_inv itst used L base owner C D w" and l: "l \<in> L"
    and D: "D l = fp # fps" and w: "echo_like L w"
  shows "outcome limits (follows L w) (loop_dispatch S (echo_app msg) (owner l) now fp w)"
proof -
  let ?P = "\<lambda>v. (system_inv itst used L base owner C D v \<and> same_handlers fp w v) \<and> follows L w v"
  have ripe: "ripe base v l fp" if "system_inv itst used L base owner C D v" for v
    using system_invD(9) [OF that l] D by simp
  have "outcome limits ?P (server_handler S (echo_app msg) (owner l) now h v)" if h: "h \<in> handlers_of (filedOf w fp)" and v: "?P v" for h v
  proof -
    have vi: "system_inv itst used L base owner C D v" and h': "h \<in> handlers_of (filedOf v fp)" using h v by simp_all
    have new: "conns v (next_addr v) = None" using server_okD(6) [OF served_invD(1) [OF system_invD(1) [OF vi]]] by blast
    have "goes L v (server_handler S (echo_app msg) (owner l) now h v)"
      using v by (intro server_handler_goes [OF _ new ripe_handler [OF vi l ripe [OF vi] h']]) (simp_all add: followsD(1) [of L w v])
    from joint_outcomes [OF system_handler [OF system_lawsD(1-3) [OF law] vi ripe [OF vi] h', of "echo_app msg" "owner l" now] this]
    show ?thesis
      by (rule outcome_mono) (use v in \<open>auto simp: limits_iff intro: follows_trans [of L w v]\<close>)
  qed
  then have "outcome limits ?P (runE (server_handler S (echo_app msg) (owner l) now) (dispatch_list (filedOf w fp)) w)"
    by (intro outcome_runE) (use dispatch_list_handlers inv w in auto)
  then have "outcome limits (follows L w) (runE (server_handler S (echo_app msg) (owner l) now) (dispatch_list (filedOf w fp)) w)"
    by (rule outcome_weaken) simp
  moreover have "fp < next_addr w"
    using ripe [OF inv] server_okD(5) [OF served_invD(1) [OF system_invD(1) [OF inv]]] by (auto simp: ripe_def)
  moreover have "find_filed fp w = Some (filedOf w fp)" by (rule ripe_found [OF inv ripe [OF inv]])
  ultimately show ?thesis
    using w by (simp add: loop_dispatch_def dispatch.handleEvent_eq exists_filed_def)
qed

text \<open>The state of the running echo server.\<close>

definition echo_ok ::
  "'k interest \<Rightarrow> ('k \<Rightarrow> int set) \<Rightarrow> nat set \<Rightarrow> nat set \<Rightarrow> (nat \<Rightarrow> int) \<Rightarrow> ('k, 'z) system_state \<Rightarrow> bool" where
  "echo_ok itst used L base owner s \<longleftrightarrow> system_ok itst used L base owner s \<and> echo_like L (fst s) \<and>
     (\<forall>l \<in> L. \<forall>t \<in> set (in_hand (snd s l)). echo_task (dom (conns (fst s))) t)"

lemma echo_okD:
  assumes "echo_ok itst used L base owner (w, ph)"
  shows "system_ok itst used L base owner (w, ph)" and "echo_like L w"
    and "l \<in> L \<Longrightarrow> t \<in> set (in_hand (ph l)) \<Longrightarrow> echo_task (dom (conns w)) t"
  using assms unfolding echo_ok_def by auto

lemma echo_ok_follows:
  assumes ok: "echo_ok itst used L base owner (w, ph)" and v: "system_ok itst used L base owner (v, ph')" "follows L w v"
    and hands: "\<And>l. set (in_hand (ph' l)) \<subseteq> set (in_hand (ph l))"
  shows "echo_ok itst used L base owner (v, ph')"
proof -
  have "echo_task (dom (conns v)) t" if "l \<in> L" "t \<in> set (in_hand (ph' l))" for l t
    by (rule echo_task_mono [OF echo_okD(3) [OF ok that(1)]]) (use that(2) hands [of l] v(2) in \<open>auto simp: follows_def\<close>)
  with v show ?thesis by (simp add: echo_ok_def follows_def)
qed

lemma loop_poll_aside:
  fixes w :: "('k, 'z) served_scheme"
  assumes law: "wait_law S itst" and w: "echo_like L w" and r: "loop_poll S l w = Inr (now, active, v)"
  shows "follows L w v"
proof -
  let ?w = "upd_loop l (\<lambda>e. e\<lparr>activeFileds := []\<rparr>) w"
  obtain n evs k1 where wait: "sys_epoll_wait S (epollfd (epollerOf ?w l)) (length (eventList (epollerOf ?w l))) kEpollTime (kern ?w) = (n, evs, k1)"
    by (metis prod_cases3)
  obtain now' k2 where t: "sys_time S k1 = (now', k2)" by fastforce
  obtain act u where u: "Epoller_epoll S l kEpollTime [] ?w = Inr (now', act, u)" "polled {k2, sys_set_errno S (sys_errno S k1) k2} ?w u"
    using Epoller_epoll_total [OF wait t wait_lawD(1) [OF law wait]] by blast
  note same = machine_more [OF polledD(2) [OF u(2)]]
  have v: "v = upd_loop l (\<lambda>e. e\<lparr>epollReturnTime := now', activeFileds := act\<rparr>) u" using r u(1) by (auto simp: loop_poll_def)
  have "conns v = conns w" "the_server v = the_server w" "pendFuncs (loopOf v m) = pendFuncs (loopOf w m)" for m
    using same by (simp_all add: v upd_loop_def)
  with w echo_like_same [of v w L] show ?thesis by (simp add: follows_def)
qed

lemma flags_follow:
  fixes w :: "('k, 'z) served_scheme"
  assumes "echo_like L w" and "\<And>e. pendFuncs (g e) = pendFuncs e"
  shows "follows L w (upd_loop l g w)"
proof -
  have "conns (upd_loop l g w) = conns w" "the_server (upd_loop l g w) = the_server w"
    "pendFuncs (loopOf (upd_loop l g w) m) = pendFuncs (loopOf w m)" for m using assms(2) by (simp_all add: upd_loop_def)
  with assms(1) echo_like_same [of "upd_loop l g w" w L] show ?thesis by (simp add: follows_def)
qed

lemma echo_step_keeps:
  assumes step: "system_step S itst used (echo_app msg) (\<lambda>_ _. False) L owner s s'" and law: "system_laws S itst used"
    and ok: "echo_ok itst used L base owner s"
  shows "echo_ok itst used L base owner s'"
proof -
  have ok': "system_ok itst used L base owner s'" by (rule system_step_keeps [OF step law]) (use ok in \<open>simp add: echo_ok_def\<close>)
  show ?thesis
    using step
  proof cases
    case (enter l ph w)
    note ok1 = ok [unfolded enter(1)] and ok2 = ok' [unfolded enter(2)]
    show ?thesis unfolding enter(2)
      by (rule echo_ok_follows [OF ok1 ok2 flags_follow [OF echo_okD(2) [OF ok1]]]) (use enter in auto)
  next
    case (poll l ph w now active w')
    note ok1 = ok [unfolded poll(1)] and ok2 = ok' [unfolded poll(2)]
    show ?thesis unfolding poll(2)
      by (rule echo_ok_follows [OF ok1 ok2 loop_poll_aside [OF system_lawsD(4) [OF law] echo_okD(2) [OF ok1] poll(6)]]) auto
  next
    case (dispatch l ph now fp fps w w')
    note ok1 = ok [unfolded dispatch(1)] and ok2 = ok' [unfolded dispatch(2)]
    have inv: "system_inv itst used L base owner (in_hand \<circ> ph) (to_dispatch \<circ> ph) w"
      using echo_okD(1) [OF ok1] by (simp add: system_ok_def)
    have "follows L w w'"
      using dispatch_goes [OF law inv dispatch(3) _ echo_okD(2) [OF ok1], of fp fps msg now] dispatch(4,5) by simp
    from echo_ok_follows [OF ok1 ok2 this] show ?thesis unfolding dispatch(2) by auto
  next
    case (take l ph now w ts w')
    note ok1 = ok [unfolded take(1)] and ok2 = ok' [unfolded take(2)]
    have ts: "ts = pendFuncs (loopOf w l)" and w': "w' = upd_loop l (\<lambda>e. e\<lparr>isCallPendFunc := True, pendFuncs := []\<rparr>) w"
      using take(5) by (simp_all add: begin_pend_def)
    have "echo_like L w'" using echo_okD(2) [OF ok1] by (simp add: echo_like_def w') (simp add: upd_loop_def)
    moreover have "conns w' = conns w" by (simp add: w')
    ultimately show ?thesis
      using ok2 echo_okD(3) [OF ok1] echo_likeD(3) [OF echo_okD(2) [OF ok1] take(3)] unfolding take(2) echo_ok_def by (auto simp: ts)
  next
    case (call l ph t ts w w')
    note ok1 = ok [unfolded call(1)] and ok2 = ok' [unfolded call(2)]
    have "echo_task (dom (conns w)) t" by (rule echo_okD(3) [OF ok1 call(3)]) (simp add: call(4))
    from server_task_goes [OF echo_okD(2) [OF ok1] this, of S msg "owner l"] call(5) have "follows L w w'" by simp
    then show ?thesis unfolding call(2) by (rule echo_ok_follows [OF ok1 ok2]) (use call(4) in auto)
  next
    case (finish l ph w)
    note ok1 = ok [unfolded finish(1)] and ok2 = ok' [unfolded finish(2)]
    show ?thesis unfolding finish(2)
      by (rule echo_ok_follows [OF ok1 ok2]) (use flags_follow [OF echo_okD(2) [OF ok1]] finish in \<open>auto simp: end_pend_def\<close>)
  next
    case (leave l ph w)
    note ok1 = ok [unfolded leave(1)] and ok2 = ok' [unfolded leave(2)]
    show ?thesis unfolding leave(2)
      by (rule echo_ok_follows [OF ok1 ok2 flags_follow [OF echo_okD(2) [OF ok1]]]) (use leave in auto)
  next
    case (user tid x w w' ph)
    then show ?thesis by simp
  next
    case (late_send c a w x tid w' ph)
    then show ?thesis by (simp add: echo_crosses)
  next
    case (late_shutdown c w x tid w' ph)
    then show ?thesis by (simp add: echo_crosses)
  next
    case (drop ph w c w')
    note ok1 = ok [unfolded drop(1)] and ok2 = ok' [unfolded drop(2)]
    have w': "conns w' = (conns w)(c := None)" "the_server w' = the_server w" "loopOf w' = loopOf w"
      using drop(4) by (auto simp: destroyConnection_def with_conn_def Socket_destroy_def split: option.splits)
    have "echo_task (dom (conns w')) t" if "l \<in> L" "t \<in> set (pending (in_hand \<circ> ph) w l)" for l t
    proof -
      have "echo_task (dom (conns w)) t" using that echo_okD(3) [OF ok1] echo_likeD(3) [OF echo_okD(2) [OF ok1]] by auto
      moreover have "\<not> holds_ref c t" using drop(3) that by (auto simp: unreferenced_def)
      ultimately show ?thesis by (cases t) (auto simp: echo_task_def holds_ref_def w'(1))
    qed
    then show ?thesis
      using ok2 echo_likeD(1,2) [OF echo_okD(2) [OF ok1]] unfolding drop(2) echo_ok_def
      by (auto simp: echo_like_def w' split: if_splits)
  next
    case (kernel k w ph)
    note ok1 = ok [unfolded kernel(1)] and ok2 = ok' [unfolded kernel(2)]
    have "follows L w (w\<lparr>kern := k\<rparr>)" by (rule aside_follows) (simp_all add: echo_okD(2) [OF ok1])
    from echo_ok_follows [OF ok1 ok2 this] show ?thesis unfolding kernel(2) by auto
  qed
qed

lemma echo_runs_keep:
  assumes "system_runs S itst used (echo_app msg) (\<lambda>_ _. False) L owner s s'" and "system_laws S itst used"
    and "echo_ok itst used L base owner s"
  shows "echo_ok itst used L base owner s'"
  using assms(1,3) by induction (auto intro: echo_step_keeps [OF _ assms(2)])

lemma echo_ok_operations:
  assumes law: "system_laws S itst used" and ok: "echo_ok itst used L base owner (w, ph)" and l: "l \<in> L"
  shows "case ph l of
      Dispatching now (fp # fps) \<Rightarrow> outcome limits (\<lambda>_. True) (loop_dispatch S (echo_app msg) (owner l) now fp w)
    | Calling (t # ts) \<Rightarrow> outcome (\<lambda>e. tame e \<and> (t = TListen \<or> limits e)) (\<lambda>_. True) (server_task S (echo_app msg) (owner l) t w)
    | _ \<Rightarrow> True"
proof (cases "ph l")
  case (Dispatching now fps)
  have inv: "system_inv itst used L base owner (in_hand \<circ> ph) (to_dispatch \<circ> ph) w"
    using echo_okD(1) [OF ok] by (simp add: system_ok_def)
  have "outcome limits (\<lambda>_. True) (loop_dispatch S (echo_app msg) (owner l) now fp w)" if "fps = fp # fps'" for fp fps'
    by (rule outcome_True [OF dispatch_goes [OF law inv l _ echo_okD(2) [OF ok]]]) (use Dispatching that in simp)
  with Dispatching show ?thesis by (simp split: list.split)
next
  case (Calling ts)
  have "outcome (\<lambda>e. tame e \<and> (t = TListen \<or> limits e)) (\<lambda>_. True) (server_task S (echo_app msg) (owner l) t w)" if ts: "ts = t # ts'" for t ts'
  proof -
    have "echo_task (dom (conns w)) t" using echo_okD(3) [OF ok l, of t] Calling ts by simp
    from joint_outcomes [OF call_ok [OF law echo_okD(1) [OF ok] l Calling [unfolded ts], of "echo_app msg" "owner l"]
        server_task_goes [OF echo_okD(2) [OF ok] this]]
    show ?thesis by (rule outcome_mono) (auto simp: limits_iff)
  qed
  with Calling show ?thesis by (simp split: list.split)
qed simp_all

text \<open>
  C6. The echo server uses no object after its end and calls no empty function, for its whole life. After \<open>main\<close> has set it
  up, in any interleaving of its four loops, of the kernel's moves and of the destruction of connections nothing refers to,
  every next operation of a loop succeeds, or ends with one of three faults: a read beyond a block, which is what
  \<open>sendinLoop\<close> does after a failed write, growth of a vector beyond its limit, and overflow of the connection number. Only
  \<open>listen\<close> may also end the process. No string, no connection and no \<open>Filed\<close> is used once it is destroyed.
\<close>

theorem echo_memory_safe:
  fixes w v :: "('k, 'z) served_scheme"
  assumes law: "system_laws S itst used" "socket_frame S itst" and none: "conns w = Map.empty" "\<And>m. pendFuncs (loopOf w m) = []"
    and l: "l + 1 < next_addr w" and a: "a = next_addr w" and L: "L = {l, a + 1, a + 3, a + 5}"
    and start: "main_setup S inet msg tid l w = Inr v" and owner: "owner = (\<lambda>m. threadId (loopOf v m))"
    and run: "system_runs S itst used (echo_app msg) (\<lambda>_ _. False) L owner (v, \<lambda>_. Starting) (u, ph)" and m: "m \<in> L"
  shows "case ph m of
      Dispatching now (fp # fps) \<Rightarrow> outcome limits (\<lambda>_. True) (loop_dispatch S (echo_app msg) (owner m) now fp u)
    | Calling (t # ts) \<Rightarrow> outcome (\<lambda>e. tame e \<and> (t = TListen \<or> limits e)) (\<lambda>_. True) (server_task S (echo_app msg) (owner m) t u)
    | _ \<Rightarrow> True"
proof -
  let ?base = "{l + 1, a, a + 2, a + 4, a + 6}"
  have "system_ok itst used L ?base owner (v, \<lambda>_. Starting)"
    unfolding L by (rule echo_main_ok [OF law none(1) l a start owner])
  moreover have "echo_like L v" using main_setup_echo [OF none, of L S inet msg tid l] start by simp
  ultimately have "echo_ok itst used L ?base owner (v, \<lambda>_. Starting)" by (simp add: echo_ok_def)
  with run have ok: "echo_ok itst used L ?base owner (u, ph)" by (rule echo_runs_keep [OF _ law(1)])
  show ?thesis by (rule echo_ok_operations [OF law(1) ok m])
qed


text \<open>The first client of a concrete server: the listening descriptor becomes readable, and the main loop is about to handle it.\<close>

abbreviation demo_ready :: "ksim served \<Rightarrow> ksim served" where
  "demo_ready v \<equiv> upd_loop 3 (\<lambda>e. e\<lparr>looping := True, quit := False\<rparr>) (v\<lparr>kern := (kern v)\<lparr>sim_ready := [(22, 1)]\<rparr>\<rparr>)"

lemma demo_listens:
  "\<exists>v e. main_setup sim_sys (\<lambda>_. 0x0100007F) 9 1 3 demo_empty = Inr v \<and> epollfd (epollerOf v 3) = 20 \<and>
     eventList (epollerOf v 3) = replicate kEventListSize (0, 0) \<and> sim_interest (kern v) 20 22 = Some (e, 10)"
proof -
  obtain s where s: "toIpPort (mkAddress (\<lambda>_. 0x0100007F) 8002 ''127.0.0.1'') = Inr s" using toIpPort_eq by blast
  show ?thesis
  by (simp add: main_setup_def mkEchoServer_def EchoServer_start_def Server_start_def mkServer_def CheckLoopNotNull_def s
      mkAcceptor_def createNonblockFd_def Socket_bindAddress_def Acceptor_listen_def Socket_listen_def runinLoop_def isLoopThread_def
      setReuseAddr_def setReusePort_def upd_server_def upd_acceptor_def setNewConnectionCallback_def Socket_setopt_def setThreadNum_def
      Server_setMessageCallback_def Server_setConnectionCallback_def demo_empty_def demo_served_def
      ManagerPool_start_def upd_pool_def setThread_num_def mkManagerPool_def
      start_one_def startLoop_def mkThread_def setName_def mkEventLoop_def mkEpoller_def createEventfd_def
      sim_sys_def sim_fresh_def ksim0_def Let_def upd_filed_def upd_loop_def upd_epoller_def mkFiled_def
      Thread_start_def ThreadID_tid_def cacheTid_def setReadCallback_def enableReading_def Filed_update_def EventLoop_update_def Epoller_update_def
      kNew_def updateHelper_def setIndex_def sim_epoll_ctl_def upt_rec)
qed

lemma demo_polls:
  fixes v :: "ksim served"
  assumes "epollfd (epollerOf v 3) = 20" "eventList (epollerOf v 3) = replicate kEventListSize (0, 0)" "sim_interest (kern v) 20 22 = Some (e, 10)"
  shows "\<exists>w. loop_poll sim_sys 3 (demo_ready v) = Inr (0, [10], w)"
  using assms by (simp add: loop_poll_def Epoller_epoll_def upd_loop_def upd_epoller_def upd_filed_def sim_sys_def Let_def fillActiveFileds_def
      overwrite_def kEventListSize_def)

theorem echo_memory_safe_witness:
  "\<exists>v (u :: ksim served). main_setup sim_sys (\<lambda>_. 0x0100007F) 9 1 3 demo_empty = Inr v \<and>
     loop_poll sim_sys 3 (demo_ready v) = Inr (0, [10], u) \<and>
     outcome limits (\<lambda>_. True) (loop_dispatch sim_sys (echo_app 9) (threadId (loopOf v 3)) 0 10 u)"
proof -
  obtain v e where v: "main_setup sim_sys (\<lambda>_. 0x0100007F) 9 1 3 demo_empty = Inr v" and e: "epollfd (epollerOf v 3) = 20"
    "eventList (epollerOf v 3) = replicate kEventListSize (0, 0)" "sim_interest (kern v) 20 22 = Some (e, 10)"
    using demo_listens by blast
  obtain u where u: "loop_poll sim_sys 3 (demo_ready v) = Inr (0, [10], u)" using demo_polls [OF e] by blast
  let ?L = "{3, 10 + 1, 10 + 3, 10 + 5} :: nat set" and ?owner = "\<lambda>m. threadId (loopOf v m)"
  let ?step = "system_step sim_sys sim_interest sim_used (echo_app 9) (\<lambda>_ _. False) ?L ?owner"
  let ?v = "v\<lparr>kern := (kern v)\<lparr>sim_ready := [(22, 1)]\<rparr>\<rparr>" and ?p = "(\<lambda>_. Starting)(3 := Polling)"
  have "?step (v, \<lambda>_. Starting) (?v, \<lambda>_. Starting)" by (rule system_step.kernel) (simp_all add: sim_used_def)
  moreover have "?step (?v, \<lambda>_. Starting) (demo_ready v, ?p)" by (rule system_step.enter) simp_all
  moreover have "?step (demo_ready v, ?p) (u, ?p(3 := Dispatching 0 [10]))"
    by (rule system_step.poll [OF _ _ _ u]) (simp_all add: upd_loop_def)
  ultimately have run: "?step\<^sup>*\<^sup>* (v, \<lambda>_. Starting) (u, ?p(3 := Dispatching 0 [10]))"
    by (meson rtranclp.rtrancl_into_rtrancl rtranclp.rtrancl_refl)
  have "conns demo_empty = Map.empty" "\<And>m. pendFuncs (loopOf demo_empty m) = []" "3 + 1 < next_addr demo_empty" "10 = next_addr demo_empty"
    by (simp_all add: demo_empty_def demo_served_def)
  from echo_memory_safe [OF sim_system_laws sim_socket_frame this refl v refl run, of 3] v u show ?thesis by simp
qed

end
