(* ===== verification/Spec2Isabelle.thy ===== *)
theory Spec2Isabelle
  imports LoopProtocol ConnectionStream LuckyLog Address ManagerProtocol EchoSafe
begin

text \<open>
  Lucky is a multi-threaded network library after muduo: one reactor per thread. A \<open>Server\<close> owns an \<open>Acceptor\<close> on
  the main loop and a pool of threads, each with an \<open>EventLoop\<close>; an accepted descriptor becomes a \<open>Connection\<close>
  on one of the loops. A loop waits in its \<open>Epoller\<close>, dispatches the reported \<open>Filed\<close>s to their callbacks, and then
  runs the functions that were queued on it, by any thread. The sources are \<open>src/*.cpp\<close> and \<open>include/*.h\<close>.

  \<^bold>\<open>Theories and sources.\<close>

  \<^item> \<open>Prelude\<close>: machine types (\<open>size_t\<close> is a 64-bit word), faults (\<open>fault + 'a\<close>, \<open>bindE\<close>, \<open>runE\<close>, \<open>outcome\<close>),
    reading and writing a block of memory. \<open>Printf\<close>: the directives of \<open>snprintf\<close> the code uses, and its cutting.
  \<^item> \<open>Kernel\<close>: the system calls as a parameter, a record of functions on an opaque state, with the documented
    behaviour the theorems name as hypotheses; and a small kernel that runs, for the witnesses.
  \<^item> \<open>LuckyLog\<close>: \<open>LuckyLog.cpp\<close>, \<open>TimeStamp.cpp\<close> and their headers. \<open>Address\<close>: \<open>Address.cpp\<close>.
  \<^item> \<open>ByteBuffer\<close>: \<open>Buffer.cpp\<close>. \<open>Filed\<close>: \<open>Filed.cpp\<close>, with the event masks and the dispatch. \<open>Epoller\<close>: \<open>Epoller.cpp\<close>.
    \<open>Socket\<close>: \<open>Socket.cpp\<close>. \<open>EventLoop\<close>: \<open>EventLoop.cpp\<close>.
  \<^item> \<open>Connection\<close>: \<open>Connection.cpp\<close>; \<open>ConnectionInv\<close>: its invariant and state machine; \<open>ConnectionStream\<close>: the bytes
    it sends and receives; \<open>ProcessFrame\<close>: what its operations leave alone.
  \<^item> \<open>ThreadPool\<close>: \<open>Thread.cpp\<close>, \<open>ThreadID.h\<close>, \<open>ManagerPool.cpp\<close> and \<open>Manager::startLoop\<close> as the pool sees it.
    \<open>ManagerProtocol\<close>: the two threads of \<open>Manager.cpp\<close>, interleaved. \<open>LoopProtocol\<close>: posting threads and a loop
    (\<open>loop\<close>, \<open>doPendFunc\<close>, \<open>queueinLoop\<close>, \<open>quit\<close>), interleaved.
  \<^item> \<open>Server\<close>: \<open>Server.cpp\<close> and \<open>Acceptor.cpp\<close>. \<open>ServerInv\<close>, \<open>ServerLife\<close>: the invariant of the objects of the
    process and that the operations of the server keep it. \<open>ServerProps\<close>: the server's properties.
  \<^item> \<open>LoopFrame\<close>: what the operations on connections leave of loops and descriptors. \<open>ServerStart\<close>, \<open>ServerBoot\<close>: the
    constructor of the server and its start.
  \<^item> \<open>SystemInv\<close>: the invariant of the running system, which adds the queued functions, the \<open>Filed\<close>s waiting to be
    dispatched, the threads and the open descriptors, and that each operation keeps it. \<open>ServerSystem\<close>: the running
    system as a step relation, its safety, and that it covers \<open>EventLoop::loop\<close>.
  \<^item> \<open>EchoServer\<close>: the program \<open>testcode/test.cpp\<close>, from \<open>main\<close> to the reply. \<open>EchoSafe\<close>: in its
    whole life it uses no object after its end and calls no empty function.

  \<^bold>\<open>State.\<close> An object of the program is a record and a pointer is its address, a number; the process is a chain of
  extensible records: \<open>machine\<close> (kernel, log, \<open>Filed\<close>s, pollers), \<open>reactor\<close> (loops), \<open>process\<close> (connections and the
  strings handed to \<open>send\<close>), \<open>pooled\<close> (threads), \<open>served\<close> (acceptor and server). An operation takes and returns it,
  polymorphic in what the later components add. A \<open>std::function\<close> is a handle or a constructor (\<open>handler\<close>,
  \<open>task\<close>) whose meaning is given where all components are known: \<open>server_handler\<close>, \<open>server_task\<close>. The application is
  a parameter, \<open>app\<close>: the public operations each of its callbacks calls. Exiting, failed assertions, reads and
  writes out of bounds, use of destroyed objects and calls of empty functions are faults.

  \<^bold>\<open>Interfaces.\<close> \<open>byte_fifo\<close> and \<open>bounded_fifo\<close> (what a user of \<open>Buffer\<close> relies on, interpreted in \<open>ByteBuffer\<close>),
  \<open>event_registry\<close> (what an owner of \<open>Filed\<close>s relies on when it asks for events, interpreted in \<open>EventLoop\<close>),
  \<open>event_source\<close> (what the dispatch relies on between two callbacks, interpreted on the server's handlers in
  \<open>ServerProps\<close>), \<open>connection_owner\<close> (what a connection relies on when it reports that it is closed, interpreted on
  \<open>Server::removeConnection\<close> in \<open>ServerInv\<close>), \<open>loop_chooser\<close> (what the server relies on when it places a connection,
  interpreted on \<open>getNextLoop\<close> in \<open>ThreadPool\<close>).

  \<^bold>\<open>What is shown.\<close> Buffers implement a byte queue on every branch of growth and compaction. The index of a \<open>Filed\<close>,
  the poller's map and the kernel's interest list never disagree, so the code's error branches for \<open>epoll_ctl\<close> are
  dead. In every interleaving the functions queued on a loop run at most once and in order, no wake-up is lost, the
  loop's own steps run all of them unless the loop is told to quit, and a loop told to quit leaves. A connection
  sends exactly the bytes it was given, in order, as long as a direct write returns the whole length or zero; what
  the code does on the other results is shown too. The other theorems give the behaviour of single operations on every
  branch, and the defects listed as findings.

  \<^bold>\<open>The whole system.\<close> \<open>system_step\<close> lets every loop go through \<open>EventLoop::loop\<close>: \<open>enter\<close>, \<open>poll\<close>, \<open>dispatch\<close> of one
  active \<open>Filed\<close>, \<open>take\<close> of the queue, \<open>call\<close> of one function taken, \<open>finish\<close>, \<open>leave\<close>. Between any two of these come, in any
  order, steps of other loops, calls of the library by other parts of the program
  (\<open>user\<close>, those that \<open>outside\<close> admits), moves of the kernel (\<open>kernel\<close>) and the
  destruction of a connection that neither the server's map nor a queued function holds (\<open>drop\<close>). \<open>send\<close> and
  \<open>shutdown\<close> of another thread test the state of the connection in one step and act in a later one (\<open>late_send\<close>,
  \<open>late_shutdown\<close>), by when the loop may have moved on. One such order is not a step: a \<open>shutdown\<close> that stores
  \<open>kDisconnecting\<close> after the loop has closed the connection. \<open>racing_step\<close> adds it, and \<open>late_shutdown_reopens\<close> shows
  that it breaks the invariant; the theorems over \<open>racing_step\<close> therefore assume that only the loop of a connection
  shuts it down, which the echo server keeps. The application is
  arbitrary. \<open>system_ok\<close> says that the registration, the buffers, the names and the pool are consistent, that every
  queued function is one its connection's state allows, that a connection's establishment is pending at most once, that
  whatever is waiting to be dispatched or watched is alive and belongs to its loop, and that descriptors differ; and that every
  connection is on one of the stages of its life: in the server's map, waiting for its removal, waiting to be
  unregistered, or free to be destroyed, so that no closed connection is forgotten. Every
  step keeps it, \<open>main\<close> establishes it, and it excludes every fatal line and failed assertion but \<open>listen\<close>'s. A \<open>Filed\<close> that
  was destroyed is not found by the dispatch (\<open>find_filed\<close>), and using it is a fault. The run of
  the function \<open>loop()\<close> is a sequence of steps. What it does not exclude, for an arbitrary application, is the use of a
  destroyed object: \<open>send\<close> and \<open>shutdown\<close> from another thread queue bare pointers. \<open>EchoSafe\<close> adds an invariant for
  the echo server, whose callbacks call the library in the right loop only: every queued function holds its connection
  and every connection has its callbacks. With it an operation of a loop ends, apart from \<open>listen\<close>, only in one of the
  faults of \<open>limits\<close>: a read or write beyond a block (\<open>sendinLoop\<close> after a failed write), growth beyond the limit of a
  vector, and overflow of the connection number.

  \<^bold>\<open>Starting.\<close> \<open>server_constructed\<close>, \<open>server_started\<close> and \<open>echo_server_starts\<close> say exactly how the start-up can
  end otherwise than in the invariant: the fatal line of a system call that failed (\<open>boot_fault\<close>, \<open>setup_fault\<close>, with
  the call and its arguments), or a fault of the application's own callback.

  \<^bold>\<open>Bounds and fuel.\<close> Machine integers have their width: \<open>size_t\<close>, event masks, \<open>uint16_t\<close> ports, \<open>int\<close> where it
  can overflow (\<open>nextConnId_\<close>). \<open>loop()\<close> is a partial function, so that not returning is a value; every other loop
  is structural.

  \<^bold>\<open>Not modelled, and simplifications.\<close> Informational log lines (\<open>LOG_INFOM\<close>) and the arguments of error lines;
  the private \<open>EventLoop::hasFiled\<close>, which has no return statement; getters, which are record fields. Each thread's
  \<open>errno\<close> is one value of the kernel state. In \<open>system_step\<close> a handler or queued function of a loop runs as one step; what
  another thread does to a connection is split where it tests and acts, and the interleavings inside \<open>queueinLoop\<close>,
  \<open>quit\<close>, \<open>loop\<close> and the start of a thread are in \<open>LoopProtocol\<close> and \<open>ManagerProtocol\<close>. The
  \<open>shared_ptr\<close>s to a connection are the entry in the map and the functions queued with one; those of an application
  are not counted. The step relation ends a loop with its \<open>loop()\<close>: what a process does after its main loop has
  returned, the destructors of the server and of the loops, is modelled as functions and not as steps. \<open>inet_addr\<close> is
  modelled on canonical dotted quads; on other texts it is a parameter, as are \<open>localtime\<close> and the order in which an
  \<open>unordered_map\<close> is walked; new objects and threads get addresses and ids never used before. The
  files under \<open>build/\<close> are generated by CMake.
\<close>

end
